(* ===== verification/Wireless_Types.thy ===== *)
theory Wireless_Types
  imports Dorsche_Prelude
begin

text \<open>
  The session contract of \<open>src/wireless/types.rs\<close>: the enumerations of the wireless audio ABI, the
  PCM, LC3, ISO, ASE and broadcast configurations with their validators, the presentation position
  and the frame descriptor with its \<open>repr(C)\<close> layout.

  Validators keep the order of the source's checks. A validator returns \<^term>\<open>Inr ()\<close> for
  \<open>Ok(())\<close> and the constructor of the first failed check otherwise. The array access of the
  broadcast validator is explicit: an index out of range is the value \<open>IndexOutOfBounds\<close>, which
  the lemmas show to be unreachable.
\<close>

section \<open>Enumerations\<close>

definition WIRELESS_AUDIO_ABI_VERSION :: u16 where
  "WIRELESS_AUDIO_ABI_VERSION = 1"

datatype SessionType =
    LeUnicastSoftwareEncoding
  | LeUnicastSoftwareDecoding
  | LeUnicastHardwareEncoding
  | LeUnicastHardwareDecoding
  | LeBroadcastSoftwareEncoding
  | LeBroadcastHardwareEncoding

definition is_offloaded :: "SessionType \<Rightarrow> bool" where
  "is_offloaded s = (case s of
      LeUnicastHardwareEncoding \<Rightarrow> True
    | LeUnicastHardwareDecoding \<Rightarrow> True
    | LeBroadcastHardwareEncoding \<Rightarrow> True
    | _ \<Rightarrow> False)"

definition carries_host_payload :: "SessionType \<Rightarrow> bool" where
  "carries_host_payload s = (\<not> is_offloaded s)"

definition is_broadcast :: "SessionType \<Rightarrow> bool" where
  "is_broadcast s = (case s of
      LeBroadcastSoftwareEncoding \<Rightarrow> True
    | LeBroadcastHardwareEncoding \<Rightarrow> True
    | _ \<Rightarrow> False)"

datatype StreamDirection = Sink | Source

datatype AudioContext =
  Unspecified | Conversational | Media | Game | Live | SoundEffects | Notifications | EmergencyAlarm

datatype Framing = Unframed | Framed

datatype Phy = Le1M | Le2M | LeCoded

datatype Packing = Sequential | Interleaved

datatype types_error =
    UnsupportedPcmSampleRate u32
  | PcmWidthInvalid
  | PcmChannelCountInvalid
  | PcmIntervalZero
  | PcmIntervalOverflow
  | PcmIntervalNotIntegral
  | UnsupportedLc3SamplingFrequency
  | Lc3FrameDurationInvalid
  | Lc3FrameEmpty
  | SduWithoutCodecFrame
  | SduIntervalZero
  | NoPhy
  | MaxSduZero
  | PresentationDelayRangeInvalid
  | AseIdZero
  | Lc3PayloadExceedsMaxSdu
  | TransparentPathWithCodecConfiguration
  | BroadcastIdTooWide
  | BroadcastPresentationDelayZero
  | NoSubgroup
  | SubgroupWithoutBis
  | BisIndexOutOfRange
  | DuplicateBisIndex u8
  | BisCodecMismatch
  | IndexOutOfBounds
  | OffloadNeedsLeAudioConfiguration
  | UnicastConfigurationForBroadcastSession
  | GroupIdNegative
  | NoAse
  | BroadcastConfigurationForUnicastSession

section \<open>PCM\<close>

record PcmConfiguration =
  sample_rate_hz :: u32
  bits_per_sample :: u8
  channels :: u8
  data_interval_us :: u32

definition pcm_validate :: "PcmConfiguration \<Rightarrow> types_error + unit" where
  "pcm_validate p =
     ensure (sample_rate_hz p \<in> {8000, 16000, 24000, 32000, 44100, 48000})
       (UnsupportedPcmSampleRate (sample_rate_hz p)) (
     ensure (bits_per_sample p \<in> {16, 24, 32}) PcmWidthInvalid (
     ensure (1 \<le> channels p \<and> channels p \<le> 8) PcmChannelCountInvalid (
     ensure (data_interval_us p > 0) PcmIntervalZero (
     Inr ()))))"

definition bytes_per_interval :: "PcmConfiguration \<Rightarrow> types_error + usize" where
  "bytes_per_interval p =
     and_then (pcm_validate p) (\<lambda>_.
     and_then (ok_or (checked_mul (ucast (sample_rate_hz p) :: u64) (ucast (data_interval_us p)))
                PcmIntervalOverflow) (\<lambda>frames.
     ensure (frames mod 1000000 = 0) PcmIntervalNotIntegral (
     Inr (frames div 1000000 * ucast (channels p) * ucast (bits_per_sample p div 8)))))"

section \<open>LC3 and ISO quality of service\<close>

record Lc3Configuration =
  sampling_frequency_hz :: u32
  frame_duration_us :: u16
  octets_per_codec_frame :: u16
  codec_frames_per_sdu :: u8
  audio_channel_allocation :: u32

definition lc3_validate :: "Lc3Configuration \<Rightarrow> types_error + unit" where
  "lc3_validate c =
     ensure (sampling_frequency_hz c \<in> {8000, 16000, 24000, 32000, 44100, 48000})
       UnsupportedLc3SamplingFrequency (
     ensure (frame_duration_us c \<in> {7500, 10000}) Lc3FrameDurationInvalid (
     ensure (octets_per_codec_frame c > 0) Lc3FrameEmpty (
     ensure (codec_frames_per_sdu c > 0) SduWithoutCodecFrame (
     Inr ()))))"

record IsoQos =
  sdu_interval_us :: u32
  framing :: Framing
  phys :: "Phy list"
  max_sdu :: u16
  retransmission_number :: u8
  max_transport_latency_ms :: u16
  presentation_delay_min_us :: u32
  presentation_delay_max_us :: u32

definition iso_qos_validate :: "IsoQos \<Rightarrow> types_error + unit" where
  "iso_qos_validate q =
     ensure (sdu_interval_us q > 0) SduIntervalZero (
     ensure (phys q \<noteq> []) NoPhy (
     ensure (max_sdu q > 0) MaxSduZero (
     ensure (presentation_delay_min_us q \<le> presentation_delay_max_us q)
       PresentationDelayRangeInvalid (
     Inr ()))))"

record DataPathConfiguration =
  data_path_id :: u8
  transparent :: bool
  controller_delay_us :: u32
  codec_configuration :: "u8 list"
  vendor_configuration :: "u8 list"

record AseConfiguration =
  ase_id :: u8
  ase_direction :: StreamDirection
  cis_handle :: "u16 option"
  ase_lc3 :: Lc3Configuration
  ase_qos :: IsoQos
  ase_data_path :: DataPathConfiguration

definition sdu_octets :: "Lc3Configuration \<Rightarrow> u32" where
  "sdu_octets c = ucast (octets_per_codec_frame c) * ucast (codec_frames_per_sdu c)"

definition ase_validate :: "AseConfiguration \<Rightarrow> types_error + unit" where
  "ase_validate a =
     ensure (ase_id a \<noteq> 0) AseIdZero (
     and_then (lc3_validate (ase_lc3 a)) (\<lambda>_.
     and_then (iso_qos_validate (ase_qos a)) (\<lambda>_.
     ensure (sdu_octets (ase_lc3 a) \<le> ucast (max_sdu (ase_qos a))) Lc3PayloadExceedsMaxSdu (
     if transparent (ase_data_path a)
     then ensure (codec_configuration (ase_data_path a) = [])
            TransparentPathWithCodecConfiguration (Inr ())
     else Inr ()))))"

record LeAudioConfiguration =
  group_id :: i32
  context_of :: AudioContext
  packing :: Packing
  le_pcm :: PcmConfiguration
  ases :: "AseConfiguration list"

section \<open>Broadcast\<close>

record BisConfiguration =
  bis_index :: u8
  bis_stream_handle :: "u16 option"
  bis_lc3 :: Lc3Configuration
  bis_data_path :: DataPathConfiguration

record BroadcastSubgroup =
  codec :: Lc3Configuration
  metadata :: "u8 list"
  bis :: "BisConfiguration list"

record BroadcastConfiguration =
  broadcast_id :: u32
  encrypted :: bool
  presentation_delay_us :: u32
  broadcast_pcm :: PcmConfiguration
  subgroups :: "BroadcastSubgroup list"

text \<open>Indexing the \<open>seen_bis\<close> array; \<^const>\<open>None\<close> is the panic of an index out of range.\<close>

definition array_get :: "'a list \<Rightarrow> nat \<Rightarrow> 'a option" where
  "array_get xs i = (if i < length xs then Some (xs ! i) else None)"

fun check_bis :: "Lc3Configuration \<Rightarrow> BisConfiguration list \<Rightarrow> bool list \<Rightarrow> types_error + bool list"
where
  "check_bis c [] seen = Inr seen"
| "check_bis c (b # bs) seen =
     ensure (1 \<le> bis_index b \<and> bis_index b \<le> 31) BisIndexOutOfRange (
     and_then (ok_or (array_get seen (unat (bis_index b))) IndexOutOfBounds) (\<lambda>already.
     ensure (\<not> already) (DuplicateBisIndex (bis_index b)) (
     and_then (lc3_validate (bis_lc3 b)) (\<lambda>_.
     ensure (bis_lc3 b = c) BisCodecMismatch (
     check_bis c bs (seen[unat (bis_index b) := True]))))))"

fun check_subgroups :: "BroadcastSubgroup list \<Rightarrow> bool list \<Rightarrow> types_error + bool list" where
  "check_subgroups [] seen = Inr seen"
| "check_subgroups (g # gs) seen =
     and_then (lc3_validate (codec g)) (\<lambda>_.
     ensure (bis g \<noteq> []) SubgroupWithoutBis (
     and_then (check_bis (codec g) (bis g) seen) (\<lambda>seen'. check_subgroups gs seen')))"

definition broadcast_validate :: "BroadcastConfiguration \<Rightarrow> types_error + unit" where
  "broadcast_validate b =
     ensure (broadcast_id b \<le> 0x00ffffff) BroadcastIdTooWide (
     ensure (presentation_delay_us b > 0) BroadcastPresentationDelayZero (
     and_then (pcm_validate (broadcast_pcm b)) (\<lambda>_.
     ensure (subgroups b \<noteq> []) NoSubgroup (
     and_then (check_subgroups (subgroups b) (replicate 32 False)) (\<lambda>_. Inr ())))))"

section \<open>Audio configurations\<close>

datatype AudioConfiguration =
    Pcm PcmConfiguration
  | LeAudio LeAudioConfiguration
  | LeBroadcast BroadcastConfiguration

fun validate_for :: "AudioConfiguration \<Rightarrow> SessionType \<Rightarrow> types_error + unit" where
  "validate_for (Pcm p) s =
     and_then (pcm_validate p) (\<lambda>_.
     if is_offloaded s then Inl OffloadNeedsLeAudioConfiguration else Inr ())"
| "validate_for (LeAudio le) s =
     ensure (\<not> is_broadcast s) UnicastConfigurationForBroadcastSession (
     ensure (sint (group_id le) \<ge> 0) GroupIdNegative (
     and_then (pcm_validate (le_pcm le)) (\<lambda>_.
     ensure (ases le \<noteq> []) NoAse (
     try_all ase_validate (ases le)))))"
| "validate_for (LeBroadcast b) s =
     ensure (is_broadcast s) BroadcastConfigurationForUnicastSession (
     broadcast_validate b)"

section \<open>Presentation position and frame descriptor\<close>

record PresentationPosition =
  remote_delay_ns :: u64
  transmitted_octets :: u64
  monotonic_time_ns :: u64

definition default_position :: PresentationPosition where
  "default_position = \<lparr>remote_delay_ns = 0, transmitted_octets = 0, monotonic_time_ns = 0\<rparr>"

datatype PayloadKind = PcmPayload | Lc3Sdu

definition payload_kind_code :: "PayloadKind \<Rightarrow> u8" where
  "payload_kind_code k = (case k of PcmPayload \<Rightarrow> 1 | Lc3Sdu \<Rightarrow> 2)"

datatype IsoStatus = Valid | PossiblyInvalid | Lost | Late

definition iso_status_code :: "IsoStatus \<Rightarrow> u8" where
  "iso_status_code s = (case s of Valid \<Rightarrow> 0 | PossiblyInvalid \<Rightarrow> 1 | Lost \<Rightarrow> 2 | Late \<Rightarrow> 3)"

record FrameDescriptor =
  fd_abi_version :: u16
  fd_header_bytes :: u16
  fd_payload_kind :: u8
  fd_iso_status :: u8
  fd_flags :: u16
  fd_payload_bytes :: u32
  fd_sequence :: u64
  fd_stream_handle :: u32
  fd_sample_rate_hz :: u32
  fd_channels :: u16
  fd_bits_per_sample :: u16
  fd_capture_time_ns :: u64
  fd_presentation_time_ns :: u64
  fd_deadline_ns :: u64

text \<open>
  The \<open>repr(C)\<close> layout rule: each field at the next multiple of its alignment, the whole rounded
  up to the largest alignment. Integer fields are aligned to their size.
\<close>

definition round_up :: "nat \<Rightarrow> nat \<Rightarrow> nat" where
  "round_up v a = (v + a - 1) div a * a"

fun repr_c_offsets :: "nat \<Rightarrow> (nat \<times> nat) list \<Rightarrow> nat list" where
  "repr_c_offsets pos [] = []"
| "repr_c_offsets pos ((sz, align) # fs) =
     round_up pos align # repr_c_offsets (round_up pos align + sz) fs"

fun repr_c_end :: "nat \<Rightarrow> (nat \<times> nat) list \<Rightarrow> nat" where
  "repr_c_end pos [] = pos"
| "repr_c_end pos ((sz, align) # fs) = repr_c_end (round_up pos align + sz) fs"

definition repr_c_size :: "nat \<Rightarrow> (nat \<times> nat) list \<Rightarrow> nat" where
  "repr_c_size min_align fs = round_up (repr_c_end 0 fs) (fold max (map snd fs) min_align)"

definition frame_descriptor_fields :: "(nat \<times> nat) list" where
  "frame_descriptor_fields =
     [(2, 2), (2, 2), (1, 1), (1, 1), (2, 2), (4, 4), (8, 8), (4, 4), (4, 4), (2, 2), (2, 2),
      (8, 8), (8, 8), (8, 8)]"

definition size_of_FrameDescriptor :: nat where
  "size_of_FrameDescriptor = repr_c_size 1 frame_descriptor_fields"

definition frame_descriptor_new :: "PayloadKind \<Rightarrow> u64 \<Rightarrow> FrameDescriptor" where
  "frame_descriptor_new kind sequence =
     \<lparr>fd_abi_version = WIRELESS_AUDIO_ABI_VERSION,
      fd_header_bytes = of_nat size_of_FrameDescriptor,
      fd_payload_kind = payload_kind_code kind,
      fd_iso_status = iso_status_code Valid,
      fd_flags = 0,
      fd_payload_bytes = 0,
      fd_sequence = sequence,
      fd_stream_handle = 0,
      fd_sample_rate_hz = 0,
      fd_channels = 0,
      fd_bits_per_sample = 0,
      fd_capture_time_ns = 0,
      fd_presentation_time_ns = 0,
      fd_deadline_ns = 0\<rparr>"

section \<open>PCM intervals\<close>

lemma pcm_validate_Inr_iff:
  "pcm_validate p = Inr u \<longleftrightarrow>
     sample_rate_hz p \<in> {8000, 16000, 24000, 32000, 44100, 48000} \<and>
     bits_per_sample p \<in> {16, 24, 32} \<and>
     1 \<le> channels p \<and> channels p \<le> 8 \<and> 0 < data_interval_us p"
  by (simp add: pcm_validate_def result_simps conj_assoc)

lemma pcm_valid_bounds:
  assumes "pcm_validate p = Inr ()"
  shows "8000 \<le> unat (sample_rate_hz p)" "unat (sample_rate_hz p) \<le> 48000"
    "1 \<le> unat (channels p)" "unat (channels p) \<le> 8"
    "2 \<le> unat (bits_per_sample p) div 8" "unat (bits_per_sample p) div 8 \<le> 4"
    "0 < unat (data_interval_us p)"
  using assms by (auto simp: pcm_validate_Inr_iff word_le_nat_alt word_less_nat_alt)

lemma pcm_frames_exact:
  "checked_mul (ucast (sample_rate_hz p) :: u64) (ucast (data_interval_us p)) =
     Some (ucast (sample_rate_hz p) * ucast (data_interval_us p))"
  "unat ((ucast (sample_rate_hz p) :: u64) * ucast (data_interval_us p)) =
     unat (sample_rate_hz p) * unat (data_interval_us p)"
proof -
  have "unat (sample_rate_hz p) * unat (data_interval_us p) < 2 ^ 32 * 2 ^ 32"
    by (intro mult_strict_mono') simp_all
  then have small: "unat (ucast (sample_rate_hz p) :: u64) * unat (ucast (data_interval_us p) :: u64)
      < 2 ^ LENGTH(64)"
    by simp
  show "checked_mul (ucast (sample_rate_hz p) :: u64) (ucast (data_interval_us p)) =
     Some (ucast (sample_rate_hz p) * ucast (data_interval_us p))"
    using small by (simp add: checked_mul_def)
  show "unat ((ucast (sample_rate_hz p) :: u64) * ucast (data_interval_us p)) =
     unat (sample_rate_hz p) * unat (data_interval_us p)"
    using unat_mult_no_wrap [OF small] by simp
qed

lemma bytes_per_interval_Inr_iff:
  "bytes_per_interval p = Inr n \<longleftrightarrow>
     pcm_validate p = Inr () \<and>
     1000000 dvd unat (sample_rate_hz p) * unat (data_interval_us p) \<and>
     unat n = unat (sample_rate_hz p) * unat (data_interval_us p) div 1000000 *
       unat (channels p) * (unat (bits_per_sample p) div 8)"
proof (cases "pcm_validate p = Inr ()")
  case False
  then show ?thesis by (simp add: bytes_per_interval_def result_simps)
next
  case True
  let ?f = "(ucast (sample_rate_hz p) :: u64) * ucast (data_interval_us p)"
  let ?b = "?f div 1000000 * ucast (channels p) * ucast (bits_per_sample p div 8)"
  note bounds = pcm_valid_bounds [OF True]
  have f: "unat ?f = unat (sample_rate_hz p) * unat (data_interval_us p)"
    by (rule pcm_frames_exact)
  have "unat ?f \<le> 48000 * 4294967296"
    unfolding f using bounds by (intro mult_mono) (simp_all add: less_imp_le)
  then have q: "unat (?f div 1000000) \<le> 206158431"
    by (simp add: unat_div)
  have "unat (?f div 1000000) * unat (channels p) \<le> 206158431 * 8"
    using q bounds by (intro mult_mono) simp_all
  moreover from this have c: "unat (?f div 1000000 * ucast (channels p)) =
      unat (?f div 1000000) * unat (channels p)"
    by (subst unat_mult_no_wrap) simp_all
  ultimately have "unat (?f div 1000000 * ucast (channels p)) * (unat (bits_per_sample p) div 8)
      \<le> 206158431 * 8 * 4"
    using bounds by (intro mult_mono) simp_all
  then have b: "unat ?b = unat ?f div 1000000 * unat (channels p) * (unat (bits_per_sample p) div 8)"
    using c by (subst unat_mult_no_wrap) (simp_all add: unat_div)
  have m: "?f mod 1000000 = 0 \<longleftrightarrow> 1000000 dvd unat ?f"
    by (simp add: unat_eq_0 [symmetric] unat_mod mod_eq_0_iff_dvd)
  show ?thesis
    using True b m f
    by (auto simp: bytes_per_interval_def pcm_frames_exact(1) result_simps word_unat_eq_iff)
qed

lemma bytes_per_interval_Inl:
  "bytes_per_interval p = Inl e \<Longrightarrow>
     pcm_validate p = Inl e \<or>
     e = PcmIntervalNotIntegral \<and> pcm_validate p = Inr () \<and>
       \<not> 1000000 dvd unat (sample_rate_hz p) * unat (data_interval_us p)"
  using pcm_frames_exact(2) [of p]
  by (auto simp: bytes_per_interval_def pcm_frames_exact(1) and_then_Inl_iff ensure_Inl_iff
      unat_eq_0 [symmetric] unat_mod mod_eq_0_iff_dvd split: if_splits)

text \<open>The configuration of the repository's own tests, and one whose interval is fractional.\<close>

definition stereo_48k :: PcmConfiguration where
  "stereo_48k =
     \<lparr>sample_rate_hz = 48000, bits_per_sample = 16, channels = 2, data_interval_us = 10000\<rparr>"

lemma stereo_48k_valid: "pcm_validate stereo_48k = Inr ()"
  by (simp add: pcm_validate_Inr_iff stereo_48k_def)

lemma stereo_48k_bytes: "bytes_per_interval stereo_48k = Inr 1920"
  by (simp add: bytes_per_interval_Inr_iff stereo_48k_valid) (simp add: stereo_48k_def)

text \<open>C20: The size of a PCM interval is computed exactly: the call succeeds for precisely the valid
  configurations whose interval is a whole number of frames, and then the 64-bit result is the
  mathematical product of frames, channels and sample bytes, so no intermediate product wraps. A
  failure is the configuration's own validation error or, for a valid configuration, a fractional
  number of frames; the overflow error of the checked multiplication is unreachable.\<close>

theorem bytes_per_interval_exact:
  "(bytes_per_interval p = Inr n \<longleftrightarrow>
     pcm_validate p = Inr () \<and>
     1000000 dvd unat (sample_rate_hz p) * unat (data_interval_us p) \<and>
     unat n = unat (sample_rate_hz p) * unat (data_interval_us p) div 1000000 *
       unat (channels p) * (unat (bits_per_sample p) div 8)) \<and>
   (bytes_per_interval p = Inl e \<longrightarrow>
     pcm_validate p = Inl e \<or>
     e = PcmIntervalNotIntegral \<and> pcm_validate p = Inr () \<and>
       \<not> 1000000 dvd unat (sample_rate_hz p) * unat (data_interval_us p))"
  using bytes_per_interval_Inr_iff bytes_per_interval_Inl by blast

theorem bytes_per_interval_exact_witness:
  "unat (1920 :: usize) = 48000 * 10000 div 1000000 * 2 * (16 div 8) \<and>
   bytes_per_interval (stereo_48k\<lparr>sample_rate_hz := 44100, data_interval_us := 7500\<rparr>) =
     Inl PcmIntervalNotIntegral \<and>
   \<not> 1000000 dvd (44100 * 7500 :: nat)"
proof -
  let ?p = "stereo_48k\<lparr>sample_rate_hz := 44100, data_interval_us := 7500\<rparr>"
  have e: "bytes_per_interval ?p = Inl PcmIntervalNotIntegral"
    by (simp add: bytes_per_interval_def pcm_validate_def stereo_48k_def checked_mul_def)
  show ?thesis
    using e bytes_per_interval_exact [of stereo_48k 1920] stereo_48k_bytes
      bytes_per_interval_exact [of ?p 0 PcmIntervalNotIntegral]
    by (simp add: pcm_validate_def stereo_48k_def)
qed

section \<open>Broadcast validation\<close>

definition mark_bis :: "BisConfiguration list \<Rightarrow> bool list \<Rightarrow> bool list" where
  "mark_bis bs seen = fold (\<lambda>b s. s[unat (bis_index b) := True]) bs seen"

lemma mark_bis_simps [simp]:
  "mark_bis [] seen = seen"
  "mark_bis (b # bs) seen = mark_bis bs (seen[unat (bis_index b) := True])"
  "mark_bis (bs @ bs') seen = mark_bis bs' (mark_bis bs seen)"
  "length (mark_bis bs seen) = length seen"
proof -
  show "length (mark_bis bs seen) = length seen"
    by (induction bs arbitrary: seen) (simp_all add: mark_bis_def)
qed (simp_all add: mark_bis_def)

lemma nth_mark_bis:
  "i < length seen \<Longrightarrow> mark_bis bs seen ! i \<longleftrightarrow> seen ! i \<or> i \<in> (unat \<circ> bis_index) ` set bs"
proof (induction bs arbitrary: seen)
  case (Cons b bs)
  then show ?case
    by (cases "i = unat (bis_index b)") auto
qed simp

definition bis_ok :: "Lc3Configuration \<Rightarrow> BisConfiguration \<Rightarrow> bool" where
  "bis_ok c b \<longleftrightarrow> 1 \<le> bis_index b \<and> bis_index b \<le> 31 \<and> lc3_validate (bis_lc3 b) = Inr () \<and> bis_lc3 b = c"

lemma bis_index_lt_32: "bis_index b \<le> 31 \<Longrightarrow> unat (bis_index b) < 32"
  by (simp add: word_le_nat_alt)

lemma check_bis_Inr_iff:
  assumes "length seen = 32"
  shows "check_bis c bs seen = Inr seen' \<longleftrightarrow>
     (\<forall>b \<in> set bs. bis_ok c b \<and> \<not> seen ! unat (bis_index b)) \<and>
     distinct (map bis_index bs) \<and> seen' = mark_bis bs seen"
  using assms
proof (induction bs arbitrary: seen)
  case Nil
  then show ?case by auto
next
  case (Cons b bs)
  show ?case
  proof (cases "bis_ok c b \<and> \<not> seen ! unat (bis_index b)")
    case False
    then show ?thesis
      using Cons.prems by (auto simp: result_simps bis_ok_def array_get_def)
  next
    case True
    then have lt: "unat (bis_index b) < 32" by (simp add: bis_ok_def bis_index_lt_32)
    let ?seen = "seen[unat (bis_index b) := True]"
    have "(\<forall>b' \<in> set bs. \<not> ?seen ! unat (bis_index b')) \<longleftrightarrow>
        (\<forall>b' \<in> set bs. \<not> seen ! unat (bis_index b')) \<and> bis_index b \<notin> bis_index ` set bs"
      using lt Cons.prems by (auto simp: nth_list_update word_unat_eq_iff)
    moreover have "check_bis c (b # bs) seen = check_bis c bs ?seen"
      using True lt Cons.prems by (auto simp: bis_ok_def array_get_def)
    ultimately show ?thesis
      using True Cons.IH [of ?seen] Cons.prems by auto
  qed
qed

lemma check_bis_no_panic: "length seen = 32 \<Longrightarrow> check_bis c bs seen \<noteq> Inl IndexOutOfBounds"
proof (induction bs arbitrary: seen)
  case (Cons b bs)
  then show ?case
    by (auto simp: ensure_def and_then_Inl_iff array_get_def bis_index_lt_32 lc3_validate_def
        ok_or_def split: if_splits option.splits)
qed simp

lemma lc3_validate_no_panic: "lc3_validate c \<noteq> Inl IndexOutOfBounds"
  by (simp add: lc3_validate_def ensure_def)

definition all_bis :: "BroadcastSubgroup list \<Rightarrow> BisConfiguration list" where
  "all_bis gs = concat (map bis gs)"

lemma all_bis_simps [simp]: "all_bis [] = []" "all_bis (g # gs) = bis g @ all_bis gs"
  by (simp_all add: all_bis_def)

definition subgroup_ok :: "BroadcastSubgroup \<Rightarrow> bool" where
  "subgroup_ok g \<longleftrightarrow> lc3_validate (codec g) = Inr () \<and> bis g \<noteq> [] \<and> (\<forall>b \<in> set (bis g). bis_ok (codec g) b)"

lemma check_subgroups_Inr_iff:
  assumes "length seen = 32"
  shows "check_subgroups gs seen = Inr seen' \<longleftrightarrow>
     (\<forall>g \<in> set gs. subgroup_ok g) \<and>
     (\<forall>b \<in> set (all_bis gs). \<not> seen ! unat (bis_index b)) \<and>
     distinct (map bis_index (all_bis gs)) \<and> seen' = mark_bis (all_bis gs) seen"
  using assms
proof (induction gs arbitrary: seen)
  case Nil
  then show ?case by auto
next
  case (Cons g gs)
  have idx: "unat (bis_index b) < 32" if "subgroup_ok g'" "b \<in> set (bis g')" for g' b
    using that by (simp add: subgroup_ok_def bis_ok_def bis_index_lt_32)
  show ?case
  proof (cases "subgroup_ok g \<and> (\<forall>g' \<in> set gs. subgroup_ok g')")
    case False
    then show ?thesis
      using Cons by (auto simp: result_simps check_bis_Inr_iff subgroup_ok_def)
  next
    case True
    then have lt: "unat (bis_index b) < 32" if "b \<in> set (all_bis gs)" for b
      using that idx by (auto simp: all_bis_def)
    have "mark_bis (bis g) seen ! unat (bis_index b) \<longleftrightarrow>
        seen ! unat (bis_index b) \<or> bis_index b \<in> bis_index ` set (bis g)"
      if "b \<in> set (all_bis gs)" for b
      using lt [OF that] Cons.prems by (auto simp: nth_mark_bis word_unat_eq_iff image_iff)
    then have "(\<forall>b \<in> set (all_bis gs). \<not> mark_bis (bis g) seen ! unat (bis_index b)) \<longleftrightarrow>
        (\<forall>b \<in> set (all_bis gs). \<not> seen ! unat (bis_index b)) \<and>
        bis_index ` set (bis g) \<inter> bis_index ` set (all_bis gs) = {}"
      by (simp add: disjoint_iff image_iff) metis
    then show ?thesis
      using True Cons by (auto simp: result_simps check_bis_Inr_iff subgroup_ok_def)
  qed
qed

lemma check_subgroups_no_panic:
  "length seen = 32 \<Longrightarrow> check_subgroups gs seen \<noteq> Inl IndexOutOfBounds"
proof (induction gs arbitrary: seen)
  case (Cons g gs)
  then show ?case
    by (auto simp: and_then_Inl_iff ensure_Inl_iff lc3_validate_no_panic check_bis_no_panic
        check_bis_Inr_iff split: if_splits)
qed simp

lemma broadcast_validate_Inr_iff:
  "broadcast_validate b = Inr () \<longleftrightarrow>
     unat (broadcast_id b) < 2 ^ 24 \<and> 0 < presentation_delay_us b \<and>
     pcm_validate (broadcast_pcm b) = Inr () \<and> subgroups b \<noteq> [] \<and>
     (\<forall>g \<in> set (subgroups b). subgroup_ok g) \<and>
     distinct (map bis_index (all_bis (subgroups b)))"
proof -
  have "broadcast_id b \<le> 0x00ffffff \<longleftrightarrow> unat (broadcast_id b) < 2 ^ 24"
    by (auto simp: word_le_nat_alt)
  then show ?thesis
    by (auto simp: broadcast_validate_def result_simps check_subgroups_Inr_iff all_bis_def
        subgroup_ok_def bis_ok_def bis_index_lt_32)
qed

lemma broadcast_validate_no_panic: "broadcast_validate b \<noteq> Inl IndexOutOfBounds"
  by (auto simp: broadcast_validate_def and_then_Inl_iff ensure_Inl_iff check_subgroups_no_panic
      pcm_validate_def split: if_splits)

lemma broadcast_bis_bound:
  assumes "broadcast_validate b = Inr ()"
  shows "length (all_bis (subgroups b)) \<le> 31"
proof -
  let ?ix = "map (unat \<circ> bis_index) (all_bis (subgroups b))"
  have "distinct ?ix"
    using assms by (auto simp: broadcast_validate_Inr_iff distinct_map inj_on_def word_unat_eq_iff)
  moreover have "set ?ix \<subseteq> {1..31}"
    using assms unfolding broadcast_validate_Inr_iff subgroup_ok_def bis_ok_def
    by (fastforce simp: all_bis_def word_le_nat_alt)
  ultimately have "length ?ix \<le> card {1..31::nat}"
    by (metis card_mono distinct_card finite_atLeastAtMost)
  then show ?thesis by simp
qed

definition lc3_48k :: Lc3Configuration where
  "lc3_48k =
     \<lparr>sampling_frequency_hz = 48000, frame_duration_us = 10000, octets_per_codec_frame = 120,
      codec_frames_per_sdu = 1, audio_channel_allocation = 3\<rparr>"

definition transparent_path :: DataPathConfiguration where
  "transparent_path =
     \<lparr>data_path_id = 0, transparent = True, controller_delay_us = 0,
      codec_configuration = [], vendor_configuration = []\<rparr>"

definition broadcast_of :: "u8 list list \<Rightarrow> BroadcastConfiguration" where
  "broadcast_of ix =
     \<lparr>broadcast_id = 1, encrypted = False, presentation_delay_us = 40000,
      broadcast_pcm = stereo_48k,
      subgroups = map (\<lambda>js.
        \<lparr>codec = lc3_48k, metadata = [],
         bis = map (\<lambda>i. \<lparr>bis_index = i, bis_stream_handle = None, bis_lc3 = lc3_48k,
           bis_data_path = transparent_path\<rparr>) js\<rparr>) ix\<rparr>"

lemma lc3_48k_valid: "lc3_validate lc3_48k = Inr ()"
  by (simp add: lc3_validate_def lc3_48k_def)

text \<open>C19: The broadcast validator accepts exactly the configurations with a 24-bit id, a positive
  presentation delay, valid PCM, at least one subgroup, in each subgroup at least one BIS, every BIS
  index in 1..31 with the subgroup's valid codec, and no BIS index used twice anywhere in the
  broadcast. An accepted broadcast therefore has at most 31 streams over all subgroups, and the
  validator never indexes its array of seen streams out of range.\<close>

theorem broadcast_validate_exact:
  "(broadcast_validate b = Inr () \<longleftrightarrow>
     unat (broadcast_id b) < 2 ^ 24 \<and> 0 < presentation_delay_us b \<and>
     pcm_validate (broadcast_pcm b) = Inr () \<and> subgroups b \<noteq> [] \<and>
     (\<forall>g \<in> set (subgroups b). subgroup_ok g) \<and>
     distinct (map bis_index (all_bis (subgroups b)))) \<and>
   (broadcast_validate b = Inr () \<longrightarrow> length (all_bis (subgroups b)) \<le> 31) \<and>
   broadcast_validate b \<noteq> Inl IndexOutOfBounds"
  using broadcast_validate_Inr_iff broadcast_bis_bound broadcast_validate_no_panic by blast

lemma broadcast_of_two_valid: "broadcast_validate (broadcast_of [[1, 2], [3]]) = Inr ()"
  by (simp add: broadcast_validate_Inr_iff broadcast_of_def stereo_48k_valid lc3_48k_valid
      subgroup_ok_def bis_ok_def)

theorem broadcast_validate_exact_witness:
  "broadcast_validate (broadcast_of [[1, 2], [3]]) = Inr () \<and>
   length (all_bis (subgroups (broadcast_of [[1, 2], [3]]))) \<le> 31 \<and>
   broadcast_validate (broadcast_of [[1, 2], [1]]) \<noteq> Inr ()"
proof -
  have "\<not> distinct (map bis_index (all_bis (subgroups (broadcast_of [[1, 2], [1]]))))"
    by (simp add: broadcast_of_def)
  then show ?thesis
    using broadcast_of_two_valid broadcast_validate_exact [of "broadcast_of [[1, 2], [3]]"]
      broadcast_validate_exact [of "broadcast_of [[1, 2], [1]]"]
    by blast
qed

section \<open>Session configurations\<close>

lemma unat_sdu_octets:
  "unat (sdu_octets c) = unat (octets_per_codec_frame c) * unat (codec_frames_per_sdu c)"
proof -
  have "unat (octets_per_codec_frame c) * unat (codec_frames_per_sdu c) < 65536 * 256"
    by (intro mult_strict_mono') simp_all
  then show ?thesis
    unfolding sdu_octets_def by (subst unat_mult_no_wrap) simp_all
qed

lemma ase_validate_sdu:
  assumes "ase_validate a = Inr ()"
  shows "0 < unat (octets_per_codec_frame (ase_lc3 a)) * unat (codec_frames_per_sdu (ase_lc3 a))"
    and "unat (octets_per_codec_frame (ase_lc3 a)) * unat (codec_frames_per_sdu (ase_lc3 a))
      \<le> unat (max_sdu (ase_qos a))"
  using assms
  by (auto simp: ase_validate_def lc3_validate_def result_simps word_le_nat_alt word_less_nat_alt
      unat_sdu_octets)

text \<open>C21: A configuration accepted for a session fits the session's type: offloaded sessions never run
  on a bare PCM contract, unicast configurations never reach a broadcast session nor broadcast
  configurations a unicast one, and every stream endpoint of a unicast configuration carries a
  non-empty payload that fits the negotiated maximum SDU as a mathematical product.\<close>

theorem validate_for_sound:
  assumes "validate_for c s = Inr ()"
  shows "case c of
      Pcm p \<Rightarrow> pcm_validate p = Inr () \<and> carries_host_payload s
    | LeAudio le \<Rightarrow> \<not> is_broadcast s \<and> 0 \<le> sint (group_id le) \<and> ases le \<noteq> [] \<and>
        (\<forall>a \<in> set (ases le).
          0 < unat (octets_per_codec_frame (ase_lc3 a)) * unat (codec_frames_per_sdu (ase_lc3 a)) \<and>
          unat (octets_per_codec_frame (ase_lc3 a)) * unat (codec_frames_per_sdu (ase_lc3 a))
            \<le> unat (max_sdu (ase_qos a)))
    | LeBroadcast b \<Rightarrow> is_broadcast s \<and> broadcast_validate b = Inr ()"
proof (cases c)
  case (LeAudio le)
  with assms have "ase_validate a = Inr ()" if "a \<in> set (ases le)" for a
    using that by (simp add: result_simps)
  then show ?thesis
    using assms LeAudio ase_validate_sdu by (simp add: result_simps)
qed (use assms in \<open>auto simp: result_simps carries_host_payload_def split: if_splits\<close>)

definition one_ase :: LeAudioConfiguration where
  "one_ase =
     \<lparr>group_id = 0, context_of = Media, packing = Sequential, le_pcm = stereo_48k,
      ases = [\<lparr>ase_id = 1, ase_direction = Sink, cis_handle = None, ase_lc3 = lc3_48k,
        ase_qos = \<lparr>sdu_interval_us = 10000, framing = Unframed, phys = [Le2M], max_sdu = 120,
          retransmission_number = 5, max_transport_latency_ms = 20,
          presentation_delay_min_us = 0, presentation_delay_max_us = 40000\<rparr>,
        ase_data_path = transparent_path\<rparr>]\<rparr>"

lemma one_ase_valid: "validate_for (LeAudio one_ase) LeUnicastHardwareEncoding = Inr ()"
  by (simp add: one_ase_def stereo_48k_valid is_broadcast_def ase_validate_def lc3_48k_valid
      iso_qos_validate_def transparent_path_def)
    (simp add: sdu_octets_def lc3_48k_def)

theorem validate_for_sound_witness:
  "validate_for (LeAudio one_ase) LeUnicastHardwareEncoding = Inr () \<and> ases one_ase \<noteq> [] \<and>
   \<not> is_broadcast LeUnicastHardwareEncoding"
  using one_ase_valid validate_for_sound [OF one_ase_valid] by simp

section \<open>Descriptor layout\<close>

text \<open>The C layout of the frame descriptor has the 64 bytes the source asserts at compile time, and
  its fields lie at the fixed offsets that the process ABI relies on, with padding only before the
  sequence number and before the capture time.\<close>

lemma frame_descriptor_layout:
  "size_of_FrameDescriptor = 64 \<and>
   repr_c_offsets 0 frame_descriptor_fields = [0, 2, 4, 5, 6, 8, 16, 24, 28, 32, 34, 40, 48, 56]"
  by (simp add: size_of_FrameDescriptor_def repr_c_size_def frame_descriptor_fields_def round_up_def)

lemma size_of_FrameDescriptor_64 [simp]: "size_of_FrameDescriptor = 64"
  by (simp add: size_of_FrameDescriptor_def repr_c_size_def frame_descriptor_fields_def round_up_def)

end
