(* ===== verification/Shared_Memory.thy ===== *)
theory Shared_Memory
  imports Wireless_Types
begin

text \<open>
  The shared mapping under the media ring of \<open>src/wireless/data_plane.rs\<close>: a byte memory with a
  length, bounds-checked loads and stores, the \<open>repr(C, align(64))\<close> ring header at byte 0, the frame
  descriptor codec used by \<open>ptr::write\<close> and \<open>ptr::read\<close>, and the header validation.

  A raw access outside of the mapping has no value here: it is the error \<open>UndefinedBehaviour\<close>. The
  memory-safety lemmas of the ring show when it cannot occur. Stores into the padding bytes of the
  descriptor are not performed, so padding keeps whatever it held.
\<close>

unbundle bit_operations_syntax

section \<open>Bytes\<close>

record shm =
  cells :: "nat \<Rightarrow> u8"
  map_len :: nat

definition in_bounds :: "shm \<Rightarrow> nat \<Rightarrow> nat \<Rightarrow> bool" where
  "in_bounds m off n = (off + n \<le> map_len m)"

definition peek :: "shm \<Rightarrow> nat \<Rightarrow> nat \<Rightarrow> u8 list" where
  "peek m off n = map (cells m) [off..<off + n]"

definition poke :: "shm \<Rightarrow> nat \<Rightarrow> u8 list \<Rightarrow> shm" where
  "poke m off bs =
     m\<lparr>cells := \<lambda>a. if off \<le> a \<and> a < off + length bs then bs ! (a - off) else cells m a\<rparr>"

lemma map_len_poke [simp]: "map_len (poke m off bs) = map_len m"
  by (simp add: poke_def)

lemma in_bounds_poke [simp]: "in_bounds (poke m off' bs) off n = in_bounds m off n"
  by (simp add: in_bounds_def)

lemma length_peek [simp]: "length (peek m off n) = n"
  by (simp add: peek_def)

lemma peek_poke_other:
  "off' + n \<le> off \<or> off + length bs \<le> off' \<Longrightarrow> peek (poke m off bs) off' n = peek m off' n"
  by (auto simp: peek_def poke_def)

lemma peek_poke_inside:
  "off \<le> off' \<Longrightarrow> off' + n \<le> off + length bs \<Longrightarrow>
     peek (poke m off bs) off' n = take n (drop (off' - off) bs)"
  by (rule nth_equalityI) (auto simp: peek_def poke_def add.commute)

lemma peek_poke_same [simp]: "n = length bs \<Longrightarrow> peek (poke m off bs) off n = bs"
  by (simp add: peek_poke_inside)

lemma take_peek: "k \<le> n \<Longrightarrow> take k (peek m off n) = peek m off k"
  by (rule nth_equalityI) (auto simp: peek_def)

lemma peek_sub: "k + n \<le> N \<Longrightarrow> peek m (off + k) n = take n (drop k (peek m off N))"
  by (rule nth_equalityI) (auto simp: peek_def ac_simps)

section \<open>The ring header\<close>

definition RING_MAGIC :: u32 where
  "RING_MAGIC = from_le_bytes [0x44, 0x52, 0x4E, 0x47]"

definition CACHE_LINE :: nat where
  "CACHE_LINE = 64"

record RingHeader =
  magic :: u32
  abi_version :: u16
  header_bytes :: u16
  slot_count :: u32
  slot_stride :: u32
  payload_capacity :: u32
  head :: u64
  tail :: u64
  dropped :: u64

definition ring_header_fields :: "(nat \<times> nat) list" where
  "ring_header_fields =
     [(4, 4), (2, 2), (2, 2), (4, 4), (4, 4), (4, 4), (44, 1), (8, 8), (56, 1), (8, 8), (56, 1),
      (8, 8), (56, 1)]"

definition size_of_RingHeader :: nat where
  "size_of_RingHeader = repr_c_size 64 ring_header_fields"

lemma ring_header_layout:
  "repr_c_offsets 0 ring_header_fields = [0, 4, 6, 8, 12, 16, 20, 64, 72, 128, 136, 192, 200]"
  by (simp add: ring_header_fields_def round_up_def)

lemma size_of_RingHeader_256 [simp]: "size_of_RingHeader = 256"
  by (simp add: size_of_RingHeader_def repr_c_size_def ring_header_fields_def round_up_def)

definition decode_header :: "shm \<Rightarrow> RingHeader" where
  "decode_header m =
     \<lparr>magic = from_le_bytes (peek m 0 4),
      abi_version = from_le_bytes (peek m 4 2),
      header_bytes = from_le_bytes (peek m 6 2),
      slot_count = from_le_bytes (peek m 8 4),
      slot_stride = from_le_bytes (peek m 12 4),
      payload_capacity = from_le_bytes (peek m 16 4),
      head = from_le_bytes (peek m 64 8),
      tail = from_le_bytes (peek m 128 8),
      dropped = from_le_bytes (peek m 192 8)\<rparr>"

definition encode_header :: "RingHeader \<Rightarrow> u8 list" where
  "encode_header h =
     to_le_bytes (magic h) @ to_le_bytes (abi_version h) @ to_le_bytes (header_bytes h) @
     to_le_bytes (slot_count h) @ to_le_bytes (slot_stride h) @ to_le_bytes (payload_capacity h) @
     replicate 44 0 @ to_le_bytes (head h) @ replicate 56 0 @ to_le_bytes (tail h) @
     replicate 56 0 @ to_le_bytes (dropped h) @ replicate 56 0"

datatype os_call =
  MemfdCreate | Ftruncate | AddSeals | DupMemory | EventfdCreate | DupEvent |
  MmapProducer | MmapConsumer | AsyncFdNew | Fstat

datatype ring_error =
    RingNeedsTwoSlots
  | RingCapacityZero
  | SlotSizeOverflow
  | RingSizeOverflow
  | SlotStrideExceedsAbi
  | MmapMisaligned
  | OsError os_call nat
  | InvalidMagic
  | RingAbiMismatch
  | RingHeaderSizeMismatch
  | InvalidSlotCount
  | InvalidAlignment
  | MappingLengthMismatch
  | ReservationAlreadyCommitted
  | PayloadExceedsSlot
  | PayloadLengthExceedsAbi
  | SignalFailed nat
  | WaitFailed nat
  | FrameAbiMismatch
  | FrameDescriptorSizeMismatch
  | CorruptPayloadLength
  | NegativeMemfdSize
  | RemainderByZero
  | UndefinedBehaviour

text \<open>\<open>Mapping::header\<close>: the reference to the header at byte 0.\<close>

definition header :: "shm \<Rightarrow> ring_error + RingHeader" where
  "header m = (if in_bounds m 0 size_of_RingHeader then Inr (decode_header m)
               else Inl UndefinedBehaviour)"

text \<open>\<open>Mapping::slot\<close>: the byte offset of the slot of a cursor.\<close>

definition slot :: "RingHeader \<Rightarrow> u64 \<Rightarrow> ring_error + nat" where
  "slot h index =
     (if slot_count h = 0 then Inl RemainderByZero
      else Inr (size_of_RingHeader + unat index mod unat (slot_count h) * unat (slot_stride h)))"

definition store_head :: "shm \<Rightarrow> u64 \<Rightarrow> shm" where
  "store_head m v = poke m 64 (to_le_bytes v)"

definition store_tail :: "shm \<Rightarrow> u64 \<Rightarrow> shm" where
  "store_tail m v = poke m 128 (to_le_bytes v)"

definition store_dropped :: "shm \<Rightarrow> u64 \<Rightarrow> shm" where
  "store_dropped m v = poke m 192 (to_le_bytes v)"

definition write_header :: "shm \<Rightarrow> RingHeader \<Rightarrow> ring_error + shm" where
  "write_header m h = (if in_bounds m 0 size_of_RingHeader then Inr (poke m 0 (encode_header h))
                       else Inl UndefinedBehaviour)"

definition validate_header :: "RingHeader \<Rightarrow> nat \<Rightarrow> ring_error + unit" where
  "validate_header h len =
     ensure (magic h = RING_MAGIC) InvalidMagic (
     ensure (abi_version h = WIRELESS_AUDIO_ABI_VERSION) RingAbiMismatch (
     ensure (unat (header_bytes h) = size_of_RingHeader) RingHeaderSizeMismatch (
     ensure (slot_count h \<ge> 2) InvalidSlotCount (
     ensure (unat (slot_stride h) mod CACHE_LINE = 0) InvalidAlignment (
     ensure ((of_nat size_of_RingHeader :: usize) + ucast (slot_stride h) * ucast (slot_count h)
              = of_nat len) MappingLengthMismatch (
     Inr ()))))))"

section \<open>The frame descriptor in memory\<close>

definition write_descriptor :: "shm \<Rightarrow> nat \<Rightarrow> FrameDescriptor \<Rightarrow> ring_error + shm" where
  "write_descriptor m off d =
     (if in_bounds m off size_of_FrameDescriptor
      then Inr (poke (poke (poke m
        off (to_le_bytes (fd_abi_version d) @ to_le_bytes (fd_header_bytes d) @
             to_le_bytes (fd_payload_kind d) @ to_le_bytes (fd_iso_status d) @
             to_le_bytes (fd_flags d) @ to_le_bytes (fd_payload_bytes d)))
        (off + 16) (to_le_bytes (fd_sequence d) @ to_le_bytes (fd_stream_handle d) @
             to_le_bytes (fd_sample_rate_hz d) @ to_le_bytes (fd_channels d) @
             to_le_bytes (fd_bits_per_sample d)))
        (off + 40) (to_le_bytes (fd_capture_time_ns d) @ to_le_bytes (fd_presentation_time_ns d) @
             to_le_bytes (fd_deadline_ns d)))
      else Inl UndefinedBehaviour)"

definition decode_descriptor :: "shm \<Rightarrow> nat \<Rightarrow> FrameDescriptor" where
  "decode_descriptor m off =
     \<lparr>fd_abi_version = from_le_bytes (peek m off 2),
      fd_header_bytes = from_le_bytes (peek m (off + 2) 2),
      fd_payload_kind = from_le_bytes (peek m (off + 4) 1),
      fd_iso_status = from_le_bytes (peek m (off + 5) 1),
      fd_flags = from_le_bytes (peek m (off + 6) 2),
      fd_payload_bytes = from_le_bytes (peek m (off + 8) 4),
      fd_sequence = from_le_bytes (peek m (off + 16) 8),
      fd_stream_handle = from_le_bytes (peek m (off + 24) 4),
      fd_sample_rate_hz = from_le_bytes (peek m (off + 28) 4),
      fd_channels = from_le_bytes (peek m (off + 32) 2),
      fd_bits_per_sample = from_le_bytes (peek m (off + 34) 2),
      fd_capture_time_ns = from_le_bytes (peek m (off + 40) 8),
      fd_presentation_time_ns = from_le_bytes (peek m (off + 48) 8),
      fd_deadline_ns = from_le_bytes (peek m (off + 56) 8)\<rparr>"

definition read_descriptor :: "shm \<Rightarrow> nat \<Rightarrow> ring_error + FrameDescriptor" where
  "read_descriptor m off =
     (if in_bounds m off size_of_FrameDescriptor then Inr (decode_descriptor m off)
      else Inl UndefinedBehaviour)"

definition align_up :: "usize \<Rightarrow> usize \<Rightarrow> usize" where
  "align_up value alignment = (value + alignment - 1) AND NOT (alignment - 1)"

section \<open>Codec lemmas\<close>

lemma encode_header_length [simp]: "length (encode_header h) = 256"
  by (simp add: encode_header_def)

lemma decode_encode_header: "decode_header (poke m 0 (encode_header h)) = h"
  by (simp add: decode_header_def peek_poke_inside encode_header_def)

lemma header_poke_outside:
  "256 \<le> off \<Longrightarrow> decode_header (poke m off bs) = decode_header m"
  by (simp add: decode_header_def peek_poke_other)

lemma decode_header_store [simp]:
  "decode_header (store_head m v) = (decode_header m)\<lparr>head := v\<rparr>"
  "decode_header (store_tail m v) = (decode_header m)\<lparr>tail := v\<rparr>"
  "decode_header (store_dropped m v) = (decode_header m)\<lparr>dropped := v\<rparr>"
  by (simp_all add: decode_header_def store_head_def store_tail_def store_dropped_def
      peek_poke_other)

lemma map_len_store [simp]:
  "map_len (store_head m v) = map_len m" "map_len (store_tail m v) = map_len m"
  "map_len (store_dropped m v) = map_len m"
  by (simp_all add: store_head_def store_tail_def store_dropped_def)

lemma peek_store [simp]:
  "256 \<le> off \<Longrightarrow> peek (store_head m v) off n = peek m off n"
  "256 \<le> off \<Longrightarrow> peek (store_tail m v) off n = peek m off n"
  "256 \<le> off \<Longrightarrow> peek (store_dropped m v) off n = peek m off n"
  by (simp_all add: store_head_def store_tail_def store_dropped_def peek_poke_other)

lemma decode_descriptor_cong:
  assumes "peek m' off 64 = peek m off 64"
  shows "decode_descriptor m' off = decode_descriptor m off"
proof -
  have "peek m'' off 2 = take 2 (peek m'' off 64)"
    and "peek m'' (off + 2) 2 = take 2 (drop 2 (peek m'' off 64))" for m''
    by (simp add: take_peek) (rule peek_sub, simp)
  then show ?thesis
    using assms by (simp add: decode_descriptor_def peek_sub [where N = 64])
qed

lemma decode_write_descriptor:
  "write_descriptor m off d = Inr m' \<Longrightarrow> decode_descriptor m' off = d"
  by (auto simp: write_descriptor_def decode_descriptor_def peek_poke_other peek_poke_inside
      split: if_splits)

end
