(* ===== verification/Bounded_Fifo.thy ===== *)
theory Bounded_Fifo
  imports Main
begin

text \<open>
  The contract of a bounded first-in first-out edge between a producer and a consumer: what a push
  and a pop do to the queue that a state represents. The lemmas of the locale are what a client of
  such an edge relies on, whatever the representation is.
\<close>

datatype 'i fifo_op = Push 'i | Pop

text \<open>
  Running a sequence of operations collects the inputs that were accepted and the elements that were
  delivered, both in order, and the final state.
\<close>

fun fifo_run ::
  "('i \<Rightarrow> 's \<Rightarrow> bool \<times> 's) \<Rightarrow> ('s \<Rightarrow> 'a option \<times> 's) \<Rightarrow> 'i fifo_op list \<Rightarrow> 's
    \<Rightarrow> 'i list \<times> 'a list \<times> 's"
where
  "fifo_run push pop [] s = ([], [], s)"
| "fifo_run push pop (Push x # ops) s =
     (case push x s of (accepted, s') \<Rightarrow>
      case fifo_run push pop ops s' of (ins, outs, s'') \<Rightarrow>
        (if accepted then x # ins else ins, outs, s''))"
| "fifo_run push pop (Pop # ops) s =
     (case pop s of (r, s') \<Rightarrow>
      case fifo_run push pop ops s' of (ins, outs, s'') \<Rightarrow>
        (ins, (case r of None \<Rightarrow> outs | Some a \<Rightarrow> a # outs), s''))"

locale bounded_fifo =
  fixes repr :: "'s \<Rightarrow> 'a list \<Rightarrow> bool"
    and room :: nat
    and fits :: "'i \<Rightarrow> bool"
    and enter :: "'i \<Rightarrow> 'a"
    and push :: "'i \<Rightarrow> 's \<Rightarrow> bool \<times> 's"
    and pop :: "'s \<Rightarrow> 'a option \<times> 's"
  assumes push_accepts:
      "repr s q \<Longrightarrow> length q < room \<Longrightarrow> fits x \<Longrightarrow>
        \<exists>s'. push x s = (True, s') \<and> repr s' (q @ [enter x])"
    and push_refuses: "repr s q \<Longrightarrow> length q = room \<Longrightarrow> \<exists>s'. push x s = (False, s') \<and> repr s' q"
    and pop_nothing: "repr s [] \<Longrightarrow> \<exists>s'. pop s = (None, s') \<and> repr s' []"
    and pop_first: "repr s (a # q) \<Longrightarrow> \<exists>s'. pop s = (Some a, s') \<and> repr s' q"
    and bounded: "repr s q \<Longrightarrow> length q \<le> room"
begin

lemma push_cases:
  assumes "repr s q" and "fits x"
  obtains s' where "push x s = (True, s')" and "repr s' (q @ [enter x])" and "length q < room"
  | s' where "push x s = (False, s')" and "repr s' q" and "length q = room"
  using assms push_accepts push_refuses bounded by (metis le_neq_implies_less)

lemma pop_cases:
  assumes "repr s q"
  obtains s' where "q = []" and "pop s = (None, s')" and "repr s' []"
  | a q' s' where "q = a # q'" and "pop s = (Some a, s')" and "repr s' q'"
  using assms pop_nothing pop_first by (metis neq_Nil_conv)

text \<open>
  Nothing is lost, duplicated or reordered: what was delivered followed by what is still queued is
  what was queued at the start followed by what was accepted.
\<close>

lemma run_fifo:
  assumes "repr s q" and "\<forall>x. Push x \<in> set ops \<longrightarrow> fits x"
    and "fifo_run push pop ops s = (ins, outs, s')"
  shows "\<exists>q'. repr s' q' \<and> outs @ q' = q @ map enter ins \<and> length q' \<le> room"
  using assms
proof (induction ops arbitrary: s q ins outs)
  case Nil
  then show ?case using bounded by auto
next
  case (Cons op ops)
  show ?case
  proof (cases op)
    case (Push x)
    with Cons.prems have "fits x" by simp
    from Cons.prems(1) this show ?thesis
    proof (cases rule: push_cases)
      case (1 s1)
      obtain ins1 where run: "fifo_run push pop ops s1 = (ins1, outs, s')" and "ins = x # ins1"
        using Cons.prems(3) Push 1(1) by (auto split: prod.splits)
      then show ?thesis
        using Cons.IH [OF 1(2) _ run] Cons.prems(2) by auto
    next
      case (2 s1)
      have run: "fifo_run push pop ops s1 = (ins, outs, s')"
        using Cons.prems(3) Push 2(1) by (auto split: prod.splits)
      then show ?thesis
        using Cons.IH [OF 2(2) _ run] Cons.prems(2) by auto
    qed
  next
    case Pop
    from Cons.prems(1) show ?thesis
    proof (cases rule: pop_cases)
      case (1 s1)
      have run: "fifo_run push pop ops s1 = (ins, outs, s')"
        using Cons.prems(3) Pop 1(2) by (auto split: prod.splits)
      then show ?thesis
        using Cons.IH [OF 1(3) _ run] Cons.prems(2) 1(1) by auto
    next
      case (2 a q' s1)
      obtain outs1 where run: "fifo_run push pop ops s1 = (ins, outs1, s')" and "outs = a # outs1"
        using Cons.prems(3) Pop 2(2) by (auto split: prod.splits)
      then show ?thesis
        using Cons.IH [OF 2(3) _ run] Cons.prems(2) 2(1) by auto
    qed
  qed
qed

text \<open>From an empty edge, the deliveries are a prefix of the accepted inputs.\<close>

lemma run_from_empty:
  assumes "repr s []" and "\<forall>x. Push x \<in> set ops \<longrightarrow> fits x"
    and "fifo_run push pop ops s = (ins, outs, s')"
  shows "outs = take (length outs) (map enter ins)" and "length ins \<le> length outs + room"
proof -
  obtain q' where "outs @ q' = map enter ins" and "length q' \<le> room"
    using run_fifo [OF assms] by auto
  then show "outs = take (length outs) (map enter ins)" and "length ins \<le> length outs + room"
    by (metis append_eq_conv_conj) (metis \<open>outs @ q' = map enter ins\<close> \<open>length q' \<le> room\<close>
        add_le_cancel_left length_append length_map)
qed

end

end
