(* ===== verification/Media_Ring.thy ===== *)
theory Media_Ring
  imports Shared_Memory Bounded_Fifo
begin

text \<open>
  The operations of the single-producer single-consumer media ring of
  \<open>src/wireless/data_plane.rs\<close>: \<open>RingPair::create\<close>, attaching to a transferred descriptor,
  \<open>try_reserve\<close>, \<open>commit\<close>, \<open>try_push_copy\<close>, \<open>try_acquire\<close> and the two leases.

  The two endpoints share one memory, so an operation takes and returns the memory. System calls are
  an argument: \<open>os c = None\<close> when call \<open>c\<close> succeeds and \<open>Some errno\<close> when it fails. The write
  to the eventfd is the argument of type \<open>write_outcome\<close>. A fresh memfd is zero-filled.

  The lemmas relate the memory to an abstract bounded queue of frames. The ring is indexed by cursors
  of 64 bits reduced modulo the slot count; the relation carries the condition under which the
  wrap-around of the cursors is harmless (\<open>cursor_fits\<close>): the slot count divides \<open>2 ^ 64\<close>, or fewer
  than \<open>2 ^ 64\<close> frames have been published.
\<close>

section \<open>Operations\<close>

type_synonym os = "os_call \<Rightarrow> nat option"

definition os_run :: "os \<Rightarrow> os_call \<Rightarrow> ring_error + 'a \<Rightarrow> ring_error + 'a" where
  "os_run os c k = (case os c of None \<Rightarrow> k | Some errno \<Rightarrow> Inl (OsError c errno))"

definition zero_memory :: "nat \<Rightarrow> shm" where
  "zero_memory len = \<lparr>cells = (\<lambda>_. 0), map_len = len\<rparr>"

definition create_memfd :: "os \<Rightarrow> nat \<Rightarrow> ring_error + shm" where
  "create_memfd os len =
     os_run os MemfdCreate (os_run os Ftruncate (os_run os AddSeals (Inr (zero_memory len))))"

definition initial_header :: "u32 \<Rightarrow> usize \<Rightarrow> u32 \<Rightarrow> RingHeader" where
  "initial_header count stride cap =
     \<lparr>magic = RING_MAGIC, abi_version = WIRELESS_AUDIO_ABI_VERSION,
      header_bytes = of_nat size_of_RingHeader, slot_count = count, slot_stride = ucast stride,
      payload_capacity = cap, head = 0, tail = 0, dropped = 0\<rparr>"

definition ring_create :: "os \<Rightarrow> nat \<Rightarrow> u32 \<Rightarrow> u32 \<Rightarrow> ring_error + shm" where
  "ring_create os address count cap =
     ensure (count \<ge> 2) RingNeedsTwoSlots (
     ensure (cap > 0) RingCapacityZero (
     and_then (ok_or (checked_add (of_nat size_of_FrameDescriptor :: usize) (ucast cap))
                SlotSizeOverflow) (\<lambda>slot_bytes.
     let stride = align_up slot_bytes (of_nat CACHE_LINE) in
     and_then (ok_or (checked_mul stride (ucast count)) RingSizeOverflow) (\<lambda>slots.
     and_then (ok_or (checked_add (of_nat size_of_RingHeader) slots) RingSizeOverflow) (\<lambda>len.
     ensure (stride \<le> 0xffffffff) SlotStrideExceedsAbi (
     and_then (create_memfd os (unat len)) (\<lambda>m0.
     os_run os DupMemory (os_run os EventfdCreate (os_run os DupEvent (os_run os MmapProducer (
     ensure (address mod 64 = 0) MmapMisaligned (
     and_then (write_header m0 (initial_header count stride cap)) (\<lambda>m.
     os_run os MmapConsumer (
     and_then (header m) (\<lambda>h.
     and_then (validate_header h (unat len)) (\<lambda>_.
     os_run os AsyncFdNew (Inr m)))))))))))))))))"

text \<open>\<open>Producer::from_descriptor\<close> and \<open>Consumer::from_descriptor\<close> map and validate a received memory.\<close>

definition producer_from_descriptor :: "os \<Rightarrow> shm \<Rightarrow> ring_error + shm" where
  "producer_from_descriptor os m =
     os_run os Fstat (os_run os MmapProducer (
     and_then (header m) (\<lambda>h.
     and_then (validate_header h (map_len m)) (\<lambda>_. Inr m))))"

definition consumer_from_descriptor :: "os \<Rightarrow> shm \<Rightarrow> ring_error + shm" where
  "consumer_from_descriptor os m =
     os_run os Fstat (os_run os MmapConsumer (
     and_then (header m) (\<lambda>h.
     and_then (validate_header h (map_len m)) (\<lambda>_. os_run os AsyncFdNew (Inr m)))))"

record ProducerLease =
  pl_slot :: nat
  pl_head :: u64
  pl_committed :: bool

definition try_reserve :: "shm \<Rightarrow> ring_error + ProducerLease option \<times> shm" where
  "try_reserve m =
     and_then (header m) (\<lambda>h.
     if head h - tail h \<ge> ucast (slot_count h)
     then Inr (None, store_dropped m (dropped h + 1))
     else and_then (slot h (head h)) (\<lambda>s.
       Inr (Some \<lparr>pl_slot = s, pl_head = head h, pl_committed = False\<rparr>, m)))"

definition capacity :: "shm \<Rightarrow> ring_error + nat" where
  "capacity m = and_then (header m) (\<lambda>h. Inr (unat (payload_capacity h)))"

text \<open>\<open>payload_mut\<close>: start and length of the writable slice, which must lie inside the mapping.\<close>

definition payload_mut :: "shm \<Rightarrow> ProducerLease \<Rightarrow> ring_error + nat \<times> nat" where
  "payload_mut m l =
     and_then (capacity m) (\<lambda>c.
     if in_bounds m (pl_slot l + size_of_FrameDescriptor) c
     then Inr (pl_slot l + size_of_FrameDescriptor, c)
     else Inl UndefinedBehaviour)"

definition fill_payload :: "shm \<Rightarrow> ProducerLease \<Rightarrow> u8 list \<Rightarrow> ring_error + shm" where
  "fill_payload m l bs =
     and_then (payload_mut m l) (\<lambda>(start, c).
     ensure (length bs \<le> c) PayloadExceedsSlot (
     Inr (poke m start bs)))"

datatype write_outcome = WroteAll | WouldBlock | WriteError nat

definition signal_eventfd :: "write_outcome \<Rightarrow> ring_error + unit" where
  "signal_eventfd w =
     (case w of WroteAll \<Rightarrow> Inr () | WouldBlock \<Rightarrow> Inr () | WriteError e \<Rightarrow> Inl (SignalFailed e))"

definition stamp :: "FrameDescriptor \<Rightarrow> nat \<Rightarrow> FrameDescriptor" where
  "stamp d n =
     d\<lparr>fd_abi_version := WIRELESS_AUDIO_ABI_VERSION,
       fd_header_bytes := of_nat size_of_FrameDescriptor,
       fd_payload_bytes := of_nat n\<rparr>"

definition commit ::
  "write_outcome \<Rightarrow> shm \<Rightarrow> ProducerLease \<Rightarrow> FrameDescriptor \<Rightarrow> nat \<Rightarrow> (ring_error + unit) \<times> shm"
where
  "commit w m l d n =
     (if pl_committed l then (Inl ReservationAlreadyCommitted, m)
      else case capacity m of
        Inl e \<Rightarrow> (Inl e, m)
      | Inr c \<Rightarrow>
          if \<not> n \<le> c then (Inl PayloadExceedsSlot, m)
          else if \<not> n \<le> 0xffffffff then (Inl PayloadLengthExceedsAbi, m)
          else case write_descriptor m (pl_slot l) (stamp d n) of
            Inl e \<Rightarrow> (Inl e, m)
          | Inr m' \<Rightarrow> (signal_eventfd w, store_head m' (pl_head l + 1)))"

definition try_push_copy ::
  "write_outcome \<Rightarrow> FrameDescriptor \<Rightarrow> u8 list \<Rightarrow> shm \<Rightarrow> (ring_error + bool) \<times> shm"
where
  "try_push_copy w d payload m =
     (case try_reserve m of
        Inl e \<Rightarrow> (Inl e, m)
      | Inr (None, m1) \<Rightarrow> (Inr False, m1)
      | Inr (Some l, m1) \<Rightarrow>
          (case and_then (capacity m1) (\<lambda>c.
                  ensure (length payload \<le> c) PayloadExceedsSlot (fill_payload m1 l payload)) of
             Inl e \<Rightarrow> (Inl e, m1)
           | Inr m2 \<Rightarrow>
               (case commit w m2 l d (length payload) of
                  (Inl e, m3) \<Rightarrow> (Inl e, m3)
                | (Inr _, m3) \<Rightarrow> (Inr True, m3))))"

definition dropped_frames :: "shm \<Rightarrow> ring_error + u64" where
  "dropped_frames m = and_then (header m) (\<lambda>h. Inr (dropped h))"

record FrameLease =
  fl_descriptor :: FrameDescriptor
  fl_payload :: nat
  fl_tail :: u64

definition try_acquire :: "shm \<Rightarrow> ring_error + FrameLease option" where
  "try_acquire m =
     and_then (header m) (\<lambda>h.
     if tail h = head h then Inr None
     else and_then (slot h (tail h)) (\<lambda>s.
       and_then (read_descriptor m s) (\<lambda>d.
       ensure (fd_abi_version d = WIRELESS_AUDIO_ABI_VERSION) FrameAbiMismatch (
       ensure (unat (fd_header_bytes d) = size_of_FrameDescriptor) FrameDescriptorSizeMismatch (
       ensure (fd_payload_bytes d \<le> payload_capacity h) CorruptPayloadLength (
       Inr (Some \<lparr>fl_descriptor = d, fl_payload = s + size_of_FrameDescriptor,
                  fl_tail = tail h\<rparr>)))))))"

text \<open>\<open>FrameLease::payload\<close>: the bytes seen through the lease.\<close>

definition lease_payload :: "shm \<Rightarrow> FrameLease \<Rightarrow> ring_error + u8 list" where
  "lease_payload m l =
     (let n = unat (fd_payload_bytes (fl_descriptor l)) in
      if in_bounds m (fl_payload l) n then Inr (peek m (fl_payload l) n)
      else Inl UndefinedBehaviour)"

text \<open>Dropping a \<open>FrameLease\<close> returns its slot.\<close>

definition drop_lease :: "shm \<Rightarrow> FrameLease \<Rightarrow> shm" where
  "drop_lease m l = store_tail m (fl_tail l + 1)"

text \<open>
  \<open>Consumer::wait_readable\<close> on the outcomes of its iterations: whether waiting for readiness failed,
  and what the read of the counter gave. It is still waiting when the outcomes end.
\<close>

datatype read_outcome = ReadCount | ReadWouldBlock | ReadError nat

fun wait_readable :: "(nat option \<times> read_outcome) list \<Rightarrow> (ring_error + unit) option" where
  "wait_readable [] = None"
| "wait_readable ((Some e, _) # rest) = Some (Inl (WaitFailed e))"
| "wait_readable ((None, ReadCount) # rest) = Some (Inr ())"
| "wait_readable ((None, ReadWouldBlock) # rest) = wait_readable rest"
| "wait_readable ((None, ReadError e) # rest) = Some (Inl (WaitFailed e))"

definition queued_frames :: "shm \<Rightarrow> ring_error + u64" where
  "queued_frames m = and_then (header m) (\<lambda>h. Inr (head h - tail h))"

section \<open>Ring shape\<close>

lemma and_not_63: "(x :: usize) AND NOT 63 = push_bit 6 (drop_bit 6 x)"
proof -
  have "(63 :: usize) = mask 6" by (simp add: mask_eq_exp_minus_1)
  then show ?thesis
    by (auto simp: bit_eq_iff bit_simps)
qed

lemma and_neg_64: "(x :: usize) AND - 64 = push_bit 6 (drop_bit 6 x)"
  using and_not_63 [of x] by simp

lemma unat_align_up_64:
  assumes "unat v + 63 < 2 ^ 64"
  shows "unat (align_up v 64) = round_up (unat v) 64"
proof -
  have a: "align_up v 64 = push_bit 6 (drop_bit 6 (v + 63))"
    by (simp add: align_up_def and_neg_64 add.commute)
  have "unat (v + 63) = unat v + 63"
    using assms by (subst unat_add_no_wrap) simp_all
  then have d: "unat (drop_bit 6 (v + 63)) = (unat v + 63) div 64"
    by (simp add: drop_bit_eq_div unat_div)
  have "push_bit 6 (drop_bit 6 (v + 63)) = drop_bit 6 (v + 63) * 64"
    by (simp add: push_bit_eq_mult)
  moreover have "(unat v + 63) div 64 * 64 < 2 ^ 64"
    using assms by simp
  ultimately show ?thesis
    using a d by (simp add: unat_mult_no_wrap round_up_def)
qed

lemma unat_u32_le: "unat (x :: u32) \<le> 4294967295"
  using unat_u32_less [of x] by linarith

definition cap_fits :: "RingHeader \<Rightarrow> bool" where
  "cap_fits h \<longleftrightarrow> size_of_FrameDescriptor + unat (payload_capacity h) \<le> unat (slot_stride h)"

definition ring_shape :: "RingHeader \<Rightarrow> nat \<Rightarrow> bool" where
  "ring_shape h len \<longleftrightarrow>
     magic h = RING_MAGIC \<and> abi_version h = WIRELESS_AUDIO_ABI_VERSION \<and>
     unat (header_bytes h) = size_of_RingHeader \<and> 2 \<le> unat (slot_count h) \<and>
     CACHE_LINE dvd unat (slot_stride h) \<and>
     len = size_of_RingHeader + unat (slot_stride h) * unat (slot_count h)"

lemma validate_header_iff:
  assumes "len < 2 ^ 64"
  shows "validate_header h len = Inr () \<longleftrightarrow> ring_shape h len"
proof -
  have "unat (slot_stride h) * unat (slot_count h) \<le> (2 ^ 32 - 1) * (2 ^ 32 - 1)"
    by (intro mult_mono) (simp_all add: unat_u32_le)
  then have "unat ((256 :: usize) + ucast (slot_stride h) * ucast (slot_count h)) =
      256 + unat (slot_stride h) * unat (slot_count h)"
    by (subst unat_add_no_wrap; (subst unat_mult_no_wrap)?) simp_all
  then have "(256 :: usize) + ucast (slot_stride h) * ucast (slot_count h) = of_nat len \<longleftrightarrow>
      len = 256 + unat (slot_stride h) * unat (slot_count h)"
    using assms by (auto simp: word_unat_eq_iff unat_of_nat)
  then show ?thesis
    by (auto simp: validate_header_def ring_shape_def result_simps word_le_nat_alt CACHE_LINE_def
        mod_eq_0_iff_dvd)
qed


type_synonym frame = "FrameDescriptor \<times> u8 list"

definition slot_off :: "RingHeader \<Rightarrow> nat \<Rightarrow> nat" where
  "slot_off h i = size_of_RingHeader + i mod unat (slot_count h) * unat (slot_stride h)"

definition frame_at :: "shm \<Rightarrow> nat \<Rightarrow> frame" where
  "frame_at m off =
     (decode_descriptor m off,
      peek m (off + size_of_FrameDescriptor) (unat (fd_payload_bytes (decode_descriptor m off))))"

definition frame_ok :: "nat \<Rightarrow> frame \<Rightarrow> bool" where
  "frame_ok c f \<longleftrightarrow>
     fd_abi_version (fst f) = WIRELESS_AUDIO_ABI_VERSION \<and>
     unat (fd_header_bytes (fst f)) = size_of_FrameDescriptor \<and>
     unat (fd_payload_bytes (fst f)) = length (snd f) \<and> length (snd f) \<le> c"

definition cursor_fits :: "RingHeader \<Rightarrow> nat \<Rightarrow> bool" where
  "cursor_fits h k \<longleftrightarrow> unat (slot_count h) dvd 2 ^ 64 \<or> k < 2 ^ 64"

definition ring_rel :: "shm \<Rightarrow> nat \<Rightarrow> frame list \<Rightarrow> bool" where
  "ring_rel m t q \<longleftrightarrow>
     (let h = decode_header m in
      ring_shape h (map_len m) \<and> cap_fits h \<and>
      tail h = of_nat t \<and> head h = of_nat (t + length q) \<and>
      length q \<le> unat (slot_count h) \<and> cursor_fits h (t + length q) \<and>
      (\<forall>i < length q. frame_at m (slot_off h (t + i)) = q ! i \<and>
         frame_ok (unat (payload_capacity h)) (q ! i)))"

lemma slot_bytes_exact:
  "checked_add (64 :: usize) (ucast (c :: u32)) = Some (64 + ucast c)"
  "unat ((64 :: usize) + ucast (c :: u32)) = 64 + unat c"
proof -
  have "64 + unat c < 2 ^ 64" using unat_u32_le [of c] by simp
  then show "checked_add (64 :: usize) (ucast (c :: u32)) = Some (64 + ucast c)"
    and "unat ((64 :: usize) + ucast c) = 64 + unat c"
    by (simp_all add: checked_add_def unat_add_no_wrap)
qed

lemma unat_stride:
  "unat (align_up (64 + ucast (c :: u32)) 64) = round_up (64 + unat c) 64"
  using unat_u32_le [of c] by (subst unat_align_up_64) (simp_all add: slot_bytes_exact)

lemma round_up_64: "v \<le> round_up v 64" "round_up v 64 < v + 64" "64 dvd round_up v 64"
proof -
  have "(v + 63) mod 64 + 64 * ((v + 63) div 64) = v + 63"
    by simp
  moreover have "(v + 63) mod 64 < 64" by simp
  ultimately show "v \<le> round_up v 64" "round_up v 64 < v + 64"
    unfolding round_up_def by linarith+
qed (simp add: round_up_def)

lemma round_up_fits:
  "round_up (64 + unat (c :: u32)) 64 \<le> 4294967295 \<longleftrightarrow> unat c \<le> 4294967168"
proof -
  obtain k where k: "round_up (64 + unat c) 64 = 64 * k"
    using round_up_64(3) by (rule dvdE)
  then show ?thesis
    using round_up_64(1,2) [of "64 + unat c"] by presburger
qed

lemma ring_sizes_exact:
  fixes c n :: u32
  defines "stride \<equiv> align_up (64 + ucast c) (64 :: usize)"
  assumes c: "unat c \<le> 4294967168"
  shows "checked_mul stride (ucast n) = Some (stride * ucast n)"
    and "checked_add (256 :: usize) (stride * ucast n) = Some (256 + stride * ucast n)"
    and "unat ((256 :: usize) + stride * ucast n) = 256 + round_up (64 + unat c) 64 * unat n"
proof -
  have s: "unat stride = round_up (64 + unat c) 64"
    unfolding stride_def by (rule unat_stride)
  have "unat stride \<le> 4294967232"
    using c round_up_64(2) [of "64 + unat c"] round_up_64(3) [of "64 + unat c"] round_up_fits [of c]
    unfolding s by presburger
  then have "unat stride * unat n \<le> 4294967232 * 4294967295"
    by (intro mult_mono) (simp_all add: unat_u32_le)
  then have small: "256 + unat stride * unat n < 2 ^ 64"
    by simp
  then have p: "unat (stride * ucast n) = unat stride * unat n"
    by (subst unat_mult_no_wrap) simp_all
  show "checked_mul stride (ucast n) = Some (stride * ucast n)"
    using small by (simp add: checked_mul_def)
  show "checked_add (256 :: usize) (stride * ucast n) = Some (256 + stride * ucast n)"
    using small by (simp add: checked_add_def p)
  show "unat ((256 :: usize) + stride * ucast n) = 256 + round_up (64 + unat c) 64 * unat n"
    using small by (subst unat_add_no_wrap) (simp_all add: p s)
qed

lemma os_run_Inr_iff [result_simps]: "os_run os c k = Inr x \<longleftrightarrow> os c = None \<and> k = Inr x"
  by (cases "os c") (simp_all add: os_run_def)

lemma os_run_None [simp]: "os c = None \<Longrightarrow> os_run os c k = k"
  by (simp add: os_run_def)

definition fresh_ring :: "u32 \<Rightarrow> u32 \<Rightarrow> shm" where
  "fresh_ring n c =
     poke (zero_memory (256 + round_up (64 + unat c) 64 * unat n)) 0
       (encode_header (initial_header n (align_up (64 + ucast c) 64) c))"

lemma decode_fresh_ring:
  "decode_header (fresh_ring n c) = initial_header n (align_up (64 + ucast c) 64) c"
  by (simp add: fresh_ring_def decode_encode_header)

lemma map_len_fresh_ring: "map_len (fresh_ring n c) = 256 + round_up (64 + unat c) 64 * unat n"
  by (simp add: fresh_ring_def zero_memory_def)

lemma stride_le_iff:
  "align_up (64 + ucast (c :: u32)) 64 \<le> (0xffffffff :: usize) \<longleftrightarrow> unat c \<le> 4294967168"
  by (simp add: word_le_nat_alt unat_stride round_up_fits)

lemma fresh_ring_shape:
  assumes "2 \<le> n" and "unat c \<le> 4294967168"
  shows "ring_shape (decode_header (fresh_ring n c)) (map_len (fresh_ring n c))"
    and "cap_fits (decode_header (fresh_ring n c))"
    and "unat (slot_stride (decode_header (fresh_ring n c))) = round_up (64 + unat c) 64"
proof -
  have "round_up (64 + unat c) 64 < 2 ^ 32"
    using assms(2) round_up_fits [of c] by simp
  then have s: "unat (ucast (align_up (64 + ucast c) (64 :: usize)) :: u32) = round_up (64 + unat c) 64"
    by (simp add: unsigned_ucast_eq unat_stride take_bit_nat_eq_self)
  then show "unat (slot_stride (decode_header (fresh_ring n c))) = round_up (64 + unat c) 64"
    by (simp add: decode_fresh_ring initial_header_def)
  show "ring_shape (decode_header (fresh_ring n c)) (map_len (fresh_ring n c))"
    using assms(1) s round_up_64(3)
    by (simp add: ring_shape_def decode_fresh_ring map_len_fresh_ring initial_header_def
        CACHE_LINE_def word_le_nat_alt)
  show "cap_fits (decode_header (fresh_ring n c))"
    using s round_up_64(1) [of "64 + unat c"]
    by (simp add: cap_fits_def decode_fresh_ring initial_header_def)
qed


lemma fresh_ring_validates:
  assumes "2 \<le> n" and "unat c \<le> 4294967168"
  shows "validate_header (decode_header (fresh_ring n c)) (map_len (fresh_ring n c)) = Inr ()"
proof -
  have "map_len (fresh_ring n c) < 2 ^ 64"
    unfolding map_len_fresh_ring ring_sizes_exact(3) [OF assms(2), symmetric] by simp
  then show ?thesis
    using fresh_ring_shape(1) [OF assms] by (simp add: validate_header_iff)
qed

lemma ring_create_Inr_iff:
  "ring_create os a n c = Inr m \<longleftrightarrow>
     2 \<le> n \<and> 0 < c \<and> unat c \<le> 4294967168 \<and> (\<forall>k. k \<noteq> Fstat \<longrightarrow> os k = None) \<and> a mod 64 = 0 \<and>
     m = fresh_ring n c"
proof (cases "2 \<le> n \<and> unat c \<le> 4294967168")
  case False
  then show ?thesis
    by (auto simp: ring_create_def result_simps Let_def slot_bytes_exact CACHE_LINE_def stride_le_iff)
next
  case True
  note sizes = ring_sizes_exact [OF conjunct2 [OF True]]
  let ?m = "fresh_ring n c"
  have w: "write_header (zero_memory (256 + round_up (64 + unat c) 64 * unat n))
      (initial_header n (align_up (64 + ucast c) 64) c) = Inr ?m"
    by (simp add: write_header_def in_bounds_def zero_memory_def fresh_ring_def)
  have "header ?m = Inr (decode_header ?m)"
    by (simp add: header_def in_bounds_def map_len_fresh_ring)
  moreover have "validate_header (decode_header ?m) (256 + round_up (64 + unat c) 64 * unat n) = Inr ()"
    using fresh_ring_validates [of n c] True by (simp add: map_len_fresh_ring)
  moreover have "(\<forall>k. k \<noteq> Fstat \<longrightarrow> os k = None) \<longleftrightarrow>
      os MemfdCreate = None \<and> os Ftruncate = None \<and> os AddSeals = None \<and> os DupMemory = None \<and>
      os EventfdCreate = None \<and> os DupEvent = None \<and> os MmapProducer = None \<and>
      os MmapConsumer = None \<and> os AsyncFdNew = None"
    by (metis os_call.exhaust os_call.distinct)
  ultimately show ?thesis
    using True w
    by (auto simp: ring_create_def create_memfd_def result_simps Let_def slot_bytes_exact
        CACHE_LINE_def stride_le_iff sizes)
qed

section \<open>Slots\<close>

lemma slot_of_nat:
  assumes "cursor_fits h k" and "i \<le> k" and "2 \<le> unat (slot_count h)"
  shows "slot h (of_nat i) = Inr (slot_off h i)"
proof -
  have u: "unat (of_nat i :: u64) = i mod 2 ^ 64"
    by (simp add: unat_of_nat)
  have "unat (of_nat i :: u64) mod unat (slot_count h) = i mod unat (slot_count h)"
  proof (cases "unat (slot_count h) dvd 2 ^ 64")
    case True
    then show ?thesis unfolding u by (rule mod_mod_cancel)
  next
    case False
    with assms(1,2) show ?thesis unfolding u by (simp add: cursor_fits_def)
  qed
  moreover have "slot_count h \<noteq> 0" using assms(3) by auto
  ultimately show ?thesis by (simp add: slot_def slot_off_def)
qed

lemma slot_off_ge: "256 \<le> slot_off h i"
  by (simp add: slot_off_def)

lemma slot_off_in_bounds:
  assumes "ring_shape h len"
  shows "slot_off h i + unat (slot_stride h) \<le> len"
proof -
  have "i mod unat (slot_count h) < unat (slot_count h)"
    using assms by (intro mod_less_divisor) (simp add: ring_shape_def)
  then have "Suc (i mod unat (slot_count h)) * unat (slot_stride h)
      \<le> unat (slot_count h) * unat (slot_stride h)"
    by (intro mult_le_mono1) simp
  then show ?thesis
    using assms by (simp add: slot_off_def ring_shape_def mult.commute)
qed

lemma slot_frame_in_bounds:
  assumes "ring_shape h len" and "cap_fits h"
  shows "slot_off h i + 64 + unat (payload_capacity h) \<le> len"
  using slot_off_in_bounds [OF assms(1), of i] assms(2) by (simp add: cap_fits_def)

lemma slot_off_disjoint:
  assumes "i mod unat (slot_count h) \<noteq> j mod unat (slot_count h)" and "cap_fits h"
  shows "slot_off h i + 64 + unat (payload_capacity h) \<le> slot_off h j \<or>
         slot_off h j + 64 + unat (payload_capacity h) \<le> slot_off h i"
proof -
  have *: "a * s + s \<le> b * s" if "a < b" for a b s :: nat
    using that by (metis Suc_leI mult_Suc mult_le_mono1 add.commute)
  show ?thesis
  proof (cases "i mod unat (slot_count h) < j mod unat (slot_count h)")
    case True
    then show ?thesis
      using * [OF True, of "unat (slot_stride h)"] assms(2) by (simp add: slot_off_def cap_fits_def)
  next
    case False
    then have "j mod unat (slot_count h) < i mod unat (slot_count h)"
      using assms(1) by simp
    then show ?thesis
      using * [of "j mod unat (slot_count h)" "i mod unat (slot_count h)" "unat (slot_stride h)"]
        assms(2) by (simp add: slot_off_def cap_fits_def)
  qed
qed

section \<open>Frames in slots\<close>

lemma frame_at_cong:
  assumes "peek m' off 64 = peek m off 64" and "peek m' (off + 64) c = peek m (off + 64) c"
    and "unat (fd_payload_bytes (decode_descriptor m off)) \<le> c"
  shows "frame_at m' off = frame_at m off"
proof -
  have d: "decode_descriptor m' off = decode_descriptor m off"
    using assms(1) by (rule decode_descriptor_cong)
  let ?n = "unat (fd_payload_bytes (decode_descriptor m off))"
  have "peek m' (off + 64) ?n = peek m (off + 64) ?n"
    using assms(2,3) by (metis take_peek)
  then show ?thesis by (simp add: frame_at_def d)
qed

lemma frame_at_ok_cong:
  assumes "peek m' off 64 = peek m off 64" and "peek m' (off + 64) c = peek m (off + 64) c"
    and "frame_ok c (frame_at m off)"
  shows "frame_at m' off = frame_at m off"
  using assms by (intro frame_at_cong [of m' off m c]) (simp_all add: frame_ok_def frame_at_def)

lemma write_descriptor_Inr:
  assumes "off + 64 \<le> map_len m"
  obtains m' where "write_descriptor m off d = Inr m'" and "map_len m' = map_len m"
    and "\<And>a n. a + n \<le> off \<or> off + 64 \<le> a \<Longrightarrow> peek m' a n = peek m a n"
    and "decode_descriptor m' off = d"
proof -
  obtain m' where m': "write_descriptor m off d = Inr m'"
    using assms by (simp add: write_descriptor_def in_bounds_def)
  show ?thesis
  proof (rule that [OF m'])
    show "map_len m' = map_len m"
      using m' by (auto simp: write_descriptor_def split: if_splits)
    show "peek m' a n = peek m a n" if "a + n \<le> off \<or> off + 64 \<le> a" for a n
      using m' that by (auto simp: write_descriptor_def peek_poke_other split: if_splits)
    show "decode_descriptor m' off = d"
      using m' by (rule decode_write_descriptor)
  qed
qed

section \<open>Occupancy\<close>

lemma ring_cursor_diff:
  assumes "ring_rel m t q"
  shows "unat (head (decode_header m) - tail (decode_header m)) = length q"
    and "length q \<le> unat (slot_count (decode_header m))"
proof -
  show le: "length q \<le> unat (slot_count (decode_header m))"
    using assms by (simp add: ring_rel_def Let_def)
  have "head (decode_header m) - tail (decode_header m) = (of_nat (length q) :: u64)"
    using assms by (simp add: ring_rel_def Let_def)
  moreover have "length q < 2 ^ 64"
    using le unat_u32_le [of "slot_count (decode_header m)"] by simp
  ultimately show "unat (head (decode_header m) - tail (decode_header m)) = length q"
    by (simp add: unat_of_nat)
qed

lemma ring_full_iff:
  assumes "ring_rel m t q"
  shows "head (decode_header m) - tail (decode_header m) \<ge> ucast (slot_count (decode_header m))
    \<longleftrightarrow> length q = unat (slot_count (decode_header m))"
  using ring_cursor_diff [OF assms] by (auto simp: word_le_nat_alt)

lemma ring_empty_iff:
  assumes "ring_rel m t q"
  shows "tail (decode_header m) = head (decode_header m) \<longleftrightarrow> q = []"
  using ring_cursor_diff(1) [OF assms] by (metis length_0_conv right_minus_eq unat_eq_0)

lemma ring_header:
  assumes "ring_rel m t q"
  shows "header m = Inr (decode_header m)"
  using assms by (simp add: ring_rel_def Let_def header_def in_bounds_def ring_shape_def)

lemma ring_capacity:
  assumes "ring_rel m t q"
  shows "capacity m = Inr (unat (payload_capacity (decode_header m)))"
  by (simp add: capacity_def ring_header [OF assms])


section \<open>Publishing a frame\<close>

lemma ring_relI:
  assumes "decode_header m = h" and "ring_shape h (map_len m)" and "cap_fits h"
    and "tail h = of_nat t" and "head h = of_nat (t + length q)"
    and "length q \<le> unat (slot_count h)" and "cursor_fits h (t + length q)"
    and "\<And>i. i < length q \<Longrightarrow> frame_at m (slot_off h (t + i)) = q ! i"
    and "\<And>i. i < length q \<Longrightarrow> frame_ok (unat (payload_capacity h)) (q ! i)"
  shows "ring_rel m t q"
  using assms by (simp add: ring_rel_def Let_def)

lemma ring_relD:
  assumes "ring_rel m t q"
  shows "ring_shape (decode_header m) (map_len m)" "cap_fits (decode_header m)"
    "tail (decode_header m) = of_nat t" "head (decode_header m) = of_nat (t + length q)"
    "cursor_fits (decode_header m) (t + length q)"
    "i < length q \<Longrightarrow> frame_at m (slot_off (decode_header m) (t + i)) = q ! i"
    "i < length q \<Longrightarrow> frame_ok (unat (payload_capacity (decode_header m))) (q ! i)"
    "2 \<le> unat (slot_count (decode_header m))"
  using assms by (simp_all add: ring_rel_def Let_def ring_shape_def)

text \<open>A memory that agrees outside of one slot that is not queued still holds the queued frames.\<close>

lemma queued_frames_kept:
  assumes rel: "ring_rel m t q" and "i < length q" and "length q < unat (slot_count (decode_header m))"
    and kept: "\<And>a n. a + n \<le> slot_off (decode_header m) (t + length q) \<or>
      slot_off (decode_header m) (t + length q) + 64 + unat (payload_capacity (decode_header m)) \<le> a
      \<Longrightarrow> 256 \<le> a \<Longrightarrow> peek m' a n = peek m a n"
  shows "frame_at m' (slot_off (decode_header m) (t + i)) = q ! i"
proof -
  let ?h = "decode_header m"
  have ne: "(t + i) mod unat (slot_count ?h) \<noteq> (t + length q) mod unat (slot_count ?h)"
    using assms(2,3) by (intro mod_window_neq [of t]) simp_all
  have d: "slot_off ?h (t + i) + 64 + unat (payload_capacity ?h) \<le> slot_off ?h (t + length q) \<or>
         slot_off ?h (t + length q) + 64 + unat (payload_capacity ?h) \<le> slot_off ?h (t + i)"
    using slot_off_disjoint [OF ne ring_relD(2) [OF rel]] .
  have "frame_at m' (slot_off ?h (t + i)) = frame_at m (slot_off ?h (t + i))"
  proof (rule frame_at_ok_cong)
    show "peek m' (slot_off ?h (t + i)) 64 = peek m (slot_off ?h (t + i)) 64"
      using d slot_off_ge [of ?h "t + i"] by (intro kept) auto
    show "peek m' (slot_off ?h (t + i) + 64) (unat (payload_capacity ?h)) =
        peek m (slot_off ?h (t + i) + 64) (unat (payload_capacity ?h))"
      using d slot_off_ge [of ?h "t + i"] by (intro kept) auto
    show "frame_ok (unat (payload_capacity ?h)) (frame_at m (slot_off ?h (t + i)))"
      using ring_relD(6,7) [OF rel assms(2)] by simp
  qed
  then show ?thesis using ring_relD(6) [OF rel assms(2)] by simp
qed

lemma try_reserve_room:
  assumes "ring_rel m t q" and "length q < unat (slot_count (decode_header m))"
  shows "try_reserve m = Inr (Some \<lparr>pl_slot = slot_off (decode_header m) (t + length q),
      pl_head = of_nat (t + length q), pl_committed = False\<rparr>, m)"
  using assms ring_full_iff [OF assms(1)] ring_relD(4,5,8) [OF assms(1)]
  by (simp add: try_reserve_def ring_header slot_of_nat del: of_nat_add)

lemma try_reserve_full:
  assumes "ring_rel m t q" and "length q = unat (slot_count (decode_header m))"
  shows "try_reserve m = Inr (None, store_dropped m (dropped (decode_header m) + 1))"
  using assms ring_full_iff [OF assms(1)] by (simp add: try_reserve_def ring_header)

lemma frame_ok_stamp:
  assumes "length p \<le> c" and "c < 4294967296"
  shows "frame_ok c (stamp d (length p), p)"
  using assms by (simp add: frame_ok_def stamp_def unat_of_nat)

text \<open>Writes inside the one free slot at the head keep the header and the queued frames.\<close>

lemma free_slot_write:
  assumes rel: "ring_rel m t q" and room: "length q < unat (slot_count (decode_header m))"
    and len: "map_len m' = map_len m"
    and kept: "\<And>a n. a + n \<le> slot_off (decode_header m) (t + length q) \<or>
      slot_off (decode_header m) (t + length q) + 64 + unat (payload_capacity (decode_header m)) \<le> a
      \<Longrightarrow> peek m' a n = peek m a n"
  shows "ring_rel m' t q" and "decode_header m' = decode_header m"
proof -
  let ?h = "decode_header m"
  show h: "decode_header m' = ?h"
    using slot_off_ge [of ?h "t + length q"] by (simp add: decode_header_def kept)
  have "frame_at m' (slot_off ?h (t + i)) = q ! i" if "i < length q" for i
    using rel that room kept by (rule queued_frames_kept)
  then show "ring_rel m' t q"
    using ring_relD [OF rel] room len by (intro ring_relI [OF h]) simp_all
qed

lemma publish_head:
  assumes rel: "ring_rel m t q" and room: "length q < unat (slot_count (decode_header m))"
    and fits: "cursor_fits (decode_header m) (t + length q + 1)"
    and f: "frame_at m (slot_off (decode_header m) (t + length q)) = f"
    and ok: "frame_ok (unat (payload_capacity (decode_header m))) f"
  shows "ring_rel (store_head m (of_nat (t + length q + 1))) t (q @ [f])"
proof -
  let ?h = "decode_header m" and ?m = "store_head m (of_nat (t + length q + 1))"
  have h: "decode_header ?m = ?h\<lparr>head := of_nat (t + length q + 1)\<rparr>"
    by simp
  have off: "slot_off (?h\<lparr>head := x\<rparr>) i = slot_off ?h i" for x i
    by (simp add: slot_off_def)
  have kept: "frame_at ?m (slot_off ?h i) = frame_at m (slot_off ?h i)" for i
    using slot_off_ge [of ?h i]
    by (intro frame_at_cong [where c = "unat (fd_payload_bytes (decode_descriptor m (slot_off ?h i)))"])
      simp_all
  have "frame_at ?m (slot_off ?h (t + i)) = (q @ [f]) ! i \<and>
      frame_ok (unat (payload_capacity ?h)) ((q @ [f]) ! i)"
    if "i < length q + 1" for i
    using that ring_relD(6,7) [OF rel] f ok unfolding kept
    by (cases "i = length q") (auto simp: nth_append)
  then show ?thesis
    using room fits ring_relD(1-3) [OF rel]
    by (intro ring_relI [OF h]) (simp_all add: off ring_shape_def cap_fits_def cursor_fits_def)
qed

lemma write_free_descriptor:
  assumes rel: "ring_rel m t q" and room: "length q < unat (slot_count (decode_header m))"
    and p: "length p \<le> unat (payload_capacity (decode_header m))"
    and filled: "peek m (slot_off (decode_header m) (t + length q) + 64) (length p) = p"
  obtains m' where
    "write_descriptor m (slot_off (decode_header m) (t + length q)) (stamp d (length p)) = Inr m'"
    and "ring_rel m' t q" and "decode_header m' = decode_header m" and "map_len m' = map_len m"
    and "frame_at m' (slot_off (decode_header m) (t + length q)) = (stamp d (length p), p)"
proof -
  let ?h = "decode_header m" and ?s = "slot_off (decode_header m) (t + length q)"
  have "?s + 64 + unat (payload_capacity ?h) \<le> map_len m"
    using ring_relD(1,2) [OF rel] by (rule slot_frame_in_bounds)
  then have "?s + 64 \<le> map_len m" by simp
  then obtain m' where m': "write_descriptor m ?s (stamp d (length p)) = Inr m'"
    and len: "map_len m' = map_len m"
    and other: "\<And>a n. a + n \<le> ?s \<or> ?s + 64 \<le> a \<Longrightarrow> peek m' a n = peek m a n"
    and dec: "decode_descriptor m' ?s = stamp d (length p)"
    by (rule write_descriptor_Inr [where d = "stamp d (length p)"]) blast
  have "ring_rel m' t q" "decode_header m' = ?h"
    using other by (auto intro: free_slot_write [OF rel room len])
  moreover have "unat (of_nat (length p) :: u32) = length p"
    using p unat_u32_le [of "payload_capacity ?h"] by (simp add: unat_of_nat)
  then have "frame_at m' ?s = (stamp d (length p), p)"
    using filled by (simp add: frame_at_def dec stamp_def other)
  ultimately show ?thesis using m' len by (intro that)
qed

lemma commit_publishes:
  assumes rel: "ring_rel m t q" and room: "length q < unat (slot_count (decode_header m))"
    and fits: "cursor_fits (decode_header m) (t + length q + 1)"
    and p: "length p \<le> unat (payload_capacity (decode_header m))"
    and l: "l = \<lparr>pl_slot = slot_off (decode_header m) (t + length q),
      pl_head = of_nat (t + length q), pl_committed = False\<rparr>"
    and filled: "peek m (pl_slot l + 64) (length p) = p"
  obtains m' where "commit w m l d (length p) = (signal_eventfd w, m')"
    and "ring_rel m' t (q @ [(stamp d (length p), p)])"
    and "decode_header m' = (decode_header m)\<lparr>head := of_nat (t + length q + 1)\<rparr>"
proof -
  let ?h = "decode_header m"
  obtain m1 where m1: "write_descriptor m (slot_off ?h (t + length q)) (stamp d (length p)) = Inr m1"
    and rel1: "ring_rel m1 t q" and h1: "decode_header m1 = ?h"
    and f1: "frame_at m1 (slot_off ?h (t + length q)) = (stamp d (length p), p)"
    by (rule write_free_descriptor [OF rel room p, where d = d]) (use filled l in auto)
  have le: "length p \<le> 4294967295" using p unat_u32_le [of "payload_capacity ?h"] by simp
  have "commit w m l d (length p) =
      (signal_eventfd w, store_head m1 (of_nat (t + length q + 1)))"
    using p le by (simp add: commit_def l ring_capacity [OF rel] m1 add.commute)
  moreover have "frame_ok (unat (payload_capacity ?h)) (stamp d (length p), p)"
    using p by (rule frame_ok_stamp) simp
  then have "ring_rel (store_head m1 (of_nat (t + length q + 1))) t (q @ [(stamp d (length p), p)])"
    using room fits f1 by (intro publish_head [OF rel1]) (simp_all add: h1)
  ultimately show ?thesis
    using h1 by (intro that [of "store_head m1 (of_nat (t + length q + 1))"]) simp_all
qed

lemma fill_payload_room:
  assumes rel: "ring_rel m t q" and room: "length q < unat (slot_count (decode_header m))"
    and p: "length p \<le> unat (payload_capacity (decode_header m))"
    and l: "pl_slot l = slot_off (decode_header m) (t + length q)"
  shows "fill_payload m l p = Inr (poke m (pl_slot l + 64) p)"
    and "ring_rel (poke m (pl_slot l + 64) p) t q"
    and "decode_header (poke m (pl_slot l + 64) p) = decode_header m"
proof -
  let ?h = "decode_header m"
  have "slot_off ?h (t + length q) + 64 + unat (payload_capacity ?h) \<le> map_len m"
    using ring_relD(1,2) [OF rel] by (rule slot_frame_in_bounds)
  then show "fill_payload m l p = Inr (poke m (pl_slot l + 64) p)"
    using p by (simp add: fill_payload_def payload_mut_def ring_capacity [OF rel] in_bounds_def l)
  show "ring_rel (poke m (pl_slot l + 64) p) t q"
    and "decode_header (poke m (pl_slot l + 64) p) = decode_header m"
    by (rule free_slot_write [OF rel room]; use p l in \<open>auto intro!: peek_poke_other\<close>)+
qed

lemma reserve_fill_commit:
  assumes rel: "ring_rel m t q" and room: "length q < unat (slot_count (decode_header m))"
    and fits: "cursor_fits (decode_header m) (t + length q + 1)"
    and p: "length p \<le> unat (payload_capacity (decode_header m))"
  obtains l m1 m' where "try_reserve m = Inr (Some l, m)" and "fill_payload m l p = Inr m1"
    and "commit w m1 l d (length p) = (signal_eventfd w, m')"
    and "ring_rel m' t (q @ [(stamp d (length p), p)])"
    and "decode_header m' = (decode_header m)\<lparr>head := of_nat (t + length q + 1)\<rparr>"
proof -
  let ?h = "decode_header m"
  define l where "l = \<lparr>pl_slot = slot_off ?h (t + length q), pl_head = (of_nat (t + length q) :: u64),
    pl_committed = False\<rparr>"
  let ?m = "poke m (pl_slot l + 64) p"
  note fill = fill_payload_room [OF rel room p, of l]
  have r: "try_reserve m = Inr (Some l, m)"
    using try_reserve_room [OF rel room] by (simp add: l_def)
  have rel': "ring_rel ?m t q" and h': "decode_header ?m = ?h" and f: "fill_payload m l p = Inr ?m"
    using fill by (simp_all add: l_def)
  obtain m' where "commit w ?m l d (length p) = (signal_eventfd w, m')"
    "ring_rel m' t (q @ [(stamp d (length p), p)])"
    "decode_header m' = ?h\<lparr>head := of_nat (t + length q + 1)\<rparr>"
    by (rule commit_publishes [OF rel', of p l w d]) (use room fits p h' in \<open>simp_all add: l_def\<close>)
  with r f show ?thesis by (rule that)
qed

lemma push_room:
  assumes rel: "ring_rel m t q" and room: "length q < unat (slot_count (decode_header m))"
    and fits: "cursor_fits (decode_header m) (t + length q + 1)"
    and p: "length p \<le> unat (payload_capacity (decode_header m))"
  obtains m' where
    "try_push_copy w d p m = (and_then (signal_eventfd w) (\<lambda>_. Inr True), m')"
    and "ring_rel m' t (q @ [(stamp d (length p), p)])"
    and "decode_header m' = (decode_header m)\<lparr>head := of_nat (t + length q + 1)\<rparr>"
proof -
  obtain l m1 m' where r: "try_reserve m = Inr (Some l, m)" and f: "fill_payload m l p = Inr m1"
    and m': "commit w m1 l d (length p) = (signal_eventfd w, m')"
      "ring_rel m' t (q @ [(stamp d (length p), p)])"
      "decode_header m' = (decode_header m)\<lparr>head := of_nat (t + length q + 1)\<rparr>"
    by (rule reserve_fill_commit [OF assms])
  have "try_push_copy w d p m = (and_then (signal_eventfd w) (\<lambda>_. Inr True), m')"
    using p m'(1) by (cases "signal_eventfd w")
      (simp_all add: try_push_copy_def r ring_capacity [OF rel] f)
  then show ?thesis using m'(2,3) by (rule that)
qed

lemma push_full:
  assumes rel: "ring_rel m t q" and full: "length q = unat (slot_count (decode_header m))"
  shows "try_push_copy w d p m = (Inr False, store_dropped m (dropped (decode_header m) + 1))"
    and "ring_rel (store_dropped m (dropped (decode_header m) + 1)) t q"
proof -
  let ?h = "decode_header m" and ?m = "store_dropped m (dropped (decode_header m) + 1)"
  show "try_push_copy w d p m = (Inr False, ?m)"
    by (simp add: try_push_copy_def try_reserve_full [OF rel full])
  have h: "decode_header ?m = ?h\<lparr>dropped := dropped ?h + 1\<rparr>" by simp
  have off: "slot_off (?h\<lparr>dropped := x\<rparr>) i = slot_off ?h i" for x i
    by (simp add: slot_off_def)
  have "frame_at ?m (slot_off ?h i) = frame_at m (slot_off ?h i)" for i
    using slot_off_ge [of ?h i]
    by (intro frame_at_cong [where c = "unat (fd_payload_bytes (decode_descriptor m (slot_off ?h i)))"])
      simp_all
  then show "ring_rel ?m t q"
    using ring_relD [OF rel] full
    by (intro ring_relI [OF h]) (simp_all add: off ring_shape_def cap_fits_def cursor_fits_def)
qed

lemma push_too_large:
  assumes rel: "ring_rel m t q" and room: "length q < unat (slot_count (decode_header m))"
    and p: "unat (payload_capacity (decode_header m)) < length p"
  shows "try_push_copy w d p m = (Inl PayloadExceedsSlot, m)"
  using p by (simp add: try_push_copy_def try_reserve_room [OF rel room] ring_capacity [OF rel])

section \<open>Taking a frame\<close>

lemma acquire_empty:
  assumes "ring_rel m t []"
  shows "try_acquire m = Inr None"
  using ring_empty_iff [OF assms] by (simp add: try_acquire_def ring_header [OF assms])

lemma acquire_first:
  assumes rel: "ring_rel m t (f # q)"
  defines "l \<equiv> \<lparr>fl_descriptor = fst f, fl_payload = slot_off (decode_header m) t + 64,
    fl_tail = of_nat t\<rparr>"
  shows "try_acquire m = Inr (Some l)" and "lease_payload m l = Inr (snd f)"
    and "ring_rel (drop_lease m l) (t + 1) q"
    and "decode_header (drop_lease m l) = (decode_header m)\<lparr>tail := of_nat (t + 1)\<rparr>"
proof -
  let ?h = "decode_header m" and ?s = "slot_off (decode_header m) t"
  have fa: "frame_at m ?s = f" and ok: "frame_ok (unat (payload_capacity ?h)) f"
    using ring_relD(6,7) [OF rel, of 0] by simp_all
  have inb: "?s + 64 + unat (payload_capacity ?h) \<le> map_len m"
    using ring_relD(1,2) [OF rel] by (rule slot_frame_in_bounds)
  have d: "decode_descriptor m ?s = fst f"
    and p: "peek m (?s + 64) (unat (fd_payload_bytes (fst f))) = snd f"
    using fa by (auto simp: frame_at_def)
  have n: "unat (fd_payload_bytes (fst f)) \<le> unat (payload_capacity ?h)"
    using ok by (simp add: frame_ok_def)
  have "slot ?h (of_nat t) = Inr ?s"
    by (rule slot_of_nat [OF ring_relD(5) [OF rel] _ ring_relD(8) [OF rel]]) (rule le_add1)
  then show "try_acquire m = Inr (Some l)"
    using ring_empty_iff [OF rel] ring_relD(3) [OF rel] ok inb n
    by (simp add: try_acquire_def ring_header [OF rel] read_descriptor_def in_bounds_def d l_def
        frame_ok_def word_le_nat_alt)
  show "lease_payload m l = Inr (snd f)"
    using inb n p by (simp add: lease_payload_def l_def Let_def in_bounds_def)
  let ?m = "drop_lease m l"
  show h: "decode_header ?m = ?h\<lparr>tail := of_nat (t + 1)\<rparr>"
    by (simp add: drop_lease_def l_def add.commute)
  have off: "slot_off (?h\<lparr>tail := x\<rparr>) i = slot_off ?h i" for x i
    by (simp add: slot_off_def)
  have "frame_at ?m (slot_off ?h i) = frame_at m (slot_off ?h i)" for i
    using slot_off_ge [of ?h i]
    by (intro frame_at_cong [where c = "unat (fd_payload_bytes (decode_descriptor m (slot_off ?h i)))"])
      (simp_all add: drop_lease_def)
  then show "ring_rel ?m (t + 1) q"
    using ring_relD(1-5) [OF rel] ring_relD(6,7) [OF rel, of "Suc i" for i] ring_cursor_diff(2) [OF rel]
    by (intro ring_relI [OF h])
      (simp_all add: off ring_shape_def cap_fits_def cursor_fits_def drop_lease_def ac_simps)
qed

section \<open>The ring as a bounded queue\<close>

lemma fresh_ring_empty:
  assumes "2 \<le> n" and "unat c \<le> 4294967168"
  shows "ring_rel (fresh_ring n c) 0 []"
  using fresh_ring_shape [OF assms]
  by (intro ring_relI [OF refl]) (simp_all add: decode_fresh_ring initial_header_def cursor_fits_def)

definition ring_push :: "FrameDescriptor \<times> u8 list \<Rightarrow> shm \<Rightarrow> bool \<times> shm" where
  "ring_push x m =
     (case try_push_copy WroteAll (fst x) (snd x) m of
        (Inr b, m') \<Rightarrow> (b, m') | (Inl _, m') \<Rightarrow> (False, m'))"

definition ring_pop :: "shm \<Rightarrow> frame option \<times> shm" where
  "ring_pop m =
     (case try_acquire m of
        Inr (Some l) \<Rightarrow>
          (case lease_payload m l of
             Inr p \<Rightarrow> (Some (fl_descriptor l, p), drop_lease m l) | Inl _ \<Rightarrow> (None, m))
      | _ \<Rightarrow> (None, m))"

definition ring_repr :: "u32 \<Rightarrow> u32 \<Rightarrow> shm \<Rightarrow> frame list \<Rightarrow> bool" where
  "ring_repr n c m q \<longleftrightarrow>
     (\<exists>t. ring_rel m t q) \<and> slot_count (decode_header m) = n \<and>
     payload_capacity (decode_header m) = c \<and> unat n dvd 2 ^ 64"

lemma ring_repr_fits: "ring_repr n c m q \<Longrightarrow> cursor_fits (decode_header m) k"
  by (auto simp: ring_repr_def cursor_fits_def)

interpretation ring: bounded_fifo "ring_repr n c" "unat n" "\<lambda>x. length (snd x) \<le> unat c"
  "\<lambda>(d, p). (stamp d (length p), p)" ring_push ring_pop
  for n c :: u32
proof
  fix m q and x :: "FrameDescriptor \<times> u8 list"
  obtain d p where x: "x = (d, p)" by (cases x)
  {
    assume r: "ring_repr n c m q" and room: "length q < unat n" and p: "length (snd x) \<le> unat c"
    from r obtain t where rel: "ring_rel m t q" by (auto simp: ring_repr_def)
    obtain m' where "try_push_copy WroteAll d p m = (Inr True, m')"
      "ring_rel m' t (q @ [(stamp d (length p), p)])"
      "decode_header m' = (decode_header m)\<lparr>head := of_nat (t + length q + 1)\<rparr>"
      by (rule push_room [OF rel, where w = WroteAll and d = d and p = p])
        (use r room p x in \<open>auto simp: ring_repr_def signal_eventfd_def cursor_fits_def\<close>)
    then show "\<exists>m'. ring_push x m = (True, m') \<and>
        ring_repr n c m' (q @ [case x of (d, p) \<Rightarrow> (stamp d (length p), p)])"
      using r by (auto simp: ring_push_def ring_repr_def x)
  next
    assume r: "ring_repr n c m q" and full: "length q = unat n"
    from r obtain t where rel: "ring_rel m t q" by (auto simp: ring_repr_def)
    show "\<exists>m'. ring_push x m = (False, m') \<and> ring_repr n c m' q"
      using push_full(1) [OF rel, where w = WroteAll and d = d and p = p] push_full(2) [OF rel] r full by (auto simp: ring_push_def ring_repr_def x)
  }
next
  fix m
  assume r: "ring_repr n c m []"
  then obtain t where "ring_rel m t []" by (auto simp: ring_repr_def)
  from acquire_empty [OF this] show "\<exists>m'. ring_pop m = (None, m') \<and> ring_repr n c m' []"
    using r by (simp add: ring_pop_def)
next
  fix m f q
  assume r: "ring_repr n c m (f # q)"
  then obtain t where rel: "ring_rel m t (f # q)" by (auto simp: ring_repr_def)
  show "\<exists>m'. ring_pop m = (Some f, m') \<and> ring_repr n c m' q"
    using acquire_first [OF rel] r by (auto simp: ring_pop_def ring_repr_def)
next
  fix m q
  assume "ring_repr n c m q"
  then show "length q \<le> unat n"
    using ring_cursor_diff(2) by (auto simp: ring_repr_def)
qed


section \<open>Properties of the media ring\<close>

text \<open>Creating a ring succeeds exactly for at least two slots, a positive payload capacity whose
  slot stride fits the 32-bit ABI field, an aligned mapping and successful system calls. The memory
  then represents the empty queue, with a cache-line aligned stride that holds a descriptor and a full
  payload, and handing the descriptors to another endpoint and attaching again succeeds.\<close>

lemma ring_create_correct:
  "(ring_create os a n c = Inr m \<longleftrightarrow>
     2 \<le> n \<and> 0 < c \<and> unat c \<le> 2 ^ 32 - 128 \<and> (\<forall>k. k \<noteq> Fstat \<longrightarrow> os k = None) \<and> a mod 64 = 0 \<and>
     m = fresh_ring n c) \<and>
   (ring_create os a n c = Inr m \<longrightarrow>
     ring_rel m 0 [] \<and> slot_count (decode_header m) = n \<and> payload_capacity (decode_header m) = c \<and>
     64 dvd unat (slot_stride (decode_header m)) \<and>
     size_of_FrameDescriptor + unat c \<le> unat (slot_stride (decode_header m)) \<and>
     (os Fstat = None \<longrightarrow>
       producer_from_descriptor os m = Inr m \<and> consumer_from_descriptor os m = Inr m))"
proof (intro conjI impI)
  show "ring_create os a n c = Inr m \<longleftrightarrow>
     2 \<le> n \<and> 0 < c \<and> unat c \<le> 2 ^ 32 - 128 \<and> (\<forall>k. k \<noteq> Fstat \<longrightarrow> os k = None) \<and> a mod 64 = 0 \<and>
     m = fresh_ring n c"
    by (simp add: ring_create_Inr_iff)
next
  assume "ring_create os a n c = Inr m"
  then have n: "2 \<le> n" and c: "unat c \<le> 4294967168" and os: "\<And>k. k \<noteq> Fstat \<Longrightarrow> os k = None"
    and m: "m = fresh_ring n c"
    by (simp_all add: ring_create_Inr_iff)
  show rel: "ring_rel m 0 []" unfolding m by (rule fresh_ring_empty [OF n c])
  show "slot_count (decode_header m) = n" "payload_capacity (decode_header m) = c"
    by (simp_all add: m decode_fresh_ring initial_header_def)
  show "64 dvd unat (slot_stride (decode_header m))"
    using fresh_ring_shape(1) [OF n c] by (simp add: m ring_shape_def CACHE_LINE_def)
  show "size_of_FrameDescriptor + unat c \<le> unat (slot_stride (decode_header m))"
    using fresh_ring_shape(2) [OF n c]
    by (simp add: m cap_fits_def decode_fresh_ring initial_header_def)
  assume "os Fstat = None"
  then show "producer_from_descriptor os m = Inr m" "consumer_from_descriptor os m = Inr m"
    using os fresh_ring_validates [OF n c] ring_header [OF rel]
    by (simp_all add: producer_from_descriptor_def consumer_from_descriptor_def m)
qed

text \<open>C10: A copying push refines an enqueue on the abstract queue. With room and a fitting payload, the
  stamped descriptor and the payload are appended and nothing else changes, and the call reports
  success unless the wake-up write fails; then it reports that error although the frame is published.
  A full ring refuses the frame, keeps the queue and counts one drop. An oversized payload is an error
  that leaves the memory as it was. No access leaves the mapping.\<close>

theorem push_refines_enqueue:
  assumes rel: "ring_rel m t q" and h: "h = decode_header m"
  shows "(length q < unat (slot_count h) \<and> length p \<le> unat (payload_capacity h) \<and>
       cursor_fits h (t + length q + 1) \<longrightarrow>
       (\<exists>m'. try_push_copy w d p m = (and_then (signal_eventfd w) (\<lambda>_. Inr True), m') \<and>
         ring_rel m' t (q @ [(stamp d (length p), p)]) \<and>
         decode_header m' = h\<lparr>head := head h + 1\<rparr>)) \<and>
     (length q = unat (slot_count h) \<longrightarrow>
       (\<exists>m'. try_push_copy w d p m = (Inr False, m') \<and> ring_rel m' t q \<and>
         decode_header m' = h\<lparr>dropped := dropped h + 1\<rparr>)) \<and>
     (length q < unat (slot_count h) \<and> unat (payload_capacity h) < length p \<longrightarrow>
       try_push_copy w d p m = (Inl PayloadExceedsSlot, m))"
proof (intro conjI impI)
  assume *: "length q < unat (slot_count h) \<and> length p \<le> unat (payload_capacity h) \<and>
       cursor_fits h (t + length q + 1)"
  obtain m' where "try_push_copy w d p m = (and_then (signal_eventfd w) (\<lambda>_. Inr True), m')"
    "ring_rel m' t (q @ [(stamp d (length p), p)])"
    "decode_header m' = h\<lparr>head := of_nat (t + length q + 1)\<rparr>"
    by (rule push_room [OF rel, where w = w and d = d and p = p]) (use * in \<open>auto simp: h\<close>)
  moreover have "(of_nat (t + length q + 1) :: u64) = head h + 1"
    using ring_relD(4) [OF rel] by (simp add: h)
  ultimately show "\<exists>m'. try_push_copy w d p m = (and_then (signal_eventfd w) (\<lambda>_. Inr True), m') \<and>
         ring_rel m' t (q @ [(stamp d (length p), p)]) \<and>
         decode_header m' = h\<lparr>head := head h + 1\<rparr>"
    by auto
next
  assume "length q = unat (slot_count h)"
  then show "\<exists>m'. try_push_copy w d p m = (Inr False, m') \<and> ring_rel m' t q \<and>
         decode_header m' = h\<lparr>dropped := dropped h + 1\<rparr>"
    using push_full [OF rel] by (auto simp: h)
next
  assume "length q < unat (slot_count h) \<and> unat (payload_capacity h) < length p"
  then show "try_push_copy w d p m = (Inl PayloadExceedsSlot, m)"
    by (simp add: push_too_large [OF rel] h)
qed

lemma fresh_2_64: "ring_rel (fresh_ring 2 64) 0 []"
  by (rule fresh_ring_empty) simp_all

lemma header_2_64:
  "slot_count (decode_header (fresh_ring 2 64)) = 2"
  "payload_capacity (decode_header (fresh_ring 2 64)) = 64"
  by (simp_all add: decode_fresh_ring initial_header_def)

theorem push_refines_enqueue_witness:
  "\<exists>m'. try_push_copy WroteAll (frame_descriptor_new Lc3Sdu 7) [1, 2] (fresh_ring 2 64) =
      (Inr True, m') \<and>
    ring_rel m' 0 [(stamp (frame_descriptor_new Lc3Sdu 7) (length [1 :: u8, 2]), [1, 2])]"
  using push_refines_enqueue [OF fresh_2_64 refl, of "[1, 2]" WroteAll "frame_descriptor_new Lc3Sdu 7"]
  by (auto simp: header_2_64 cursor_fits_def signal_eventfd_def)

text \<open>C11: Acquiring refines looking at the front of the abstract queue: an empty ring gives no lease;
  otherwise the lease shows exactly the descriptor and payload bytes of the oldest frame, and dropping
  the lease removes that frame and returns its slot, changing nothing but the tail cursor.\<close>

theorem acquire_refines_dequeue:
  assumes rel: "ring_rel m t q"
  shows "case q of
      [] \<Rightarrow> try_acquire m = Inr None
    | f # q' \<Rightarrow> \<exists>l. try_acquire m = Inr (Some l) \<and> fl_descriptor l = fst f \<and>
        lease_payload m l = Inr (snd f) \<and> ring_rel (drop_lease m l) (t + 1) q' \<and>
        decode_header (drop_lease m l) =
          (decode_header m)\<lparr>tail := tail (decode_header m) + 1\<rparr>"
proof (cases q)
  case Nil
  with rel acquire_empty show ?thesis by auto
next
  case (Cons f q')
  note first = acquire_first [OF rel [unfolded Cons]]
  show ?thesis
    using first ring_relD(3) [OF rel] unfolding Cons by (auto simp: add.commute)
qed

lemma pushed_2_64:
  "\<exists>m. ring_rel m 0 [(stamp (frame_descriptor_new Lc3Sdu 7) (length [1 :: u8, 2]), [1, 2])]"
  by (rule push_room [OF fresh_2_64, of "[1, 2]" WroteAll "frame_descriptor_new Lc3Sdu 7"])
    (auto simp: header_2_64 cursor_fits_def)

theorem acquire_refines_dequeue_witness:
  "try_acquire (fresh_ring 2 64) = Inr None \<and>
   (\<exists>m l. try_acquire m = Inr (Some l) \<and> fd_sequence (fl_descriptor l) = 7 \<and>
      lease_payload m l = Inr [1, 2] \<and> ring_rel (drop_lease m l) 1 [])"
proof -
  obtain m where m: "ring_rel m 0 [(stamp (frame_descriptor_new Lc3Sdu 7) (length [1 :: u8, 2]), [1, 2])]"
    using pushed_2_64 by blast
  then obtain l where "try_acquire m = Inr (Some l)" "fd_sequence (fl_descriptor l) = 7"
    "lease_payload m l = Inr [1, 2]" "ring_rel (drop_lease m l) 1 []"
    using acquire_refines_dequeue [OF m] by (auto simp: stamp_def frame_descriptor_new_def)
  then show ?thesis
    using acquire_refines_dequeue [OF fresh_2_64] by auto
qed

text \<open>C2: The ring delivers frames in order, without loss and without duplicates: for every sequence of
  pushes and pops on a new ring with a power-of-two slot count, the delivered frames followed by the
  queued ones are exactly the accepted frames in the order of acceptance, and never more frames are
  queued than there are slots, whatever the number of frames and so also across the wrap-around of the
  64-bit cursors.\<close>

theorem ring_fifo_history:
  assumes "2 \<le> n" and "unat n dvd 2 ^ 64" and "unat c \<le> 2 ^ 32 - 128"
    and "\<forall>x. Push x \<in> set ops \<longrightarrow> length (snd x) \<le> unat c"
    and "fifo_run ring_push ring_pop ops (fresh_ring n c) = (ins, outs, m)"
  shows "\<exists>t q. ring_rel m t q \<and> outs @ q = map (\<lambda>(d, p). (stamp d (length p), p)) ins \<and>
    length q \<le> unat n"
proof -
  have "ring_repr n c (fresh_ring n c) []"
    using fresh_ring_empty [of n c] assms(1-3)
    by (auto simp: ring_repr_def decode_fresh_ring initial_header_def)
  from ring.run_fifo [OF this assms(4,5)] show ?thesis
    by (auto simp: ring_repr_def)
qed

theorem ring_fifo_history_witness:
  "\<exists>ins outs m t q.
     fifo_run ring_push ring_pop [Push (frame_descriptor_new PcmPayload 1, [1, 2, 3, 4]), Pop]
       (fresh_ring 2 64) = (ins, outs, m) \<and>
     ring_rel m t q \<and> outs @ q = map (\<lambda>(d, p). (stamp d (length p), p)) ins"
proof -
  let ?ops = "[Push (frame_descriptor_new PcmPayload 1, [1, 2, 3, 4 :: u8]), Pop]"
  obtain ins outs m where run: "fifo_run ring_push ring_pop ?ops (fresh_ring 2 64) = (ins, outs, m)"
    by (cases "fifo_run ring_push ring_pop ?ops (fresh_ring 2 64)") auto
  have "unat (2 :: u32) dvd 2 ^ 64" by simp
  from ring_fifo_history [OF _ this _ _ run] run show ?thesis by fastforce
qed

section \<open>Limits of the header checks and of the cursor arithmetic\<close>

definition oversized_capacity_ring :: shm where
  "oversized_capacity_ring =
     poke (zero_memory 384) 0 (encode_header
       \<lparr>magic = RING_MAGIC, abi_version = WIRELESS_AUDIO_ABI_VERSION, header_bytes = 256,
        slot_count = 2, slot_stride = 64, payload_capacity = 4096, head = 0, tail = 0, dropped = 0\<rparr>)"



text \<open>A slot count that divides \<open>2 ^ 64\<close> excludes this.\<close>

lemma cursor_wrap_distinct:
  assumes "2 \<le> unat (slot_count h)" and "unat (slot_count h) dvd 2 ^ 64" and "0 < slot_stride h"
  shows "slot h (x :: u64) \<noteq> slot h (x + 1)"
proof -
  let ?n = "unat (slot_count h)"
  have "unat (x + 1) mod ?n = (unat x + 1) mod ?n"
    using assms(2) by (simp add: unat_word_ariths mod_mod_cancel)
  moreover have "(unat x + 1) mod ?n \<noteq> unat x mod ?n"
    using assms(1) by (simp add: mod_Suc)
  moreover have "0 < unat (slot_stride h)" using assms(3) by (simp add: word_less_nat_alt)
  moreover have "slot_count h \<noteq> 0" using assms(1) by auto
  ultimately show ?thesis by (simp add: slot_def)
qed

end
