(* ===== verification/Transition_System.thy ===== *)
theory Transition_System
  imports Main
begin

text \<open>
  The contracts that the concurrent components are proved against. A component is a step relation with
  an initial state; \<open>inductive_invariant\<close> is a property that holds initially and that every step keeps,
  and \<open>draining_system\<close> adds a subset of internal steps that are enabled while work is pending and that
  use up a measure, so that every run of internal steps is finite and can only stop with no work pending.
\<close>

locale inductive_invariant =
  fixes init :: 's and step :: "'s \<Rightarrow> 's \<Rightarrow> bool" and inv :: "'s \<Rightarrow> bool"
  assumes init_inv: "inv init"
    and step_inv: "inv s \<Longrightarrow> step s s' \<Longrightarrow> inv s'"
begin

lemma run_inv: "rtranclp step s s' \<Longrightarrow> inv s \<Longrightarrow> inv s'"
  by (induction rule: rtranclp_induct) (auto intro: step_inv)

lemma reachable_inv: "rtranclp step init s \<Longrightarrow> inv s"
  by (rule run_inv [OF _ init_inv])

end

locale draining_system = inductive_invariant init step inv
  for init :: 's and step :: "'s \<Rightarrow> 's \<Rightarrow> bool" and inv :: "'s \<Rightarrow> bool" +
  fixes internal :: "'s \<Rightarrow> 's \<Rightarrow> bool" and pending :: "'s \<Rightarrow> bool" and work :: "'s \<Rightarrow> nat"
  assumes internal_step: "internal s s' \<Longrightarrow> step s s'"
    and internal_enabled: "inv s \<Longrightarrow> pending s \<Longrightarrow> \<exists>s'. internal s s'"
    and internal_works: "inv s \<Longrightarrow> internal s s' \<Longrightarrow> work s' < work s"
begin

lemma internal_run_inv: "rtranclp internal s s' \<Longrightarrow> inv s \<Longrightarrow> inv s'"
  by (induction rule: rtranclp_induct) (auto intro: step_inv internal_step)

lemma internal_bounded: "(internal ^^ n) s s' \<Longrightarrow> inv s \<Longrightarrow> n + work s' \<le> work s"
proof (induction n arbitrary: s')
  case (Suc n)
  then obtain t where t: "(internal ^^ n) s t" "internal t s'" by auto
  have "inv t" using t(1) Suc.prems(2) by (meson internal_run_inv relpowp_imp_rtranclp)
  then show ?case using Suc.IH [OF t(1) Suc.prems(2)] internal_works [OF _ t(2)] by simp
qed simp

lemma drains: "inv s \<Longrightarrow> \<exists>s'. rtranclp internal s s' \<and> \<not> pending s'"
proof (induction "work s" arbitrary: s rule: less_induct)
  case less
  show ?case
  proof (cases "pending s")
    case True
    then obtain t where t: "internal s t" using internal_enabled less.prems by blast
    with less.prems have "inv t" "work t < work s" by (auto intro: step_inv internal_step internal_works)
    then show ?thesis using less.hyps t by (meson converse_rtranclp_into_rtranclp)
  qed blast
qed

lemma reachable_drains: "rtranclp step init s \<Longrightarrow> \<exists>s'. rtranclp internal s s' \<and> \<not> pending s'"
  by (rule drains [OF reachable_inv])

lemma reachable_bounded: "rtranclp step init s \<Longrightarrow> (internal ^^ n) s s' \<Longrightarrow> n \<le> work s"
  using internal_bounded [of n s s'] reachable_inv by fastforce

end

end
