(* ===== verification/Ring_Concurrency.thy ===== *)
theory Ring_Concurrency
  imports Media_Ring Transition_System
begin

text \<open>
  The media ring under concurrency: a producer and a consumer of \<open>src/wireless/data_plane.rs\<close> run
  over the same memory, and their individual loads, slot accesses and cursor stores interleave freely.
  The atomics of the source are release stores matched by acquire loads of single-writer cursors, so an
  interleaving of the individual accesses is the behaviour the source relies on. The eventfd is the
  counter of \<open>eventfd(2)\<close>: a signal adds one unless the counter is saturated, a read resets it.

  The state keeps two ghost fields, the frames published so far and the number of leases returned. The
  invariant is the queue relation of \<open>Media_Ring\<close> on the frames published and not yet returned,
  together with what each side knows between its accesses.
\<close>

section \<open>Program points and steps\<close>

datatype producer_pc =
    PIdle
  | PLoaded u64
  | PReserved ProducerLease
  | PDescribed ProducerLease frame
  | PPublished
  | PFault

datatype consumer_pc =
    CIdle
  | CLoaded u64
  | CNonempty u64
  | CHolding FrameLease
  | CEmpty
  | CWaiting
  | CFault ring_error

record ring_system =
  mem :: shm
  producer :: producer_pc
  consumer :: consumer_pc
  counter :: nat
  signal_failed :: bool
  published :: "frame list"
  returned :: nat

definition EVENTFD_MAX :: nat where
  "EVENTFD_MAX = 2 ^ 64 - 2"

text \<open>
  The producer: \<open>try_reserve\<close> loads the head, then the tail; the reserved payload is written in any
  number of pieces; \<open>commit\<close> writes the descriptor, stores the head and signals the eventfd. A lease may
  be dropped without a commit.
\<close>

inductive producer_step :: "ring_system \<Rightarrow> ring_system \<Rightarrow> bool" where
  load_head: "producer_step s (s\<lparr>producer := PLoaded (head (decode_header (mem s)))\<rparr>)"
    if "producer s = PIdle"
| full: "producer_step s (s\<lparr>mem := store_dropped (mem s) (dropped (decode_header (mem s)) + 1),
                            producer := PIdle\<rparr>)"
    if "producer s = PLoaded h0"
      "h0 - tail (decode_header (mem s)) \<ge> ucast (slot_count (decode_header (mem s)))"
| reserve: "producer_step s
      (s\<lparr>producer := PReserved \<lparr>pl_slot = off, pl_head = h0, pl_committed = False\<rparr>\<rparr>)"
    if "producer s = PLoaded h0"
      "\<not> h0 - tail (decode_header (mem s)) \<ge> ucast (slot_count (decode_header (mem s)))"
      "slot (decode_header (mem s)) h0 = Inr off"
| fill: "producer_step s (s\<lparr>mem := poke (mem s) (start + i) bs\<rparr>)"
    if "producer s = PReserved l" "payload_mut (mem s) l = Inr (start, n)" "i + length bs \<le> n"
| fill_fault: "producer_step s (s\<lparr>producer := PFault\<rparr>)"
    if "producer s = PReserved l" "payload_mut (mem s) l = Inl e"
| abandon: "producer_step s (s\<lparr>producer := PIdle\<rparr>)"
    if "producer s = PReserved l"
| describe: "producer_step s (s\<lparr>mem := m', producer := PDescribed l
        (stamp d n, peek (mem s) (pl_slot l + size_of_FrameDescriptor) n)\<rparr>)"
    if "producer s = PReserved l" "capacity (mem s) = Inr c" "n \<le> c" "n \<le> 0xffffffff"
      "write_descriptor (mem s) (pl_slot l) (stamp d n) = Inr m'"
| describe_fault: "producer_step s (s\<lparr>producer := PFault\<rparr>)"
    if "producer s = PReserved l" "write_descriptor (mem s) (pl_slot l) d = Inl e"
| publish: "producer_step s (s\<lparr>mem := store_head (mem s) (pl_head l + 1), producer := PPublished,
                               published := published s @ [f]\<rparr>)"
    if "producer s = PDescribed l f"
| signal: "producer_step s (s\<lparr>counter := min (counter s + 1) EVENTFD_MAX, producer := PIdle\<rparr>)"
    if "producer s = PPublished"
| signal_fails: "producer_step s (s\<lparr>signal_failed := True, producer := PIdle\<rparr>)"
    if "producer s = PPublished"

text \<open>The part of \<open>try_acquire\<close> after its two loads, for a tail that differs from the head.\<close>

definition acquire_at :: "shm \<Rightarrow> u64 \<Rightarrow> ring_error + FrameLease" where
  "acquire_at m t0 =
     and_then (slot (decode_header m) t0) (\<lambda>s.
     and_then (read_descriptor m s) (\<lambda>d.
     ensure (fd_abi_version d = WIRELESS_AUDIO_ABI_VERSION) FrameAbiMismatch (
     ensure (unat (fd_header_bytes d) = size_of_FrameDescriptor) FrameDescriptorSizeMismatch (
     ensure (fd_payload_bytes d \<le> payload_capacity (decode_header m)) CorruptPayloadLength (
     Inr \<lparr>fl_descriptor = d, fl_payload = s + size_of_FrameDescriptor, fl_tail = t0\<rparr>)))))"

text \<open>
  The consumer: \<open>try_acquire\<close> loads the tail, then the head, then reads and checks the descriptor;
  dropping the lease stores the tail. A consumer that found no frame may wait for the eventfd.
\<close>

inductive consumer_step :: "ring_system \<Rightarrow> ring_system \<Rightarrow> bool" where
  load_tail: "consumer_step s (s\<lparr>consumer := CLoaded (tail (decode_header (mem s)))\<rparr>)"
    if "consumer s = CIdle \<or> consumer s = CEmpty"
| empty: "consumer_step s (s\<lparr>consumer := CEmpty\<rparr>)"
    if "consumer s = CLoaded t0" "t0 = head (decode_header (mem s))"
| nonempty: "consumer_step s (s\<lparr>consumer := CNonempty t0\<rparr>)"
    if "consumer s = CLoaded t0" "t0 \<noteq> head (decode_header (mem s))"
| read: "consumer_step s (s\<lparr>consumer := CHolding l\<rparr>)"
    if "consumer s = CNonempty t0" "acquire_at (mem s) t0 = Inr l"
| read_fault: "consumer_step s (s\<lparr>consumer := CFault e\<rparr>)"
    if "consumer s = CNonempty t0" "acquire_at (mem s) t0 = Inl e"
| payload_fault: "consumer_step s (s\<lparr>consumer := CFault e\<rparr>)"
    if "consumer s = CHolding l" "lease_payload (mem s) l = Inl e"
| return: "consumer_step s (s\<lparr>mem := drop_lease (mem s) l, consumer := CIdle,
                              returned := returned s + 1\<rparr>)"
    if "consumer s = CHolding l"
| wait: "consumer_step s (s\<lparr>consumer := CWaiting\<rparr>)"
    if "consumer s = CEmpty"
| wake: "consumer_step s (s\<lparr>counter := 0, consumer := CIdle\<rparr>)"
    if "consumer s = CWaiting" "0 < counter s"

definition ring_step :: "ring_system \<Rightarrow> ring_system \<Rightarrow> bool" where
  "ring_step s s' \<longleftrightarrow> producer_step s s' \<or> consumer_step s s'"

definition ring_started :: "u32 \<Rightarrow> u32 \<Rightarrow> ring_system" where
  "ring_started n c =
     \<lparr>mem = fresh_ring n c, producer = PIdle, consumer = CIdle, counter = 0, signal_failed = False,
      published = [], returned = 0\<rparr>"

section \<open>The invariant\<close>

abbreviation queued :: "ring_system \<Rightarrow> frame list" where
  "queued s \<equiv> drop (returned s) (published s)"

definition lease_at :: "shm \<Rightarrow> nat \<Rightarrow> ProducerLease" where
  "lease_at m k =
     \<lparr>pl_slot = slot_off (decode_header m) k, pl_head = of_nat k, pl_committed = False\<rparr>"

fun producer_ok :: "shm \<Rightarrow> nat \<Rightarrow> frame list \<Rightarrow> producer_pc \<Rightarrow> bool" where
  "producer_ok m t q (PLoaded h0) = (h0 = of_nat (t + length q))"
| "producer_ok m t q (PReserved l) =
     (l = lease_at m (t + length q) \<and> length q < unat (slot_count (decode_header m)))"
| "producer_ok m t q (PDescribed l f) =
     (l = lease_at m (t + length q) \<and> length q < unat (slot_count (decode_header m)) \<and>
      frame_at m (pl_slot l) = f \<and> frame_ok (unat (payload_capacity (decode_header m))) f)"
| "producer_ok m t q PFault = False"
| "producer_ok m t q _ = True"

fun consumer_ok :: "shm \<Rightarrow> nat \<Rightarrow> frame list \<Rightarrow> consumer_pc \<Rightarrow> bool" where
  "consumer_ok m t q (CLoaded t0) = (t0 = of_nat t)"
| "consumer_ok m t q (CNonempty t0) = (t0 = of_nat t \<and> q \<noteq> [])"
| "consumer_ok m t q (CHolding l) =
     (q \<noteq> [] \<and> l = \<lparr>fl_descriptor = fst (hd q),
        fl_payload = slot_off (decode_header m) t + size_of_FrameDescriptor, fl_tail = of_nat t\<rparr>)"
| "consumer_ok m t q (CFault e) = False"
| "consumer_ok m t q _ = True"

definition ring_inv :: "u32 \<Rightarrow> u32 \<Rightarrow> ring_system \<Rightarrow> bool" where
  "ring_inv n c s \<longleftrightarrow>
     returned s \<le> length (published s) \<and> ring_rel (mem s) (returned s) (queued s) \<and>
     slot_count (decode_header (mem s)) = n \<and> payload_capacity (decode_header (mem s)) = c \<and>
     producer_ok (mem s) (returned s) (queued s) (producer s) \<and>
     consumer_ok (mem s) (returned s) (queued s) (consumer s) \<and>
     (consumer s \<in> {CEmpty, CWaiting} \<and> queued s \<noteq> [] \<and> \<not> signal_failed s \<longrightarrow>
        producer s = PPublished \<or> 0 < counter s)"

lemma acquire_at_tail:
  assumes "header m = Inr h" and "tail h \<noteq> head h" and "try_acquire m = Inr (Some l)"
  shows "acquire_at m (tail h) = Inr l"
  using assms
  by (auto simp: try_acquire_def acquire_at_def header_def result_simps split: if_splits)

lemma frame_at_store:
  "frame_at (store_head m v) (slot_off h i) = frame_at m (slot_off h i)"
  "frame_at (store_tail m v) (slot_off h i) = frame_at m (slot_off h i)"
  "frame_at (store_dropped m v) (slot_off h i) = frame_at m (slot_off h i)"
  using slot_off_ge [of h i]
  by (auto intro!: frame_at_cong [where c = "unat (fd_payload_bytes (decode_descriptor m (slot_off h i)))"])

lemma slot_off_cursors [simp]:
  "slot_off (h\<lparr>head := x\<rparr>) i = slot_off h i" "slot_off (h\<lparr>tail := x\<rparr>) i = slot_off h i"
  "slot_off (h\<lparr>dropped := x\<rparr>) i = slot_off h i"
  by (simp_all add: slot_off_def)

lemma lease_at_cong:
  "slot_off (decode_header m') = slot_off (decode_header m) \<Longrightarrow> lease_at m' = lease_at m"
  by (simp add: lease_at_def fun_eq_iff)

lemma consumer_ok_cong:
  "slot_off (decode_header m') = slot_off (decode_header m) \<Longrightarrow>
   consumer_ok m' t q pc = consumer_ok m t q pc"
  by (cases pc) simp_all

lemma consumer_ok_published: "consumer_ok m t q pc \<Longrightarrow> consumer_ok m t (q @ [f]) pc"
  by (cases pc) auto

lemma ring_startedI: "2 \<le> n \<Longrightarrow> unat c \<le> 2 ^ 32 - 128 \<Longrightarrow> ring_inv n c (ring_started n c)"
  using fresh_ring_empty [of n c]
  by (simp add: ring_inv_def ring_started_def decode_fresh_ring initial_header_def)

lemma payload_mut_reserved:
  assumes "ring_rel m t q" and "length q < unat (slot_count (decode_header m))"
  shows "payload_mut m (lease_at m (t + length q)) =
    Inr (slot_off (decode_header m) (t + length q) + 64, unat (payload_capacity (decode_header m)))"
  using slot_frame_in_bounds [OF ring_relD(1,2) [OF assms(1)], of "t + length q"]
  by (simp add: payload_mut_def ring_capacity [OF assms(1)] lease_at_def in_bounds_def)

lemma describe_ok:
  assumes rel: "ring_rel m t q" and room: "length q < unat (slot_count (decode_header m))"
    and n: "n \<le> unat (payload_capacity (decode_header m))"
    and w: "write_descriptor m (slot_off (decode_header m) (t + length q)) (stamp d n) = Inr m'"
  defines "f \<equiv> (stamp d n, peek m (slot_off (decode_header m) (t + length q) + 64) n)"
  shows "ring_rel m' t q" and "decode_header m' = decode_header m"
    and "frame_at m' (slot_off (decode_header m) (t + length q)) = f"
    and "frame_ok (unat (payload_capacity (decode_header m))) f"
proof -
  let ?p = "peek m (slot_off (decode_header m) (t + length q) + 64) n"
  have len: "length ?p = n" by simp
  obtain m'' where "write_descriptor m (slot_off (decode_header m) (t + length q)) (stamp d n) = Inr m''"
    and m'': "ring_rel m'' t q" "decode_header m'' = decode_header m"
      "frame_at m'' (slot_off (decode_header m) (t + length q)) = f"
    using write_free_descriptor [OF rel room, of ?p d] n unfolding len f_def by blast
  with w have "m'' = m'" by simp
  with m'' show "ring_rel m' t q" "decode_header m' = decode_header m"
    "frame_at m' (slot_off (decode_header m) (t + length q)) = f" by simp_all
  show "frame_ok (unat (payload_capacity (decode_header m))) f"
    using frame_ok_stamp [of ?p "unat (payload_capacity (decode_header m))" d] n
    unfolding len f_def by simp
qed

lemma producer_step_inv:
  assumes n: "unat n dvd 2 ^ 64" and inv: "ring_inv n c s" and step: "producer_step s s'"
  shows "ring_inv n c s'"
proof -
  let ?m = "mem s" and ?t = "returned s" and ?q = "queued s"
  let ?h = "decode_header (mem s)"
  have rel: "ring_rel ?m ?t ?q" and le: "returned s \<le> length (published s)"
    using inv by (simp_all add: ring_inv_def)
  have tq: "?t + length ?q = length (published s)" using le by simp
  show ?thesis
    using step
  proof cases
    case load_head
    then show ?thesis
      using inv ring_relD(4) [OF rel] by (simp add: ring_inv_def)
  next
    case (full h0)
    have "h0 = head ?h"
      using full inv ring_relD(4) [OF rel] by (simp add: ring_inv_def)
    then have "length ?q = unat (slot_count ?h)"
      using full(3) ring_full_iff [OF rel] by simp
    then have "ring_rel (store_dropped ?m (dropped ?h + 1)) ?t ?q"
      by (rule push_full(2) [OF rel])
    then show ?thesis
      using inv full consumer_ok_cong [of "store_dropped ?m (dropped ?h + 1)" ?m]
      by (simp add: ring_inv_def fun_eq_iff)
  next
    case (reserve h0 off)
    have h0: "h0 = of_nat (?t + length ?q)"
      using reserve inv by (simp add: ring_inv_def)
    then have "length ?q < unat (slot_count ?h)"
      using reserve(3) ring_full_iff [OF rel] ring_relD(4) [OF rel] ring_cursor_diff(2) [OF rel] by auto
    moreover have "off = slot_off ?h (?t + length ?q)"
      using reserve(4) slot_of_nat [OF ring_relD(5) [OF rel] order_refl ring_relD(8) [OF rel]] h0
      by (simp del: of_nat_add)
    ultimately show ?thesis
      using inv reserve h0 by (simp add: ring_inv_def lease_at_def)
  next
    case (fill l start k i bs)
    have room: "length ?q < unat (slot_count ?h)" and l: "l = lease_at ?m (?t + length ?q)"
      using fill inv by (auto simp: ring_inv_def)
    have sk: "start = slot_off ?h (?t + length ?q) + 64" "k = unat (payload_capacity ?h)"
      using fill(3) payload_mut_reserved [OF rel room] l by simp_all
    have "ring_rel (poke ?m (start + i) bs) ?t ?q"
      and h: "decode_header (poke ?m (start + i) bs) = ?h"
      by (rule free_slot_write [OF rel room]; use fill(4) sk in \<open>auto intro!: peek_poke_other\<close>)+
    then show ?thesis
      using inv fill lease_at_cong [of "poke ?m (start + i) bs" ?m]
        consumer_ok_cong [of "poke ?m (start + i) bs" ?m]
      by (auto simp: ring_inv_def)
  next
    case (fill_fault l e)
    then show ?thesis using inv payload_mut_reserved [OF rel] by (auto simp: ring_inv_def)
  next
    case (abandon l)
    then show ?thesis using inv by (simp add: ring_inv_def)
  next
    case (describe l cap k d m')
    have room: "length ?q < unat (slot_count ?h)" and l: "l = lease_at ?m (?t + length ?q)"
      using describe inv by (auto simp: ring_inv_def)
    have k: "k \<le> unat (payload_capacity ?h)"
      using describe ring_capacity [OF rel] by simp
    have w: "write_descriptor ?m (slot_off ?h (?t + length ?q)) (stamp d k) = Inr m'"
      using describe(6) by (simp add: l lease_at_def)
    note ok = describe_ok [OF rel room k w]
    show ?thesis
      using inv describe(1,2) ok room l lease_at_cong [of m' ?m] consumer_ok_cong [of m' ?m]
      by (simp add: ring_inv_def lease_at_def)
  next
    case (describe_fault l d e)
    have "l = lease_at ?m (?t + length ?q)"
      using describe_fault inv by (simp add: ring_inv_def)
    then show ?thesis
      using describe_fault(3) slot_frame_in_bounds [OF ring_relD(1,2) [OF rel], of "?t + length ?q"]
      by (simp add: write_descriptor_def in_bounds_def lease_at_def)
  next
    case (publish l f)
    have room: "length ?q < unat (slot_count ?h)" and l: "l = lease_at ?m (?t + length ?q)"
      and f: "frame_at ?m (slot_off ?h (?t + length ?q)) = f" "frame_ok (unat (payload_capacity ?h)) f"
      using publish inv by (auto simp: ring_inv_def lease_at_def)
    have "cursor_fits ?h (?t + length ?q + 1)"
      using n inv by (simp add: cursor_fits_def ring_inv_def)
    from publish_head [OF rel room this f]
    have "ring_rel (store_head ?m (pl_head l + 1)) ?t (?q @ [f])"
      by (simp add: l lease_at_def add.commute)
    then show ?thesis
      using inv publish le consumer_ok_cong [of "store_head ?m (pl_head l + 1)" ?m]
        consumer_ok_published [of ?m ?t ?q "consumer s" f]
      by (simp add: ring_inv_def fun_eq_iff)
  next
    case signal
    then show ?thesis using inv by (simp add: ring_inv_def EVENTFD_MAX_def)
  next
    case signal_fails
    then show ?thesis using inv by (simp add: ring_inv_def)
  qed
qed

lemma producer_ok_returned:
  assumes "producer_ok m t (f # q) pc" and "m' = store_tail m v"
  shows "producer_ok m' (t + 1) q pc"
  using assms by (cases pc) (auto simp: lease_at_def frame_at_store)

lemma consumer_step_inv:
  assumes inv: "ring_inv n c s" and step: "consumer_step s s'"
  shows "ring_inv n c s'"
proof -
  let ?m = "mem s" and ?t = "returned s" and ?q = "queued s"
  let ?h = "decode_header (mem s)"
  have rel: "ring_rel ?m ?t ?q" and le: "returned s \<le> length (published s)"
    using inv by (simp_all add: ring_inv_def)
  note tail = ring_relD(3) [OF rel] and head = ring_relD(4) [OF rel]
  have first: "?q = hd ?q # drop (returned s + 1) (published s)" if "?q \<noteq> []"
    using that by (simp add: hd_drop_conv_nth Cons_nth_drop_Suc)
  have rel1: "ring_rel ?m ?t (hd ?q # drop (returned s + 1) (published s))" if "?q \<noteq> []"
    by (subst first [OF that, symmetric]) (rule rel)
  show ?thesis
    using step
  proof cases
    case load_tail
    then show ?thesis using inv tail by (auto simp: ring_inv_def)
  next
    case (empty t0)
    then have "?q = []"
      using inv ring_empty_iff [OF rel] tail by (simp add: ring_inv_def)
    with empty inv show ?thesis by (auto simp: ring_inv_def)
  next
    case (nonempty t0)
    then have "?q \<noteq> []" "t0 = of_nat ?t"
      using inv ring_empty_iff [OF rel] tail by (auto simp: ring_inv_def)
    with nonempty inv show ?thesis by (simp add: ring_inv_def)
  next
    case (read t0 l)
    have q: "?q \<noteq> []" and t0: "t0 = tail ?h" using read inv tail by (simp_all add: ring_inv_def)
    note a = acquire_first [OF rel1 [OF q]]
    have "tail ?h \<noteq> head ?h" using ring_empty_iff [OF rel] q by simp
    from acquire_at_tail [OF ring_header [OF rel] this a(1)] read(3) t0
    have "l = \<lparr>fl_descriptor = fst (hd ?q), fl_payload = slot_off ?h ?t + 64, fl_tail = of_nat ?t\<rparr>"
      by simp
    with read inv q show ?thesis by (simp add: ring_inv_def)
  next
    case (read_fault t0 e)
    have q: "?q \<noteq> []" and t0: "t0 = tail ?h" using read_fault inv tail by (simp_all add: ring_inv_def)
    have "tail ?h \<noteq> head ?h" using ring_empty_iff [OF rel] q by simp
    from acquire_at_tail [OF ring_header [OF rel] this acquire_first(1) [OF rel1 [OF q]]]
    show ?thesis using read_fault(3) t0 by simp
  next
    case (payload_fault l e)
    then have q: "?q \<noteq> []"
      and l: "l = \<lparr>fl_descriptor = fst (hd ?q), fl_payload = slot_off ?h ?t + 64, fl_tail = of_nat ?t\<rparr>"
      using inv by (simp_all add: ring_inv_def)
    show ?thesis
      using acquire_first(2) [OF rel1 [OF q]] payload_fault(3) l by simp
  next
    case (return l)
    then have q: "?q \<noteq> []"
      and l: "l = \<lparr>fl_descriptor = fst (hd ?q), fl_payload = slot_off ?h ?t + 64, fl_tail = of_nat ?t\<rparr>"
      using inv by (simp_all add: ring_inv_def)
    have "ring_rel (drop_lease ?m l) (?t + 1) (drop (returned s + 1) (published s))"
      using acquire_first(3) [OF rel1 [OF q]] l by simp
    moreover have "producer_ok (drop_lease ?m l) (?t + 1) (drop (returned s + 1) (published s)) (producer s)"
      by (rule producer_ok_returned [of ?m ?t "hd ?q"])
        (use inv first [OF q] in \<open>auto simp: ring_inv_def drop_lease_def\<close>)
    ultimately show ?thesis
      using inv return q by (simp add: ring_inv_def drop_lease_def)
  next
    case wait
    then show ?thesis using inv by (simp add: ring_inv_def)
  next
    case wake
    then show ?thesis using inv by (simp add: ring_inv_def)
  qed
qed

text \<open>The rings of the concurrent system: at least two slots, in a number that divides \<open>2 ^ 64\<close>.\<close>

definition ring_size_ok :: "u32 \<Rightarrow> u32 \<Rightarrow> bool" where
  "ring_size_ok n c \<longleftrightarrow> 2 \<le> n \<and> unat n dvd 2 ^ 64 \<and> unat c \<le> 2 ^ 32 - 128"

interpretation ring_run: inductive_invariant "ring_started n c" ring_step
  "\<lambda>s. ring_size_ok n c \<longrightarrow> ring_inv n c s" for n c
  by unfold_locales
    (auto simp: ring_size_ok_def ring_step_def ring_startedI
      intro: producer_step_inv consumer_step_inv)

lemma producer_first: "producer_step s t \<Longrightarrow> rtranclp ring_step t u \<Longrightarrow> rtranclp ring_step s u"
  by (rule converse_rtranclp_into_rtranclp [of ring_step s t]) (simp_all add: ring_step_def)

lemma consumer_first: "consumer_step s t \<Longrightarrow> rtranclp ring_step t u \<Longrightarrow> rtranclp ring_step s u"
  by (rule converse_rtranclp_into_rtranclp [of ring_step s t]) (simp_all add: ring_step_def)

text \<open>Undisturbed operations: a push and an acquire that run from start to end.\<close>

lemma push_runs:
  assumes n: "unat n dvd 2 ^ 64" and inv: "ring_inv n c s" and idle: "producer s = PIdle"
    and room: "length (queued s) < unat n" and p: "length p \<le> unat c"
  shows "\<exists>s'. rtranclp ring_step s s' \<and> ring_inv n c s' \<and> producer s' = PIdle \<and>
    consumer s' = consumer s \<and> signal_failed s' = signal_failed s \<and> returned s' = returned s \<and>
    published s' = published s @ [(stamp d (length p), p)]"
proof -
  let ?m = "mem s" and ?h = "decode_header (mem s)" and ?k = "returned s + length (queued s)"
  let ?l = "lease_at ?m ?k"
  let ?s1 = "s\<lparr>producer := PLoaded (head ?h)\<rparr>"
  let ?s2 = "s\<lparr>producer := PReserved ?l\<rparr>"
  let ?m3 = "poke ?m (slot_off ?h ?k + 64) p"
  let ?s3 = "?s2\<lparr>mem := ?m3\<rparr>"
  have rel: "ring_rel ?m (returned s) (queued s)" using inv by (simp add: ring_inv_def)
  have room': "length (queued s) < unat (slot_count ?h)" and p': "length p \<le> unat (payload_capacity ?h)"
    using inv room p by (simp_all add: ring_inv_def)
  have 1: "producer_step s ?s1" using idle by (rule load_head)
  have "slot ?h (head ?h) = Inr (slot_off ?h ?k)"
    using slot_of_nat [OF ring_relD(5) [OF rel] order_refl ring_relD(8) [OF rel]] ring_relD(4) [OF rel]
    by simp
  moreover have "\<not> head ?h - tail ?h \<ge> ucast (slot_count ?h)"
    using ring_full_iff [OF rel] room' by simp
  ultimately have 2: "producer_step ?s1 ?s2"
    using reserve [of ?s1 "head ?h" "slot_off ?h ?k"] ring_relD(4) [OF rel]
    by (simp add: lease_at_def)
  have 3: "producer_step ?s2 ?s3"
    using fill [of ?s2 ?l "slot_off ?h ?k + 64" "unat (payload_capacity ?h)" 0 p]
      payload_mut_reserved [OF rel room'] p' by simp
  have inv3: "ring_inv n c ?s3"
    using producer_step_inv [OF n] inv 1 2 3 by blast
  have rel3: "ring_rel ?m3 (returned s) (queued s)"
    using fill_payload_room(2) [OF rel room' p', of ?l] by (simp only: lease_at_def ProducerLease.simps)
  have h3: "decode_header ?m3 = ?h"
    using header_poke_outside [of "slot_off ?h ?k + 64"] slot_off_ge [of ?h ?k] by simp
  have peek: "peek ?m3 (slot_off ?h ?k + 64) (length p) = p"
    by (simp add: peek_poke_inside)
  obtain m4 where m4: "write_descriptor ?m3 (slot_off ?h ?k) (stamp d (length p)) = Inr m4"
    using write_free_descriptor [OF rel3, of p d] room' p' peek unfolding h3 by blast
  let ?s4 = "?s3\<lparr>mem := m4, producer := PDescribed ?l (stamp d (length p), p)\<rparr>"
  have sl: "pl_slot ?l = slot_off ?h ?k" by (simp only: lease_at_def ProducerLease.simps)
  have 4: "producer_step ?s3 ?s4"
    using describe [of ?s3 ?l "unat (payload_capacity ?h)" "length p" d m4] m4 p' peek
      ring_capacity [OF rel3] unat_u32_le [of "payload_capacity ?h"]
    by (simp add: h3 sl del: length_drop)
  let ?s5 = "?s4\<lparr>mem := store_head m4 (pl_head ?l + 1), producer := PPublished,
      published := published s @ [(stamp d (length p), p)]\<rparr>"
  have 5: "producer_step ?s4 ?s5"
    using publish [of ?s4 ?l "(stamp d (length p), p)"] by simp
  let ?s6 = "?s5\<lparr>counter := min (counter s + 1) EVENTFD_MAX, producer := PIdle\<rparr>"
  have 6: "producer_step ?s5 ?s6" using signal [of ?s5] by simp
  have "rtranclp ring_step s ?s6"
    by (intro producer_first [OF 1] producer_first [OF 2] producer_first [OF 3] producer_first [OF 4]
        producer_first [OF 5] producer_first [OF 6] rtranclp.rtrancl_refl)
  moreover have "ring_inv n c ?s6"
    using producer_step_inv [OF n] inv3 4 5 6 by blast
  ultimately show ?thesis by (intro exI [of _ ?s6]) simp
qed

lemma acquire_runs:
  assumes inv: "ring_inv n c s" and idle: "consumer s = CIdle" and "queued s \<noteq> []"
  shows "\<exists>l. rtranclp ring_step s (s\<lparr>consumer := CHolding l\<rparr>)"
proof -
  let ?h = "decode_header (mem s)"
  have rel: "ring_rel (mem s) (returned s) (queued s)" using inv by (simp add: ring_inv_def)
  have ne: "tail ?h \<noteq> head ?h" using ring_empty_iff [OF rel] assms(3) by simp
  obtain f q where fq: "queued s = f # q" using assms(3) by (cases "queued s") auto
  obtain l where l: "acquire_at (mem s) (tail ?h) = Inr l"
    using acquire_at_tail [OF ring_header [OF rel] ne acquire_first(1) [OF rel [unfolded fq]]] by blast
  let ?s1 = "s\<lparr>consumer := CLoaded (tail ?h)\<rparr>" and ?s2 = "s\<lparr>consumer := CNonempty (tail ?h)\<rparr>"
  have 1: "consumer_step s ?s1" using load_tail [of s] idle by simp
  have 2: "consumer_step ?s1 ?s2" using nonempty [of ?s1 "tail ?h"] ne by simp
  have 3: "consumer_step ?s2 (s\<lparr>consumer := CHolding l\<rparr>)"
    using read [of ?s2 "tail ?h" l] l by simp
  show ?thesis
    by (rule exI [of _ l], intro consumer_first [OF 1] consumer_first [OF 2] consumer_first [OF 3]
        rtranclp.rtrancl_refl)
qed

section \<open>Properties\<close>

text \<open>C1: No access of the concurrent ring leaves the mapping and no frame is ever misread, under every
  interleaving of the producer's and the consumer's memory accesses and for any number of frames: the
  faults of both sides are unreachable, a held lease shows the descriptor and the exact payload of the
  oldest frame not yet returned, for as long as it is held, and at most slot-count frames are
  outstanding.\<close>

theorem ring_concurrent_safety:
  assumes "ring_size_ok n c" and "rtranclp ring_step (ring_started n c) s"
  shows "producer s \<noteq> PFault \<and> (\<forall>e. consumer s \<noteq> CFault e) \<and>
    returned s \<le> length (published s) \<and> length (published s) - returned s \<le> unat n \<and>
    (\<forall>l. consumer s = CHolding l \<longrightarrow> returned s < length (published s) \<and>
       fl_descriptor l = fst (published s ! returned s) \<and>
       lease_payload (mem s) l = Inr (snd (published s ! returned s)))"
proof -
  have inv: "ring_inv n c s" using ring_run.reachable_inv [OF assms(2)] assms(1) by blast
  have rel: "ring_rel (mem s) (returned s) (queued s)" using inv by (simp add: ring_inv_def)
  have "producer s \<noteq> PFault" "\<And>e. consumer s \<noteq> CFault e" "returned s \<le> length (published s)"
    using inv by (auto simp: ring_inv_def)
  moreover have "length (published s) - returned s \<le> unat n"
    using ring_cursor_diff(2) [OF rel] inv by (simp add: ring_inv_def)
  moreover have "returned s < length (published s) \<and>
       fl_descriptor l = fst (published s ! returned s) \<and>
       lease_payload (mem s) l = Inr (snd (published s ! returned s))" if "consumer s = CHolding l" for l
  proof -
    have q: "queued s \<noteq> []" and l: "l = \<lparr>fl_descriptor = fst (hd (queued s)),
        fl_payload = slot_off (decode_header (mem s)) (returned s) + 64, fl_tail = of_nat (returned s)\<rparr>"
      using inv that by (simp_all add: ring_inv_def)
    have "queued s = published s ! returned s # drop (returned s + 1) (published s)"
      using q by (simp add: Cons_nth_drop_Suc)
    with rel have "ring_rel (mem s) (returned s)
        (published s ! returned s # drop (returned s + 1) (published s))" by simp
    from acquire_first(2) [OF this] show ?thesis
      using q l by (simp add: hd_drop_conv_nth)
  qed
  ultimately show ?thesis by blast
qed

lemma size_2_64: "ring_size_ok 2 64"
  by (simp add: ring_size_ok_def)

lemma pushed_started:
  "\<exists>s. rtranclp ring_step (ring_started 2 64) s \<and> ring_inv 2 64 s \<and> consumer s = CIdle \<and>
     returned s = 0 \<and> published s = [(stamp (frame_descriptor_new Lc3Sdu 7) (length [1 :: u8, 2]), [1, 2])]"
  using push_runs [of 2 64 "ring_started 2 64" "[1, 2]" "frame_descriptor_new Lc3Sdu 7"]
    ring_startedI [of 2 64]
  by (auto simp: ring_started_def)

theorem ring_concurrent_safety_witness:
  "\<exists>s l. rtranclp ring_step (ring_started 2 64) s \<and> consumer s = CHolding l \<and>
     lease_payload (mem s) l = Inr [1, 2]"
proof -
  obtain s where s: "rtranclp ring_step (ring_started 2 64) s" "ring_inv 2 64 s" "consumer s = CIdle"
    "returned s = 0" "published s = [(stamp (frame_descriptor_new Lc3Sdu 7) (length [1 :: u8, 2]), [1, 2])]"
    using pushed_started by blast
  obtain l where l: "rtranclp ring_step s (s\<lparr>consumer := CHolding l\<rparr>)"
    using acquire_runs [OF s(2,3)] s(4,5) by auto
  from s(1) l have r: "rtranclp ring_step (ring_started 2 64) (s\<lparr>consumer := CHolding l\<rparr>)"
    by (rule rtranclp_trans)
  have "lease_payload (mem s) l = Inr [1, 2]"
    using ring_concurrent_safety [OF size_2_64 r] s(4,5) by simp
  with r show ?thesis by (intro exI [of _ "s\<lparr>consumer := CHolding l\<rparr>"] exI [of _ l]) simp
qed

text \<open>C6: No wakeup is lost: when a consumer that found the ring empty waits on the eventfd while a
  frame is queued, either the counter is positive, so that the wait ends, or the producer of that frame
  has still to signal it, provided no signal has failed with an error.\<close>

theorem ring_no_lost_wakeup:
  assumes "ring_size_ok n c" and "rtranclp ring_step (ring_started n c) s"
    and "consumer s = CWaiting" and "returned s < length (published s)" and "\<not> signal_failed s"
  shows "0 < counter s \<or> producer s = PPublished"
proof -
  have "ring_inv n c s" using ring_run.reachable_inv [OF assms(2)] assms(1) by blast
  then show ?thesis using assms(3-5) by (auto simp: ring_inv_def)
qed

definition waiting_ring :: ring_system where
  "waiting_ring = (ring_started 2 64)\<lparr>consumer := CWaiting\<rparr>"

lemma waiting_ring_reachable: "rtranclp ring_step (ring_started 2 64) waiting_ring"
proof -
  let ?s = "ring_started 2 64" and ?h = "decode_header (fresh_ring 2 64)"
  have 1: "consumer_step ?s (?s\<lparr>consumer := CLoaded 0\<rparr>)"
    using load_tail [of ?s] by (simp add: ring_started_def decode_fresh_ring initial_header_def)
  have 2: "consumer_step (?s\<lparr>consumer := CLoaded 0\<rparr>) (?s\<lparr>consumer := CEmpty\<rparr>)"
    using empty [of "?s\<lparr>consumer := CLoaded 0\<rparr>" 0]
    by (simp add: ring_started_def decode_fresh_ring initial_header_def)
  have 3: "consumer_step (?s\<lparr>consumer := CEmpty\<rparr>) waiting_ring"
    using wait [of "?s\<lparr>consumer := CEmpty\<rparr>"] by (simp add: waiting_ring_def)
  show ?thesis
    by (intro consumer_first [OF 1] consumer_first [OF 2] consumer_first [OF 3] rtranclp.rtrancl_refl)
qed

theorem ring_no_lost_wakeup_witness:
  "\<exists>s. rtranclp ring_step (ring_started 2 64) s \<and> consumer s = CWaiting \<and>
     length (published s) = 1 \<and> (0 < counter s \<or> producer s = PPublished)"
proof -
  have "ring_inv 2 64 waiting_ring"
    using ring_run.reachable_inv [OF waiting_ring_reachable] size_2_64 by blast
  then obtain s where s: "rtranclp ring_step waiting_ring s" "consumer s = CWaiting"
    "returned s = 0" "length (published s) = 1" "\<not> signal_failed s"
    using push_runs [of 2 64 waiting_ring "[1, 2]" "frame_descriptor_new Lc3Sdu 7"]
    by (auto simp: waiting_ring_def ring_started_def)
  from waiting_ring_reachable s(1) have "rtranclp ring_step (ring_started 2 64) s"
    by (rule rtranclp_trans)
  then show ?thesis using ring_no_lost_wakeup [OF size_2_64, of s] s by auto
qed

end
