(* ===== verification/Effects.thy ===== *)
theory Effects
  imports Dorsche_Prelude
begin

text \<open>
  Programs with effects: an action takes the state of its surroundings and gives a result with the new
  state, or does not return (\<^const>\<open>None\<close>). \<open>seq\<close> is sequencing with the question-mark operator,
  \<open>require\<close> is \<open>ensure!\<close>, \<open>attempt\<close> hands a result to the caller instead of propagating its error, and
  \<open>with_error\<close> is \<open>map_err\<close> and \<open>context\<close>.
  \<open>triple P m Q E\<close> states what holds after \<open>m\<close> when it returns a value (\<open>Q\<close>) or an error (\<open>E\<close>);
  \<open>returns\<close> states that it does return, and \<open>agrees\<close> that it returns what an effect-free computation gives.
  The rules of the first two are in the collections \<open>triple_rules\<close> and
  \<open>returns_rules\<close>.
\<close>

section \<open>Actions\<close>

type_synonym ('s, 'e, 'a) act = "'s \<Rightarrow> (('e + 'a) \<times> 's) option"

definition pure :: "'a \<Rightarrow> ('s, 'e, 'a) act" where
  "pure x s = Some (Inr x, s)"

definition throw :: "'e \<Rightarrow> ('s, 'e, 'a) act" where
  "throw e s = Some (Inl e, s)"

definition seq :: "('s, 'e, 'a) act \<Rightarrow> ('a \<Rightarrow> ('s, 'e, 'b) act) \<Rightarrow> ('s, 'e, 'b) act" where
  "seq m k s =
     Option.bind (m s) (\<lambda>(r, s'). case r of Inl e \<Rightarrow> Some (Inl e, s') | Inr x \<Rightarrow> k x s')"

definition require :: "bool \<Rightarrow> 'e \<Rightarrow> ('s, 'e, unit) act" where
  "require c e = (if c then pure () else throw e)"

definition from_result :: "'e + 'a \<Rightarrow> ('s, 'e, 'a) act" where
  "from_result r s = Some (r, s)"

definition attempt :: "('s, 'e, 'a) act \<Rightarrow> ('s, 'f, 'e + 'a) act" where
  "attempt m s = Option.bind (m s) (\<lambda>(r, s'). Some (Inr r, s'))"

definition with_error :: "('e \<Rightarrow> 'f) \<Rightarrow> ('s, 'e, 'a) act \<Rightarrow> ('s, 'f, 'a) act" where
  "with_error f m s = Option.bind (m s) (\<lambda>(r, s'). Some (map_err f r, s'))"

definition perform :: "('s \<Rightarrow> ('e + 'a) \<times> 's) \<Rightarrow> ('s, 'e, 'a) act" where
  "perform f s = Some (f s)"

definition inspect :: "('s \<Rightarrow> 'a) \<Rightarrow> ('s, 'e, 'a) act" where
  "inspect f s = Some (Inr (f s), s)"

definition modify :: "('s \<Rightarrow> 's) \<Rightarrow> ('s, 'e, unit) act" where
  "modify f s = Some (Inr (), f s)"

lemmas act_defs = pure_def throw_def seq_def require_def from_result_def attempt_def with_error_def perform_def
  inspect_def modify_def

lemma seq_mono [partial_function_mono]:
  assumes "mono_option (\<lambda>f. m f s)" and "\<And>x t. mono_option (\<lambda>f. k f x t)"
  shows "mono_option (\<lambda>f. seq (m f) (k f) s)"
proof -
  have "mono_option (\<lambda>f. case r of Inl e \<Rightarrow> Some (Inl e, t) | Inr x \<Rightarrow> k f x t)" for r t
    using assms(2) by (cases r) (simp_all add: option.const_mono)
  then show ?thesis
    unfolding seq_def case_prod_unfold by (intro bind_mono assms(1))
qed

lemma attempt_mono [partial_function_mono]:
  assumes "mono_option (\<lambda>f. m f s)"
  shows "mono_option (\<lambda>f. attempt (m f) s)"
  unfolding attempt_def
  by (intro bind_mono assms) (auto intro: monotoneI simp: flat_ord_def)

lemma if_act_mono [partial_function_mono]:
  assumes "mono_option (\<lambda>f. m f s)" and "mono_option (\<lambda>f. n f s)"
  shows "mono_option (\<lambda>f. (if c then m f else n f) s)"
  using assms by (cases c) simp_all

lemma case_sum_act_mono [partial_function_mono]:
  assumes "\<And>e. mono_option (\<lambda>f. m f e s)" and "\<And>x. mono_option (\<lambda>f. n f x s)"
  shows "mono_option (\<lambda>f. (case r of Inl e \<Rightarrow> m f e | Inr x \<Rightarrow> n f x) s)"
  using assms by (cases r) simp_all

lemma case_option_act_mono [partial_function_mono]:
  assumes "mono_option (\<lambda>f. m f s)" and "\<And>x. mono_option (\<lambda>f. n f x s)"
  shows "mono_option (\<lambda>f. (case r of None \<Rightarrow> m f | Some x \<Rightarrow> n f x) s)"
  using assms by (cases r) simp_all

section \<open>Partial correctness\<close>

named_theorems triple_rules "rules for triples"

definition triple ::
  "('s \<Rightarrow> bool) \<Rightarrow> ('s, 'e, 'a) act \<Rightarrow> ('a \<Rightarrow> 's \<Rightarrow> bool) \<Rightarrow> ('e \<Rightarrow> 's \<Rightarrow> bool) \<Rightarrow> bool"
where
  "triple P m Q E \<longleftrightarrow>
     (\<forall>s r s'. P s \<longrightarrow> m s = Some (r, s') \<longrightarrow> (case r of Inl e \<Rightarrow> E e s' | Inr x \<Rightarrow> Q x s'))"

lemma tripleD:
  "triple P m Q E \<Longrightarrow> P s \<Longrightarrow> m s = Some (r, s') \<Longrightarrow> (case r of Inl e \<Rightarrow> E e s' | Inr x \<Rightarrow> Q x s')"
  by (simp add: triple_def)

lemma triple_by_run:
  "(\<And>s y. m s = Some y \<Longrightarrow> P s \<longrightarrow> (case fst y of Inl e \<Rightarrow> E e (snd y) | Inr x \<Rightarrow> Q x (snd y))) \<Longrightarrow> triple P m Q E"
  unfolding triple_def by (metis fst_conv snd_conv)

lemma triple_seq [triple_rules]:
  assumes "triple P m R E" and "\<And>x. triple (R x) (k x) Q E"
  shows "triple P (seq m k) Q E"
  unfolding triple_def
proof (intro allI impI)
  fix s r s'
  assume "P s" and run: "seq m k s = Some (r, s')"
  from run obtain q t where m: "m s = Some (q, t)"
    by (auto simp: seq_def bind_eq_Some_conv)
  show "case r of Inl e \<Rightarrow> E e s' | Inr x \<Rightarrow> Q x s'"
  proof (cases q)
    case (Inl e)
    then show ?thesis
      using tripleD [OF assms(1) \<open>P s\<close> m] run m by (auto simp: seq_def)
  next
    case (Inr x)
    then have "R x t" using tripleD [OF assms(1) \<open>P s\<close> m] by simp
    moreover have "k x t = Some (r, s')" using run m Inr by (simp add: seq_def)
    ultimately show ?thesis by (rule tripleD [OF assms(2)])
  qed
qed

lemma triple_pure: "(\<And>s. P s \<Longrightarrow> Q x s) \<Longrightarrow> triple P (pure x) Q E"
  by (simp add: triple_def pure_def)

lemma triple_throw: "(\<And>s. P s \<Longrightarrow> E e s) \<Longrightarrow> triple P (throw e) Q E"
  by (simp add: triple_def throw_def)

lemma triple_require:
  "(\<And>s. P s \<Longrightarrow> c \<Longrightarrow> Q () s) \<Longrightarrow> (\<And>s. P s \<Longrightarrow> \<not> c \<Longrightarrow> E e s) \<Longrightarrow> triple P (require c e) Q E"
  by (simp add: triple_def require_def act_defs)

lemma triple_from_result:
  "(\<And>s x. P s \<Longrightarrow> r = Inr x \<Longrightarrow> Q x s) \<Longrightarrow> (\<And>s e. P s \<Longrightarrow> r = Inl e \<Longrightarrow> E e s) \<Longrightarrow>
   triple P (from_result r) Q E"
  by (auto simp: triple_def from_result_def split: sum.splits)

lemma triple_attempt [triple_rules]:
  fixes m :: "('s, 'e, 'a) act" and E :: "'f \<Rightarrow> 's \<Rightarrow> bool"
  assumes "triple P m (\<lambda>x. Q (Inr x)) (\<lambda>e. Q (Inl e))"
  shows "triple P (attempt m) Q E"
  unfolding triple_def
proof (intro allI impI)
  fix s s' and r :: "'f + 'e + 'a"
  assume "P s" and "attempt m s = Some (r, s')"
  then obtain q where r: "r = Inr q" and m: "m s = Some (q, s')"
    by (auto simp: attempt_def bind_eq_Some_conv)
  from tripleD [OF assms \<open>P s\<close> m] show "case r of Inl e \<Rightarrow> E e s' | Inr x \<Rightarrow> Q x s'"
    by (cases q) (simp_all add: r)
qed

lemma triple_with_error [triple_rules]:
  assumes "triple P m Q (\<lambda>e. E (f e))"
  shows "triple P (with_error f m) Q E"
  unfolding triple_def
proof (intro allI impI)
  fix s r s'
  assume "P s" and "with_error f m s = Some (r, s')"
  then obtain q where r: "r = map_err f q" and m: "m s = Some (q, s')"
    by (auto simp: with_error_def bind_eq_Some_conv)
  from tripleD [OF assms \<open>P s\<close> m] show "case r of Inl e \<Rightarrow> E e s' | Inr x \<Rightarrow> Q x s'"
    by (cases q) (simp_all add: r)
qed

lemma triple_perform:
  "(\<And>s r s'. P s \<Longrightarrow> f s = (r, s') \<Longrightarrow> (case r of Inl e \<Rightarrow> E e s' | Inr x \<Rightarrow> Q x s')) \<Longrightarrow>
   triple P (perform f) Q E"
  by (simp add: triple_def perform_def)

lemma triple_inspect: "(\<And>s. P s \<Longrightarrow> Q (f s) s) \<Longrightarrow> triple P (inspect f) Q E"
  by (simp add: triple_def inspect_def)

lemma triple_modify: "(\<And>s. P s \<Longrightarrow> Q () (f s)) \<Longrightarrow> triple P (modify f) Q E"
  by (simp add: triple_def modify_def)

lemma triple_if [triple_rules]:
  "(c \<Longrightarrow> triple P m Q E) \<Longrightarrow> (\<not> c \<Longrightarrow> triple P n Q E) \<Longrightarrow> triple P (if c then m else n) Q E"
  by simp

lemma triple_case_sum [triple_rules]:
  "(\<And>e. r = Inl e \<Longrightarrow> triple P (m e) Q E) \<Longrightarrow> (\<And>x. r = Inr x \<Longrightarrow> triple P (n x) Q E) \<Longrightarrow>
   triple P (case r of Inl e \<Rightarrow> m e | Inr x \<Rightarrow> n x) Q E"
  by (cases r) simp_all

lemma triple_case_option [triple_rules]:
  "(r = None \<Longrightarrow> triple P m Q E) \<Longrightarrow> (\<And>x. r = Some x \<Longrightarrow> triple P (n x) Q E) \<Longrightarrow>
   triple P (case r of None \<Rightarrow> m | Some x \<Rightarrow> n x) Q E"
  by (cases r) simp_all

lemma triple_conseq:
  "triple P' m Q' E' \<Longrightarrow> (\<And>s. P s \<Longrightarrow> P' s) \<Longrightarrow> (\<And>x s. Q' x s \<Longrightarrow> Q x s) \<Longrightarrow>
   (\<And>e s. E' e s \<Longrightarrow> E e s) \<Longrightarrow> triple P m Q E"
  unfolding triple_def by (metis (no_types, lifting) sum.case_eq_if)

lemma triple_frame: "triple P m Q E \<Longrightarrow> triple (\<lambda>s. P s \<and> B) m (\<lambda>x s. Q x s \<and> B) E"
  by (cases B) (simp_all add: triple_def)

lemma triple_assume: "(B \<Longrightarrow> triple P m Q E) \<Longrightarrow> triple (\<lambda>s. P s \<and> B) m Q E"
  by (cases B) (simp_all add: triple_def)

section \<open>Termination\<close>

named_theorems returns_rules "rules for returning actions"

definition returns :: "('s \<Rightarrow> bool) \<Rightarrow> ('s, 'e, 'a) act \<Rightarrow> bool" where
  "returns P m \<longleftrightarrow> (\<forall>s. P s \<longrightarrow> m s \<noteq> None)"

lemma returns_simps [simp]:
  "returns P (pure x)" "returns P (throw e)" "returns P (require c e)" "returns P (from_result r)"
  "returns P (perform f)" "returns P (inspect g)" "returns P (modify h)"
  by (simp_all add: returns_def act_defs)

lemma returns_attempt [returns_rules]: "returns P m \<Longrightarrow> returns P (attempt m)"
  by (auto simp: returns_def attempt_def)

lemma returns_seq [returns_rules]:
  assumes "returns P m" and "triple P m R (\<lambda>_ _. True)" and "\<And>x. returns (R x) (k x)"
  shows "returns P (seq m k)"
  unfolding returns_def
proof (intro allI impI)
  fix s
  assume "P s"
  with assms(1) obtain r t where m: "m s = Some (r, t)" by (auto simp: returns_def)
  then show "seq m k s \<noteq> None"
    using tripleD [OF assms(2) \<open>P s\<close> m] assms(3) by (cases r) (auto simp: seq_def returns_def)
qed

lemma returns_seq_any [returns_rules]:
  "returns (\<lambda>_. True) m \<Longrightarrow> (\<And>x. returns (\<lambda>_. True) (k x)) \<Longrightarrow> returns (\<lambda>_. True) (seq m k)"
  by (rule returns_seq) (auto simp: triple_def split: sum.splits)

lemma returns_if [returns_rules]:
  "(c \<Longrightarrow> returns P m) \<Longrightarrow> (\<not> c \<Longrightarrow> returns P n) \<Longrightarrow> returns P (if c then m else n)"
  by simp

lemma returns_case_sum [returns_rules]:
  "(\<And>e. r = Inl e \<Longrightarrow> returns P (m e)) \<Longrightarrow> (\<And>x. r = Inr x \<Longrightarrow> returns P (n x)) \<Longrightarrow>
   returns P (case r of Inl e \<Rightarrow> m e | Inr x \<Rightarrow> n x)"
  by (cases r) simp_all

lemma returns_case_option [returns_rules]:
  "(r = None \<Longrightarrow> returns P m) \<Longrightarrow> (\<And>x. r = Some x \<Longrightarrow> returns P (n x)) \<Longrightarrow>
   returns P (case r of None \<Rightarrow> m | Some x \<Rightarrow> n x)"
  by (cases r) simp_all

lemma returnsD: "returns P m \<Longrightarrow> P s \<Longrightarrow> \<exists>r s'. m s = Some (r, s')"
  by (auto simp: returns_def)

section \<open>Clean-up on errors\<close>

text \<open>An early return drops the values in scope: \<open>or_drop cleanup m\<close> runs \<open>m\<close>, and \<open>cleanup\<close> after an error.\<close>

definition or_drop :: "('s \<Rightarrow> 's) \<Rightarrow> ('s, 'e, 'a) act \<Rightarrow> ('s, 'e, 'a) act" where
  "or_drop cleanup m s =
     Option.bind (m s) (\<lambda>(r, s'). Some (r, case r of Inl _ \<Rightarrow> cleanup s' | Inr _ \<Rightarrow> s'))"

section \<open>Refinement of a result\<close>

text \<open>
  \<open>agrees P m r Q E\<close>: started in \<open>P\<close>, the action \<open>m\<close> returns what the effect-free computation \<open>r\<close> gives,
  the same error in a state of \<open>E\<close> or two values related by \<open>Q\<close>.
\<close>

definition agrees ::
  "('s \<Rightarrow> bool) \<Rightarrow> ('s, 'e, 'a) act \<Rightarrow> 'e + 'b \<Rightarrow> ('a \<Rightarrow> 'b \<Rightarrow> 's \<Rightarrow> bool) \<Rightarrow> ('s \<Rightarrow> bool) \<Rightarrow> bool"
where
  "agrees P m r Q E \<longleftrightarrow>
     (\<forall>s. P s \<longrightarrow> (case m s of
        None \<Rightarrow> False
      | Some (Inl e, s') \<Rightarrow> r = Inl e \<and> E s'
      | Some (Inr x, s') \<Rightarrow> (\<exists>y. r = Inr y \<and> Q x y s')))"

lemma agrees_by_run:
  assumes "\<And>s. P s \<Longrightarrow> (\<exists>e s'. m s = Some (Inl e, s') \<and> r = Inl e \<and> E s') \<or>
    (\<exists>x y s'. m s = Some (Inr x, s') \<and> r = Inr y \<and> Q x y s')"
  shows "agrees P m r Q E"
  unfolding agrees_def
proof (intro allI impI)
  fix s
  assume "P s"
  from assms [OF this] show "case m s of
        None \<Rightarrow> False
      | Some (Inl e, s') \<Rightarrow> r = Inl e \<and> E s'
      | Some (Inr x, s') \<Rightarrow> (\<exists>y. r = Inr y \<and> Q x y s')" by auto
qed

lemma agreesE:
  assumes "agrees P m r Q E" and "P s"
  obtains (failed) e s' where "m s = Some (Inl e, s')" "r = Inl e" "E s'"
  | (returned) x y s' where "m s = Some (Inr x, s')" "r = Inr y" "Q x y s'"
proof -
  have run: "case m s of
        None \<Rightarrow> False
      | Some (Inl e, s') \<Rightarrow> r = Inl e \<and> E s'
      | Some (Inr x, s') \<Rightarrow> (\<exists>y. r = Inr y \<and> Q x y s')"
    using assms by (simp add: agrees_def)
  then obtain q s' where m: "m s = Some (q, s')" by (cases "m s") auto
  show thesis
  proof (cases q)
    case (Inl e)
    with run m have "r = Inl e" "E s'" by simp_all
    then show ?thesis using failed m Inl by simp
  next
    case (Inr x)
    with run m obtain y where "r = Inr y" "Q x y s'" by auto
    then show ?thesis using returned m Inr by simp
  qed
qed

lemma agrees_seq:
  assumes "agrees P m r R E" and "\<And>x y. agrees (R x y) (k x) (f y) Q E"
  shows "agrees P (seq m k) (and_then r f) Q E"
proof (rule agrees_by_run)
  fix s
  assume "P s"
  with assms(1) show "(\<exists>e s'. seq m k s = Some (Inl e, s') \<and> and_then r f = Inl e \<and> E s') \<or>
    (\<exists>x y s'. seq m k s = Some (Inr x, s') \<and> and_then r f = Inr y \<and> Q x y s')"
  proof (cases rule: agreesE)
    case (returned x y s')
    from assms(2) returned(3) show ?thesis
      by (cases rule: agreesE) (simp_all add: seq_def returned)
  qed (simp add: seq_def)
qed

lemma agrees_or_drop:
  assumes "agrees P m r Q E'" and "\<And>s. E' s \<Longrightarrow> E (cleanup s)"
  shows "agrees P (or_drop cleanup m) r Q E"
proof (rule agrees_by_run)
  fix s
  assume "P s"
  with assms(1) show "(\<exists>e s'. or_drop cleanup m s = Some (Inl e, s') \<and> r = Inl e \<and> E s') \<or>
    (\<exists>x y s'. or_drop cleanup m s = Some (Inr x, s') \<and> r = Inr y \<and> Q x y s')"
    by (cases rule: agreesE) (auto simp: or_drop_def assms(2))
qed

lemma agrees_require:
  assumes "\<And>s. P s \<Longrightarrow> E s" and "c \<Longrightarrow> agrees P (k ()) r Q E"
  shows "agrees P (seq (require c e) k) (ensure c e r) Q E"
  using assms by (cases c) (auto simp: agrees_def act_defs)

lemma agrees_from_result:
  assumes "\<And>s. P s \<Longrightarrow> E s" and "\<And>x. r = Inr x \<Longrightarrow> agrees P (k x) (f x) Q E"
  shows "agrees P (seq (from_result r) k) (and_then r f) Q E"
  using assms by (cases r) (auto simp: agrees_def act_defs)

lemma agrees_pure: "(\<And>s. P s \<Longrightarrow> Q x y s) \<Longrightarrow> agrees P (pure x) (Inr y) Q E"
  by (simp add: agrees_def pure_def)

lemma agrees_throw: "(\<And>s. P s \<Longrightarrow> E s) \<Longrightarrow> agrees P (throw e) (Inl e) Q E"
  by (simp add: agrees_def throw_def)

lemma agrees_conseq:
  assumes "agrees P' m r Q' E'" and "\<And>s. P s \<Longrightarrow> P' s" and "\<And>x y s. Q' x y s \<Longrightarrow> Q x y s"
    and "\<And>s. E' s \<Longrightarrow> E s"
  shows "agrees P m r Q E"
proof (rule agrees_by_run)
  fix s
  assume "P s"
  then have "P' s" by (rule assms(2))
  with assms(1) show "(\<exists>e s'. m s = Some (Inl e, s') \<and> r = Inl e \<and> E s') \<or>
    (\<exists>x y s'. m s = Some (Inr x, s') \<and> r = Inr y \<and> Q x y s')"
    by (cases rule: agreesE) (auto intro: assms(3,4))
qed

end
