(* ===== verification/Ring_Descriptors.thy ===== *)
theory Ring_Descriptors
  imports Media_Ring Effects Transition_System "HOL-Library.AList" "HOL-Library.Multiset"
begin

text \<open>
  The descriptors and mappings behind the media ring of \<open>src/wireless/data_plane.rs\<close>:
  \<open>RingPair::create\<close>, the conversion of an endpoint into a \<open>RingDescriptor\<close> and back, and the drops of
  \<open>OwnedFd\<close> and \<open>Mapping\<close> on every exit.

  A process has a table of open descriptors, each referring to a file, and a table of mappings. Whether
  a call succeeds, which free descriptor, address or file number the kernel picks and what \<open>fstat\<close>
  reports are arguments (\<open>os_env\<close>). Files are not reclaimed: only descriptors and mappings count as
  resources. \<open>Media_Ring\<close> gives the same operations on the contents of the memory alone; the lemmas show
  that the two agree on every result and every error, that an error leaves no descriptor and no mapping
  behind, and that over any sequence of operations every open descriptor and mapping has exactly one owner.
\<close>

section \<open>The process\<close>

datatype kernel_file = MemoryFile bool shm | EventFile | OtherFile

record process =
  fd_table :: "(int \<times> nat) list"
  mappings :: "(nat \<times> nat \<times> nat) list"
  files :: "(nat \<times> kernel_file) list"

record os_env =
  calls :: os
  pick_fd :: "int list \<Rightarrow> int"
  pick_address :: "nat list \<Rightarrow> nat"
  pick_file :: "nat list \<Rightarrow> nat"
  stat_size :: "kernel_file \<Rightarrow> int"

type_synonym 'a sys = "(process, ring_error, 'a) act"

definition EBADF :: nat where
  "EBADF = 9"

definition ENODEV :: nat where
  "ENODEV = 19"

definition EINVAL :: nat where
  "EINVAL = 22"

definition sys_call :: "os_env \<Rightarrow> os_call \<Rightarrow> 'a sys \<Rightarrow> 'a sys" where
  "sys_call env c m = (case calls env c of None \<Rightarrow> m | Some errno \<Rightarrow> throw (OsError c errno))"

definition file_of :: "process \<Rightarrow> int \<Rightarrow> nat option" where
  "file_of p fd = map_of (fd_table p) fd"

definition install_fd :: "os_env \<Rightarrow> nat \<Rightarrow> int sys" where
  "install_fd env f = perform (\<lambda>p.
     let fd = pick_fd env (map fst (fd_table p)) in (Inr fd, p\<lparr>fd_table := (fd, f) # fd_table p\<rparr>))"

definition open_file :: "os_env \<Rightarrow> kernel_file \<Rightarrow> int sys" where
  "open_file env x = seq (perform (\<lambda>p.
       let f = pick_file env (map fst (files p)) in (Inr f, p\<lparr>files := (f, x) # files p\<rparr>)))
     (install_fd env)"

definition set_file :: "int \<Rightarrow> kernel_file \<Rightarrow> process \<Rightarrow> process" where
  "set_file fd x p =
     (case file_of p fd of None \<Rightarrow> p | Some f \<Rightarrow> p\<lparr>files := AList.update f x (files p)\<rparr>)"

text \<open>The drop of an \<open>OwnedFd\<close>.\<close>

definition close_owned :: "int \<Rightarrow> process \<Rightarrow> process" where
  "close_owned fd p = p\<lparr>fd_table := AList.delete fd (fd_table p)\<rparr>"

section \<open>Helpers of the ring\<close>

text \<open>A new memfd is empty; \<open>ftruncate\<close> sizes it with zeros and the seals fix its size.\<close>

definition memfd_open :: "os_env \<Rightarrow> nat \<Rightarrow> int sys" where
  "memfd_open env len =
     sys_call env MemfdCreate (seq (open_file env (MemoryFile False (zero_memory 0))) (\<lambda>fd.
     or_drop (close_owned fd) (
     sys_call env Ftruncate (seq (modify (set_file fd (MemoryFile False (zero_memory len)))) (\<lambda>_.
     sys_call env AddSeals (seq (modify (set_file fd (MemoryFile True (zero_memory len)))) (\<lambda>_.
     pure fd)))))))"

definition fd_len :: "os_env \<Rightarrow> int \<Rightarrow> nat sys" where
  "fd_len env fd =
     sys_call env Fstat (seq (inspect (\<lambda>p. Option.bind (file_of p fd) (map_of (files p)))) (\<lambda>x.
     case x of
       None \<Rightarrow> throw (OsError Fstat EBADF)
     | Some y \<Rightarrow> if stat_size env y < 0 then throw NegativeMemfdSize else pure (nat (stat_size env y))))"

definition create_eventfd :: "os_env \<Rightarrow> int sys" where
  "create_eventfd env = sys_call env EventfdCreate (open_file env EventFile)"

definition duplicate_fd :: "os_env \<Rightarrow> os_call \<Rightarrow> int \<Rightarrow> int sys" where
  "duplicate_fd env c fd =
     sys_call env c (seq (inspect (\<lambda>p. file_of p fd)) (\<lambda>x.
     case x of None \<Rightarrow> throw (OsError c EBADF) | Some f \<Rightarrow> install_fd env f))"

record Mapping =
  map_address :: nat
  map_bytes :: nat

text \<open>\<open>Mapping::shared\<close>: an empty range and a file without memory cannot be mapped.\<close>

definition mapping_shared :: "os_env \<Rightarrow> os_call \<Rightarrow> int \<Rightarrow> nat \<Rightarrow> Mapping sys" where
  "mapping_shared env c fd len =
     sys_call env c (\<lambda>p.
     case file_of p fd of
       None \<Rightarrow> throw (OsError c EBADF) p
     | Some f \<Rightarrow>
         if len = 0 then throw (OsError c EINVAL) p
         else (case map_of (files p) f of
           Some (MemoryFile _ _) \<Rightarrow>
             (let a = pick_address env (map fst (mappings p)) in
              Some (Inr \<lparr>map_address = a, map_bytes = len\<rparr>, p\<lparr>mappings := (a, f, len) # mappings p\<rparr>))
         | _ \<Rightarrow> throw (OsError c ENODEV) p))"

definition drop_mapping :: "Mapping \<Rightarrow> process \<Rightarrow> process" where
  "drop_mapping a p = p\<lparr>mappings := AList.delete (map_address a) (mappings p)\<rparr>"

text \<open>The bytes that can be reached through a mapping, up to the end of the file behind it.\<close>

definition mapped_file :: "process \<Rightarrow> Mapping \<Rightarrow> (nat \<times> nat \<times> bool \<times> shm) option" where
  "mapped_file p a =
     (case map_of (mappings p) (map_address a) of
        None \<Rightarrow> None
      | Some (f, n) \<Rightarrow> (case map_of (files p) f of
          Some (MemoryFile sealed m) \<Rightarrow> Some (f, n, sealed, m)
        | _ \<Rightarrow> None))"

definition reach :: "nat \<Rightarrow> shm \<Rightarrow> shm" where
  "reach n m = m\<lparr>map_len := min n (map_len m)\<rparr>"

definition mapped_header :: "Mapping \<Rightarrow> RingHeader sys" where
  "mapped_header a p =
     (case mapped_file p a of
        None \<Rightarrow> throw UndefinedBehaviour p
      | Some (_, n, _, m) \<Rightarrow> from_result (header (reach n m)) p)"

definition mapped_write_header :: "Mapping \<Rightarrow> RingHeader \<Rightarrow> unit sys" where
  "mapped_write_header a h p =
     (case mapped_file p a of
        None \<Rightarrow> throw UndefinedBehaviour p
      | Some (f, n, sealed, m) \<Rightarrow> (case write_header (reach n m) h of
          Inl e \<Rightarrow> throw e p
        | Inr m' \<Rightarrow> Some (Inr (),
            p\<lparr>files := AList.update f (MemoryFile sealed (m'\<lparr>map_len := map_len m\<rparr>)) (files p)\<rparr>)))"

section \<open>Endpoints and descriptors\<close>

record RingDescriptor =
  memory_fd :: int
  event_fd :: int

definition from_owned_fds :: "int \<Rightarrow> int \<Rightarrow> RingDescriptor" where
  "from_owned_fds m e = \<lparr>memory_fd = m, event_fd = e\<rparr>"

definition into_owned_fds :: "RingDescriptor \<Rightarrow> int \<times> int" where
  "into_owned_fds d = (memory_fd d, event_fd d)"

record Producer =
  p_memory_fd :: int
  p_event_fd :: int
  p_mapping :: Mapping

record Consumer =
  c_memory_fd :: int
  c_event_fd :: int
  c_mapping :: Mapping

definition pair_create :: "os_env \<Rightarrow> u32 \<Rightarrow> u32 \<Rightarrow> (Producer \<times> Consumer) sys" where
  "pair_create env n cap =
     seq (require (n \<ge> 2) RingNeedsTwoSlots) (\<lambda>_.
     seq (require (cap > 0) RingCapacityZero) (\<lambda>_.
     seq (from_result (ok_or (checked_add (of_nat size_of_FrameDescriptor :: usize) (ucast cap))
            SlotSizeOverflow)) (\<lambda>slot_bytes.
     let stride = align_up slot_bytes (of_nat CACHE_LINE) in
     seq (from_result (ok_or (checked_mul stride (ucast n)) RingSizeOverflow)) (\<lambda>slots.
     seq (from_result (ok_or (checked_add (of_nat size_of_RingHeader) slots) RingSizeOverflow)) (\<lambda>len.
     seq (require (stride \<le> 0xffffffff) SlotStrideExceedsAbi) (\<lambda>_.
     seq (memfd_open env (unat len)) (\<lambda>mem. or_drop (close_owned mem) (
     seq (duplicate_fd env DupMemory mem) (\<lambda>consumer_mem. or_drop (close_owned consumer_mem) (
     seq (create_eventfd env) (\<lambda>event. or_drop (close_owned event) (
     seq (duplicate_fd env DupEvent event) (\<lambda>consumer_event. or_drop (close_owned consumer_event) (
     seq (mapping_shared env MmapProducer mem (unat len)) (\<lambda>producer_map.
     or_drop (drop_mapping producer_map) (
     seq (require (map_address producer_map mod 64 = 0) MmapMisaligned) (\<lambda>_.
     seq (mapped_write_header producer_map (initial_header n stride cap)) (\<lambda>_.
     seq (mapping_shared env MmapConsumer consumer_mem (unat len)) (\<lambda>consumer_map.
     or_drop (drop_mapping consumer_map) (
     seq (mapped_header consumer_map) (\<lambda>h.
     seq (from_result (validate_header h (unat len))) (\<lambda>_.
     sys_call env AsyncFdNew (pure
       (\<lparr>p_memory_fd = mem, p_event_fd = event, p_mapping = producer_map\<rparr>,
        \<lparr>c_memory_fd = consumer_mem, c_event_fd = consumer_event,
         c_mapping = consumer_map\<rparr>))))))))))))))))))))))))"

definition producer_into_descriptor :: "Producer \<Rightarrow> process \<Rightarrow> RingDescriptor \<times> process" where
  "producer_into_descriptor e p =
     (from_owned_fds (p_memory_fd e) (p_event_fd e), drop_mapping (p_mapping e) p)"

definition consumer_into_descriptor :: "Consumer \<Rightarrow> process \<Rightarrow> RingDescriptor \<times> process" where
  "consumer_into_descriptor e p =
     (from_owned_fds (c_memory_fd e) (c_event_fd e), drop_mapping (c_mapping e) p)"

definition producer_attach :: "os_env \<Rightarrow> RingDescriptor \<Rightarrow> Producer sys" where
  "producer_attach env d =
     (let (mem, event) = into_owned_fds d in
      or_drop (\<lambda>p. close_owned mem (close_owned event p)) (
      seq (fd_len env mem) (\<lambda>len.
      seq (mapping_shared env MmapProducer mem len) (\<lambda>a. or_drop (drop_mapping a) (
      seq (mapped_header a) (\<lambda>h.
      seq (from_result (validate_header h len)) (\<lambda>_.
      pure \<lparr>p_memory_fd = mem, p_event_fd = event, p_mapping = a\<rparr>)))))))"

definition consumer_attach :: "os_env \<Rightarrow> RingDescriptor \<Rightarrow> Consumer sys" where
  "consumer_attach env d =
     (let (mem, event) = into_owned_fds d in
      or_drop (\<lambda>p. close_owned mem (close_owned event p)) (
      seq (fd_len env mem) (\<lambda>len.
      seq (mapping_shared env MmapConsumer mem len) (\<lambda>a. or_drop (drop_mapping a) (
      seq (mapped_header a) (\<lambda>h.
      seq (from_result (validate_header h len)) (\<lambda>_.
      sys_call env AsyncFdNew (pure \<lparr>c_memory_fd = mem, c_event_fd = event, c_mapping = a\<rparr>))))))))"

text \<open>Dropping an endpoint or a descriptor drops its fields in their order.\<close>

definition drop_producer :: "Producer \<Rightarrow> process \<Rightarrow> process" where
  "drop_producer e p =
     drop_mapping (p_mapping e) (close_owned (p_event_fd e) (close_owned (p_memory_fd e) p))"

definition drop_consumer :: "Consumer \<Rightarrow> process \<Rightarrow> process" where
  "drop_consumer e p =
     drop_mapping (c_mapping e) (close_owned (c_event_fd e) (close_owned (c_memory_fd e) p))"

definition drop_descriptor :: "RingDescriptor \<Rightarrow> process \<Rightarrow> process" where
  "drop_descriptor d p = close_owned (event_fd d) (close_owned (memory_fd d) p)"

section \<open>Agreement with the operations on the memory\<close>

text \<open>
  What the kernel promises: a new descriptor, address or file number is not in use, an address is not
  null, and \<open>fstat\<close> reports the size of a memory file.
\<close>

definition fresh_env :: "os_env \<Rightarrow> bool" where
  "fresh_env env \<longleftrightarrow>
     (\<forall>xs. 0 \<le> pick_fd env xs \<and> pick_fd env xs \<notin> set xs) \<and>
     (\<forall>xs. 0 < pick_address env xs \<and> pick_address env xs \<notin> set xs) \<and>
     (\<forall>xs. pick_file env xs \<notin> set xs) \<and>
     (\<forall>sealed m. stat_size env (MemoryFile sealed m) = int (map_len m))"

definition tables ::
  "(int \<times> nat) list \<Rightarrow> (nat \<times> nat \<times> nat) list \<Rightarrow> (nat \<rightharpoonup> kernel_file) \<Rightarrow> process \<Rightarrow> bool"
where
  "tables F M G p \<longleftrightarrow> fd_table p = F \<and> mappings p = M \<and> map_of (files p) = G"

definition restored ::
  "(int \<times> nat) list \<Rightarrow> (nat \<times> nat \<times> nat) list \<Rightarrow> (nat \<rightharpoonup> kernel_file) \<Rightarrow> process \<Rightarrow> bool"
where
  "restored F M G p \<longleftrightarrow> fd_table p = F \<and> mappings p = M \<and> G \<subseteq>\<^sub>m map_of (files p)"

lemma restoredI: "tables F M G p \<Longrightarrow> G0 \<subseteq>\<^sub>m G \<Longrightarrow> restored F M G0 p"
  by (simp add: tables_def restored_def)

lemma fresh_envD:
  assumes "fresh_env env"
  shows "pick_fd env (map fst F) \<notin> fst ` set F" and "pick_address env (map fst M) \<notin> fst ` set M"
    and "map_of xs (pick_file env (map fst xs)) = None"
    and "stat_size env (MemoryFile sealed m) = int (map_len m)"
proof -
  show "pick_fd env (map fst F) \<notin> fst ` set F" "pick_address env (map fst M) \<notin> fst ` set M"
    using assms unfolding fresh_env_def by (metis set_map)+
  show "map_of xs (pick_file env (map fst xs)) = None"
    using assms unfolding fresh_env_def by (metis map_of_eq_None_iff set_map)
  show "stat_size env (MemoryFile sealed m) = int (map_len m)"
    using assms by (simp add: fresh_env_def)
qed

lemma agrees_sys_call:
  assumes "agrees P m r Q E" and "\<And>s. P s \<Longrightarrow> E s"
  shows "agrees P (sys_call env c m) (os_run (calls env) c r) Q E"
  using assms by (cases "calls env c") (auto simp: sys_call_def os_run_def intro: agrees_throw)

lemma close_first: "fd \<notin> fst ` set F \<Longrightarrow> restored ((fd, f) # F) M G p \<Longrightarrow> restored F M G (close_owned fd p)"
  by (simp add: restored_def close_owned_def)

lemma unmap_first:
  "map_address a \<notin> fst ` set M \<Longrightarrow> restored F ((map_address a, f, n) # M) G p \<Longrightarrow>
   restored F M G (drop_mapping a p)"
  by (simp add: restored_def drop_mapping_def)

lemma run_duplicate:
  assumes "file_of p fd = Some f" and "calls env c = None"
  shows "duplicate_fd env c fd p =
    Some (Inr (pick_fd env (map fst (fd_table p))),
          p\<lparr>fd_table := (pick_fd env (map fst (fd_table p)), f) # fd_table p\<rparr>)"
  using assms by (simp add: duplicate_fd_def sys_call_def act_defs install_fd_def Let_def)

lemma agrees_duplicate:
  assumes env: "fresh_env env" and fd: "map_of F fd = Some f" and G: "G0 \<subseteq>\<^sub>m G"
    and k: "\<And>d. d \<notin> fst ` set F \<Longrightarrow>
      agrees (tables ((d, f) # F) M G) (k d) r Q (restored ((d, f) # F) M G0)"
  shows "agrees (tables F M G) (seq (duplicate_fd env c fd) (\<lambda>d. or_drop (close_owned d) (k d)))
    (os_run (calls env) c r) Q (restored F M G0)"
proof (cases "calls env c")
  case None
  let ?d = "pick_fd env (map fst F)"
  have d: "?d \<notin> fst ` set F" by (rule fresh_envD(1) [OF env])
  have "agrees (tables F M G) (\<lambda>p. or_drop (close_owned ?d) (k ?d) (p\<lparr>fd_table := (?d, f) # F\<rparr>)) r Q
      (restored F M G0)"
    using agrees_or_drop [OF k [OF d], of "restored F M G0" "close_owned ?d", OF close_first [OF d]]
    by (simp add: agrees_def tables_def)
  then show ?thesis
    using fd None by (simp add: agrees_def tables_def seq_def run_duplicate file_of_def)
next
  case (Some errno)
  then show ?thesis
    using restoredI [OF _ G] by (simp add: agrees_def duplicate_fd_def sys_call_def os_run_def act_defs)
qed

lemma map_le_new: "G0 \<subseteq>\<^sub>m G \<Longrightarrow> G f = None \<Longrightarrow> G0 \<subseteq>\<^sub>m G(f \<mapsto> x)"
  by (auto simp: map_le_def dom_def)

lemma run_open_file:
  assumes "fresh_env env" and "tables F M G p"
  shows "\<exists>d f p'. open_file env x p = Some (Inr d, p') \<and> d \<notin> fst ` set F \<and> G f = None \<and>
    tables ((d, f) # F) M (G(f \<mapsto> x)) p'"
  using assms(2) fresh_envD(1) [OF assms(1), of F] fresh_envD(3) [OF assms(1), of "files p"]
  by (auto simp: open_file_def install_fd_def act_defs tables_def Let_def)

lemma agrees_opened:
  assumes run: "\<And>p. tables F M G p \<Longrightarrow> \<exists>d f p'. m p = Some (Inr d, p') \<and> d \<notin> fst ` set F \<and> G f = None \<and>
      tables ((d, f) # F) M (G(f \<mapsto> x)) p'"
    and k: "\<And>d f. d \<notin> fst ` set F \<Longrightarrow> G f = None \<Longrightarrow>
      agrees (tables ((d, f) # F) M (G(f \<mapsto> x))) (k d) r Q (restored ((d, f) # F) M G0)"
  shows "agrees (tables F M G) (seq m (\<lambda>d. or_drop (close_owned d) (k d))) r Q (restored F M G0)"
proof (rule agrees_by_run)
  fix p
  assume "tables F M G p"
  from run [OF this] obtain d f p' where m: "m p = Some (Inr d, p')" and d: "d \<notin> fst ` set F"
    and f: "G f = None" and p': "tables ((d, f) # F) M (G(f \<mapsto> x)) p'" by blast
  have "agrees (tables ((d, f) # F) M (G(f \<mapsto> x))) (or_drop (close_owned d) (k d)) r Q (restored F M G0)"
    by (rule agrees_or_drop [OF k [OF d f]]) (rule close_first [OF d])
  from this p' show "(\<exists>e s'. seq m (\<lambda>d. or_drop (close_owned d) (k d)) p = Some (Inl e, s') \<and> r = Inl e \<and>
      restored F M G0 s') \<or>
    (\<exists>x y s'. seq m (\<lambda>d. or_drop (close_owned d) (k d)) p = Some (Inr x, s') \<and> r = Inr y \<and> Q x y s')"
    by (cases rule: agreesE) (simp_all add: seq_def m)
qed

lemma agrees_eventfd:
  assumes env: "fresh_env env" and G: "G0 \<subseteq>\<^sub>m G"
    and k: "\<And>d f. d \<notin> fst ` set F \<Longrightarrow> G f = None \<Longrightarrow>
      agrees (tables ((d, f) # F) M (G(f \<mapsto> EventFile))) (k d) r Q (restored ((d, f) # F) M G0)"
  shows "agrees (tables F M G) (seq (create_eventfd env) (\<lambda>d. or_drop (close_owned d) (k d)))
    (os_run (calls env) EventfdCreate r) Q (restored F M G0)"
proof (cases "calls env EventfdCreate")
  case None
  then have run: "create_eventfd env = open_file env EventFile"
    by (simp add: create_eventfd_def sys_call_def)
  have "agrees (tables F M G) (seq (create_eventfd env) (\<lambda>d. or_drop (close_owned d) (k d))) r Q
      (restored F M G0)"
    unfolding run by (rule agrees_opened [OF run_open_file [OF env] k])
  then show ?thesis by (simp add: None)
next
  case (Some errno)
  then show ?thesis
    using restoredI [OF _ G] by (simp add: agrees_def create_eventfd_def sys_call_def os_run_def act_defs)
qed

lemma set_file_tables:
  "tables ((d, f) # F) M G p \<Longrightarrow> tables ((d, f) # F) M (G(f \<mapsto> x)) (set_file d x p)"
  by (auto simp: set_file_def file_of_def tables_def update_conv')

lemma agrees_memfd:
  assumes env: "fresh_env env" and G: "G0 \<subseteq>\<^sub>m G"
    and k: "\<And>d f. d \<notin> fst ` set F \<Longrightarrow> G f = None \<Longrightarrow>
      agrees (tables ((d, f) # F) M (G(f \<mapsto> MemoryFile True (zero_memory len)))) (k d) (g (zero_memory len)) Q
        (restored ((d, f) # F) M G0)"
  shows "agrees (tables F M G) (seq (memfd_open env len) (\<lambda>d. or_drop (close_owned d) (k d)))
    (and_then (create_memfd (calls env) len) g) Q (restored F M G0)"
proof (cases "calls env MemfdCreate")
  case (Some errno)
  then show ?thesis
    using restoredI [OF _ G]
    by (simp add: agrees_def memfd_open_def create_memfd_def sys_call_def os_run_def act_defs)
next
  case opened: None
  let ?whole = "seq (memfd_open env len) (\<lambda>d. or_drop (close_owned d) (k d))"
  show ?thesis
  proof (cases "calls env Ftruncate = None \<and> calls env AddSeals = None")
    case True
    have run: "\<exists>d f p'. memfd_open env len p = Some (Inr d, p') \<and> d \<notin> fst ` set F \<and> G f = None \<and>
        tables ((d, f) # F) M (G(f \<mapsto> MemoryFile True (zero_memory len))) p'" if p: "tables F M G p" for p
    proof -
      obtain d f p' where run: "open_file env (MemoryFile False (zero_memory 0)) p = Some (Inr d, p')"
        and d: "d \<notin> fst ` set F" "G f = None"
        and p': "tables ((d, f) # F) M (G(f \<mapsto> MemoryFile False (zero_memory 0))) p'"
        using run_open_file [OF env p] by blast
      have "tables ((d, f) # F) M (G(f \<mapsto> MemoryFile True (zero_memory len)))
        (set_file d (MemoryFile True (zero_memory len)) (set_file d (MemoryFile False (zero_memory len)) p'))"
        using set_file_tables [OF set_file_tables [OF p']] by simp
      then show ?thesis
        using d True opened by (auto simp: memfd_open_def sys_call_def or_drop_def act_defs run)
    qed
    have "agrees (tables F M G) ?whole (g (zero_memory len)) Q (restored F M G0)"
      by (rule agrees_opened [OF run k])
    then show ?thesis using True opened by (simp add: create_memfd_def)
  next
    case False
    have "\<exists>e p'. memfd_open env len p = Some (Inl e, p') \<and> create_memfd (calls env) len = Inl e \<and>
        restored F M G0 p'" if p: "tables F M G p" for p
    proof -
      obtain d f p' where run: "open_file env (MemoryFile False (zero_memory 0)) p = Some (Inr d, p')"
        and d: "d \<notin> fst ` set F" "G f = None"
        and p': "tables ((d, f) # F) M (G(f \<mapsto> MemoryFile False (zero_memory 0))) p'"
        using run_open_file [OF env p] by blast
      have le: "G0 \<subseteq>\<^sub>m G(f \<mapsto> x)" for x
        by (rule map_le_new [OF G d(2)])
      show ?thesis
        using False opened
          close_first [OF d(1) restoredI [OF p' le]]
          close_first [OF d(1) restoredI [OF set_file_tables [OF p'] ]] le
        by (auto simp: memfd_open_def create_memfd_def sys_call_def os_run_def or_drop_def act_defs run
            split: option.splits)
    qed
    then have "agrees (tables F M G) (memfd_open env len) (create_memfd (calls env) len) (\<lambda>_ _ _. False)
        (restored F M G0)" by (intro agrees_by_run) blast
    then show ?thesis by (rule agrees_seq) (simp add: agrees_def)
  qed
qed

lemma agrees_map:
  assumes env: "fresh_env env" and fd: "map_of F fd = Some f" and f: "G f = Some (MemoryFile sealed m)"
    and len: "0 < len" and G: "G0 \<subseteq>\<^sub>m G"
    and k: "\<And>a. a = pick_address env (map fst M) \<Longrightarrow> a \<notin> fst ` set M \<Longrightarrow>
      agrees (tables F ((a, f, len) # M) G) (k \<lparr>map_address = a, map_bytes = len\<rparr>) r Q
        (restored F ((a, f, len) # M) G0)"
  shows "agrees (tables F M G) (seq (mapping_shared env c fd len) (\<lambda>a. or_drop (drop_mapping a) (k a)))
    (os_run (calls env) c r) Q (restored F M G0)"
proof (cases "calls env c")
  case None
  let ?a = "pick_address env (map fst M)"
  let ?m = "\<lparr>map_address = ?a, map_bytes = len\<rparr>"
  have a: "map_address ?m \<notin> fst ` set M" using fresh_envD(2) [OF env] by simp
  have "agrees (tables F ((?a, f, len) # M) G) (or_drop (drop_mapping ?m) (k ?m)) r Q (restored F M G0)"
  proof (rule agrees_or_drop)
    show "agrees (tables F ((?a, f, len) # M) G) (k ?m) r Q (restored F ((?a, f, len) # M) G0)"
      using k a by simp
    show "restored F M G0 (drop_mapping ?m p)" if "restored F ((?a, f, len) # M) G0 p" for p
      using unmap_first [OF a] that by simp
  qed
  then have "agrees (tables F M G) (\<lambda>p. or_drop (drop_mapping ?m) (k ?m) (p\<lparr>mappings := (?a, f, len) # M\<rparr>))
      r Q (restored F M G0)"
    by (simp add: agrees_def tables_def)
  then show ?thesis
    using fd f len None
    by (simp add: agrees_def tables_def seq_def mapping_shared_def sys_call_def file_of_def Let_def)
next
  case (Some errno)
  then show ?thesis
    using restoredI [OF _ G] by (simp add: agrees_def mapping_shared_def sys_call_def os_run_def act_defs)
qed

lemma reach_same [simp]: "reach (map_len m) m = m"
  by (simp add: reach_def)

lemma agrees_write_header:
  assumes a: "map_of M (map_address a) = Some (f, map_len m)" and f: "G f = Some (MemoryFile sealed m)"
    and G: "G0 \<subseteq>\<^sub>m G"
    and k: "\<And>m'. map_len m' = map_len m \<Longrightarrow>
      agrees (tables F M (G(f \<mapsto> MemoryFile sealed m'))) (k ()) (g m') Q (restored F M G0)"
  shows "agrees (tables F M G) (seq (mapped_write_header a h) k) (and_then (write_header m h) g) Q
    (restored F M G0)"
proof (cases "write_header m h")
  case (Inl e)
  then show ?thesis
    using a f G
    by (simp add: agrees_def tables_def restored_def mapped_write_header_def mapped_file_def act_defs)
next
  case (Inr m')
  then have len: "map_len m' = map_len m" by (auto simp: write_header_def split: if_splits)
  have "agrees (tables F M G)
      (\<lambda>p. k () (p\<lparr>files := AList.update f (MemoryFile sealed m') (files p)\<rparr>)) (g m') Q (restored F M G0)"
    using k [OF len] by (simp add: agrees_def tables_def update_conv')
  moreover have "m'\<lparr>map_len := map_len m\<rparr> = m'" using len by (cases m') simp
  ultimately show ?thesis
    using a f Inr by (simp add: agrees_def tables_def mapped_write_header_def mapped_file_def seq_def)
qed

lemma agrees_header:
  assumes a: "map_of M (map_address a) = Some (f, map_len m)" and f: "G f = Some (MemoryFile sealed m)"
    and G: "G0 \<subseteq>\<^sub>m G"
    and k: "\<And>h. header m = Inr h \<Longrightarrow> agrees (tables F M G) (k h) (g h) Q (restored F M G0)"
  shows "agrees (tables F M G) (seq (mapped_header a) k) (and_then (header m) g) Q (restored F M G0)"
proof (cases "header m")
  case (Inl e)
  then show ?thesis
    using a f G
    by (simp add: agrees_def tables_def restored_def mapped_header_def mapped_file_def act_defs)
next
  case (Inr h)
  then show ?thesis
    using a f k [OF Inr] by (simp add: agrees_def tables_def mapped_header_def mapped_file_def act_defs)
qed

section \<open>Creating a ring\<close>

text \<open>
  The two endpoints of a new ring own four new descriptors, two for the sealed memory and two for the
  eventfd, and two new mappings of the whole memory; nothing else differs from the process before.
\<close>

definition pair_owned :: "process \<Rightarrow> shm \<Rightarrow> Producer \<Rightarrow> Consumer \<Rightarrow> process \<Rightarrow> bool" where
  "pair_owned p0 m pr co p \<longleftrightarrow>
     (\<exists>f e. map_of (files p0) f = None \<and> map_of (files p0) e = None \<and> f \<noteq> e \<and>
        distinct [c_event_fd co, p_event_fd pr, c_memory_fd co, p_memory_fd pr] \<and>
        set [c_event_fd co, p_event_fd pr, c_memory_fd co, p_memory_fd pr] \<inter> fst ` set (fd_table p0) = {} \<and>
        distinct [map_address (c_mapping co), map_address (p_mapping pr)] \<and>
        set [map_address (c_mapping co), map_address (p_mapping pr)] \<inter> fst ` set (mappings p0) = {} \<and>
        map_bytes (c_mapping co) = map_len m \<and> map_bytes (p_mapping pr) = map_len m \<and>
        tables
          ((c_event_fd co, e) # (p_event_fd pr, e) # (c_memory_fd co, f) # (p_memory_fd pr, f) # fd_table p0)
          ((map_address (c_mapping co), f, map_len m) # (map_address (p_mapping pr), f, map_len m) # mappings p0)
          ((map_of (files p0))(e \<mapsto> EventFile, f \<mapsto> MemoryFile True m)) p)"

lemma ring_len_pos:
  "ok_or (checked_add 256 slots) e = Inr len \<Longrightarrow> 0 < unat (len :: usize)"
  by (cases "checked_add 256 slots") (auto simp: ok_or_def dest: checked_add_Some)

lemma le_keeps: "G0 \<subseteq>\<^sub>m G \<Longrightarrow> G0 f = None \<Longrightarrow> G0 \<subseteq>\<^sub>m G(f \<mapsto> x)"
  by (auto simp: map_le_def)

text \<open>The second half of \<open>create\<close>, from the first \<open>mmap\<close> on.\<close>

lemma map_both_agrees:
  assumes env: "fresh_env env" and mem: "map_of F mem = Some f" "map_of F consumer_mem = Some f"
    and f: "G f = Some (MemoryFile True (zero_memory len))" and len: "0 < len"
    and le: "G0 \<subseteq>\<^sub>m G" "G0 f = None"
  shows "agrees (tables F M G)
    (seq (mapping_shared env MmapProducer mem len) (\<lambda>producer_map. or_drop (drop_mapping producer_map) (
     seq (require (map_address producer_map mod 64 = 0) MmapMisaligned) (\<lambda>_.
     seq (mapped_write_header producer_map hdr) (\<lambda>_.
     seq (mapping_shared env MmapConsumer consumer_mem len) (\<lambda>consumer_map.
     or_drop (drop_mapping consumer_map) (
     seq (mapped_header consumer_map) (\<lambda>h.
     seq (from_result (validate_header h len)) (\<lambda>_.
     sys_call env AsyncFdNew (pure (u producer_map consumer_map)))))))))))
    (os_run (calls env) MmapProducer (ensure (pick_address env (map fst M) mod 64 = 0) MmapMisaligned (
     and_then (write_header (zero_memory len) hdr) (\<lambda>m.
     os_run (calls env) MmapConsumer (
     and_then (header m) (\<lambda>h.
     and_then (validate_header h len) (\<lambda>_.
     os_run (calls env) AsyncFdNew (Inr m))))))))
    (\<lambda>x m p. \<exists>a b. x = u \<lparr>map_address = a, map_bytes = len\<rparr> \<lparr>map_address = b, map_bytes = len\<rparr> \<and>
       distinct [b, a] \<and> {b, a} \<inter> fst ` set M = {} \<and> map_len m = len \<and>
       tables F ((b, f, len) # (a, f, len) # M) (G(f \<mapsto> MemoryFile True m)) p)
    (restored F M G0)"
proof (rule agrees_map [OF env mem(1) f len le(1)])
  fix a
  assume a: "a = pick_address env (map fst M)" "a \<notin> fst ` set M"
  let ?A = "\<lparr>map_address = a, map_bytes = len\<rparr>" and ?M = "(a, f, len) # M"
  let ?Q = "\<lambda>x m p. \<exists>a b. x = u \<lparr>map_address = a, map_bytes = len\<rparr> \<lparr>map_address = b, map_bytes = len\<rparr> \<and>
       distinct [b, a] \<and> {b, a} \<inter> fst ` set M = {} \<and> map_len m = len \<and>
       tables F ((b, f, len) # (a, f, len) # M) (G(f \<mapsto> MemoryFile True m)) p"
  have attach: "agrees (tables F ?M (G(f \<mapsto> MemoryFile True m)))
     (seq (mapping_shared env MmapConsumer consumer_mem len) (\<lambda>consumer_map.
      or_drop (drop_mapping consumer_map) (
      seq (mapped_header consumer_map) (\<lambda>h.
      seq (from_result (validate_header h len)) (\<lambda>_.
      sys_call env AsyncFdNew (pure (u ?A consumer_map)))))))
     (os_run (calls env) MmapConsumer (
      and_then (header m) (\<lambda>h.
      and_then (validate_header h len) (\<lambda>_. os_run (calls env) AsyncFdNew (Inr m))))) ?Q
     (restored F ?M G0)" if m: "map_len m = len" for m
  proof (rule agrees_map [OF env mem(2) _ len le_keeps [OF le]])
    fix b
    assume b: "b \<notin> fst ` set ?M"
    let ?B = "\<lparr>map_address = b, map_bytes = len\<rparr>" and ?G = "G(f \<mapsto> MemoryFile True m)"
    show "agrees (tables F ((b, f, len) # ?M) ?G)
      (seq (mapped_header ?B) (\<lambda>h. seq (from_result (validate_header h len)) (\<lambda>_.
        sys_call env AsyncFdNew (pure (u ?A ?B)))))
      (and_then (header m) (\<lambda>h. and_then (validate_header h len) (\<lambda>_. os_run (calls env) AsyncFdNew (Inr m))))
      ?Q (restored F ((b, f, len) # ?M) G0)"
      by (rule agrees_header [where f = f], simp add: m, simp, rule le_keeps [OF le],
          rule agrees_from_result, erule restoredI, rule le_keeps [OF le],
          rule agrees_sys_call [OF agrees_pure])
        (use a b m in \<open>auto intro: restoredI le_keeps [OF le]\<close>)
  qed simp
  show "agrees (tables F ?M G)
    (seq (require (map_address ?A mod 64 = 0) MmapMisaligned) (\<lambda>_.
     seq (mapped_write_header ?A hdr) (\<lambda>_.
     seq (mapping_shared env MmapConsumer consumer_mem len) (\<lambda>consumer_map.
     or_drop (drop_mapping consumer_map) (
     seq (mapped_header consumer_map) (\<lambda>h.
     seq (from_result (validate_header h len)) (\<lambda>_.
     sys_call env AsyncFdNew (pure (u ?A consumer_map)))))))))
    (ensure (pick_address env (map fst M) mod 64 = 0) MmapMisaligned (
     and_then (write_header (zero_memory len) hdr) (\<lambda>m.
     os_run (calls env) MmapConsumer (
     and_then (header m) (\<lambda>h.
     and_then (validate_header h len) (\<lambda>_. os_run (calls env) AsyncFdNew (Inr m)))))))
    ?Q (restored F ?M G0)"
    unfolding a(1) [symmetric] Mapping.simps
    by (rule agrees_require, erule restoredI [OF _ le(1)], rule agrees_write_header [where f = f])
      (use f le attach in \<open>simp_all add: zero_memory_def\<close>)
qed

lemma pair_create_agrees:
  assumes env: "fresh_env env" and p0: "tables F M G p0"
  shows "agrees (tables F M G) (pair_create env n c)
    (ring_create (calls env) (pick_address env (map fst M)) n c)
    (\<lambda>(pr, co) m p. pair_owned p0 m pr co p) (restored F M G)"
  unfolding pair_create_def ring_create_def Let_def
  apply (rule agrees_require agrees_from_result, erule restoredI [OF _ map_le_refl])+
  apply (rule agrees_memfd [OF env map_le_refl])
  apply (rule agrees_duplicate [OF env], simp, erule map_le_new [OF map_le_refl])
  apply (rule agrees_eventfd [OF env], erule map_le_new [OF map_le_refl])
  apply (rule agrees_duplicate [OF env], simp, rule map_le_new, erule map_le_new [OF map_le_refl], assumption)
  subgoal premises prems for _ slots len mem f consumer_mem event e consumer_event
  proof -
    let ?F = "(consumer_event, e) # (event, e) # (consumer_mem, f) # (mem, f) # F"
    let ?G = "G(f \<mapsto> MemoryFile True (zero_memory (unat len)), e \<mapsto> EventFile)"
    have len: "0 < unat len" using prems by (simp add: ring_len_pos)
    have f: "G f = None" "G e = None" "e \<noteq> f" using prems by (auto split: if_splits)
    have fds: "distinct [consumer_event, event, consumer_mem, mem]"
      "set [consumer_event, event, consumer_mem, mem] \<inter> fst ` set F = {}" using prems by auto
    have le: "G \<subseteq>\<^sub>m ?G" by (intro le_keeps map_le_refl f)
    have mem: "map_of ?F mem = Some f" "map_of ?F consumer_mem = Some f"
      and G: "?G f = Some (MemoryFile True (zero_memory (unat len)))"
      using fds f by auto
    show ?thesis
      by (rule agrees_conseq [OF map_both_agrees [OF env mem G len le f(1)]], assumption)
        (use p0 f fds in \<open>auto simp: pair_owned_def tables_def\<close>)
  qed
  done

section \<open>Attaching to a descriptor\<close>

lemma agrees_fd_len:
  assumes env: "fresh_env env" and fd: "map_of F fd = Some f" and f: "G f = Some (MemoryFile sealed m)"
    and G: "G0 \<subseteq>\<^sub>m G" and k: "agrees (tables F M G) (k (map_len m)) r Q (restored F M G0)"
  shows "agrees (tables F M G) (seq (fd_len env fd) k) (os_run (calls env) Fstat r) Q (restored F M G0)"
proof (cases "calls env Fstat")
  case None
  then show ?thesis
    using k fd f fresh_envD(4) [OF env]
    by (simp add: agrees_def tables_def fd_len_def sys_call_def act_defs file_of_def)
next
  case (Some errno)
  then show ?thesis
    using restoredI [OF _ G] by (simp add: agrees_def fd_len_def sys_call_def os_run_def act_defs)
qed

lemma close_both:
  "restored F M G p \<Longrightarrow> restored (AList.delete a (AList.delete b F)) M G (close_owned a (close_owned b p))"
  by (simp add: restored_def close_owned_def)

text \<open>The part of \<open>from_descriptor\<close> that both endpoints share, with the construction of the endpoint as \<open>finish\<close>.\<close>

lemma attach_agrees:
  assumes env: "fresh_env env" and fd: "map_of F mem = Some f" and f: "G f = Some (MemoryFile sealed m)"
    and len: "0 < map_len m"
    and finish: "\<And>a. a \<notin> fst ` set M \<Longrightarrow>
      agrees (tables F ((a, f, map_len m) # M) G) (finish \<lparr>map_address = a, map_bytes = map_len m\<rparr>) r Q
        (restored F ((a, f, map_len m) # M) G)"
  shows "agrees (tables F M G)
    (or_drop (\<lambda>p. close_owned mem (close_owned event p)) (
     seq (fd_len env mem) (\<lambda>len.
     seq (mapping_shared env c mem len) (\<lambda>a. or_drop (drop_mapping a) (
     seq (mapped_header a) (\<lambda>h.
     seq (from_result (validate_header h len)) (\<lambda>_. finish a)))))))
    (os_run (calls env) Fstat (os_run (calls env) c (
     and_then (header m) (\<lambda>h.
     and_then (validate_header h (map_len m)) (\<lambda>_. r)))))
    Q (restored (AList.delete mem (AList.delete event F)) M G)"
proof (rule agrees_or_drop [where E' = "restored F M G"], rule agrees_fd_len [where G = G, OF env fd f map_le_refl],
    rule agrees_map [where G = G, OF env fd f len map_le_refl])
  fix a
  assume a: "a \<notin> fst ` set M"
  let ?A = "\<lparr>map_address = a, map_bytes = map_len m\<rparr>" and ?M = "(a, f, map_len m) # M"
  show "agrees (tables F ?M G)
      (seq (mapped_header ?A) (\<lambda>h. seq (from_result (validate_header h (map_len m))) (\<lambda>_. finish ?A)))
      (and_then (header m) (\<lambda>h. and_then (validate_header h (map_len m)) (\<lambda>_. r))) Q (restored F ?M G)"
    by (rule agrees_header [where G = G, OF _ f map_le_refl], simp, rule agrees_from_result,
        erule restoredI [OF _ map_le_refl], rule finish [OF a])
qed (rule close_both)

definition attached :: "nat \<Rightarrow> shm \<Rightarrow> process \<Rightarrow> Mapping \<Rightarrow> process \<Rightarrow> bool" where
  "attached f m p a p' \<longleftrightarrow>
     map_address a \<notin> fst ` set (mappings p) \<and> map_bytes a = map_len m \<and>
     tables (fd_table p) ((map_address a, f, map_len m) # mappings p) (map_of (files p)) p'"

lemma producer_attach_agrees:
  assumes env: "fresh_env env" and d: "file_of p (memory_fd d) = Some f"
    and f: "map_of (files p) f = Some (MemoryFile sealed m)" and len: "0 < map_len m"
  shows "agrees (\<lambda>p'. p' = p) (producer_attach env d) (producer_from_descriptor (calls env) m)
    (\<lambda>e m' p'. m' = m \<and> p_memory_fd e = memory_fd d \<and> p_event_fd e = event_fd d \<and>
       attached f m p (p_mapping e) p')
    (restored (AList.delete (memory_fd d) (AList.delete (event_fd d) (fd_table p))) (mappings p)
       (map_of (files p)))"
proof (rule agrees_conseq)
  show "agrees (tables (fd_table p) (mappings p) (map_of (files p))) (producer_attach env d)
    (producer_from_descriptor (calls env) m)
    (\<lambda>e m' p'. m' = m \<and> p_memory_fd e = memory_fd d \<and> p_event_fd e = event_fd d \<and>
       attached f m p (p_mapping e) p')
    (restored (AList.delete (memory_fd d) (AList.delete (event_fd d) (fd_table p))) (mappings p)
       (map_of (files p)))"
    unfolding producer_attach_def producer_from_descriptor_def into_owned_fds_def Let_def prod.case
    by (rule attach_agrees [where G = "map_of (files p)", OF env d [unfolded file_of_def] f len], rule agrees_pure) (simp add: attached_def)
qed (simp_all add: tables_def)

lemma consumer_attach_agrees:
  assumes env: "fresh_env env" and d: "file_of p (memory_fd d) = Some f"
    and f: "map_of (files p) f = Some (MemoryFile sealed m)" and len: "0 < map_len m"
  shows "agrees (\<lambda>p'. p' = p) (consumer_attach env d) (consumer_from_descriptor (calls env) m)
    (\<lambda>e m' p'. m' = m \<and> c_memory_fd e = memory_fd d \<and> c_event_fd e = event_fd d \<and>
       attached f m p (c_mapping e) p')
    (restored (AList.delete (memory_fd d) (AList.delete (event_fd d) (fd_table p))) (mappings p)
       (map_of (files p)))"
proof (rule agrees_conseq)
  show "agrees (tables (fd_table p) (mappings p) (map_of (files p))) (consumer_attach env d)
    (consumer_from_descriptor (calls env) m)
    (\<lambda>e m' p'. m' = m \<and> c_memory_fd e = memory_fd d \<and> c_event_fd e = event_fd d \<and>
       attached f m p (c_mapping e) p')
    (restored (AList.delete (memory_fd d) (AList.delete (event_fd d) (fd_table p))) (mappings p)
       (map_of (files p)))"
    unfolding consumer_attach_def consumer_from_descriptor_def into_owned_fds_def Let_def prod.case
    by (rule attach_agrees [where G = "map_of (files p)", OF env d [unfolded file_of_def] f len], rule agrees_sys_call [OF agrees_pure])
      (auto simp: attached_def intro: restoredI)
qed (simp_all add: tables_def)

lemma attach_refused:
  assumes env: "fresh_env env" and p: "tables F M G p" and fd: "map_of F mem = Some f" and f: "G f = Some x"
    and x: "\<And>sealed m. x = MemoryFile sealed m \<Longrightarrow> map_len m = 0"
  shows "\<exists>e p'. or_drop (\<lambda>p. close_owned mem (close_owned event p))
      (seq (fd_len env mem) (\<lambda>len. seq (mapping_shared env c mem len) (k len))) p = Some (Inl e, p') \<and>
    restored (AList.delete mem (AList.delete event F)) M G p'"
proof -
  have "\<exists>e. seq (fd_len env mem) (\<lambda>len. seq (mapping_shared env c mem len) (k len)) p = Some (Inl e, p)"
    using p fd f x fresh_envD(4) [OF env]
    by (cases x; cases "calls env Fstat"; cases "calls env c")
      (auto simp: tables_def fd_len_def mapping_shared_def sys_call_def file_of_def act_defs)
  then show ?thesis using close_both [OF restoredI [OF p map_le_refl]] by (auto simp: or_drop_def)
qed

section \<open>Ownership over sequences of operations\<close>

text \<open>
  The owners of descriptors and mappings: endpoints, and descriptors on their way between two endpoints.
  A descriptor in transfer remembers, for the specification only, the role of the endpoint it came from.
\<close>

datatype role = Writer | Reader

datatype owner = ProducerEnd Producer | ConsumerEnd Consumer | InTransfer role RingDescriptor

fun role_of :: "owner \<Rightarrow> role" where
  "role_of (ProducerEnd e) = Writer"
| "role_of (ConsumerEnd e) = Reader"
| "role_of (InTransfer r d) = r"

fun memory_of :: "owner \<Rightarrow> int" where
  "memory_of (ProducerEnd e) = p_memory_fd e"
| "memory_of (ConsumerEnd e) = c_memory_fd e"
| "memory_of (InTransfer r d) = memory_fd d"

fun event_of :: "owner \<Rightarrow> int" where
  "event_of (ProducerEnd e) = p_event_fd e"
| "event_of (ConsumerEnd e) = c_event_fd e"
| "event_of (InTransfer r d) = event_fd d"

fun maps_of :: "owner \<Rightarrow> Mapping list" where
  "maps_of (ProducerEnd e) = [p_mapping e]"
| "maps_of (ConsumerEnd e) = [c_mapping e]"
| "maps_of (InTransfer r d) = []"

fun drop_owner :: "owner \<Rightarrow> process \<Rightarrow> process" where
  "drop_owner (ProducerEnd e) p = drop_producer e p"
| "drop_owner (ConsumerEnd e) p = drop_consumer e p"
| "drop_owner (InTransfer r d) p = drop_descriptor d p"

text \<open>
  One operation of a program. With \<open>strict\<close> a descriptor is attached in the role it came from. Data moves
  through a mapping without changing the size of the memory (\<open>used\<close>), and descriptors for files that the
  process has not seen before can arrive from elsewhere (\<open>received\<close>).
\<close>

inductive owner_step :: "bool \<Rightarrow> process \<times> owner multiset \<Rightarrow> process \<times> owner multiset \<Rightarrow> bool"
  for strict :: bool
where
  created: "owner_step strict (p, E) (p', add_mset (ProducerEnd pr) (add_mset (ConsumerEnd co) E))"
    if "fresh_env env" "pair_create env n c p = Some (Inr (pr, co), p')"
| not_created: "owner_step strict (p, E) (p', E)"
    if "fresh_env env" "pair_create env n c p = Some (Inl e, p')"
| received: "owner_step strict (p, E) (p2, add_mset (InTransfer r (from_owned_fds m ev)) E)"
    if "fresh_env env" "open_file env x p = Some (Inr m, p1)" "open_file env y p1 = Some (Inr ev, p2)"
| used: "owner_step strict (p, E) (p\<lparr>files := AList.update f (MemoryFile sealed m') (files p)\<rparr>, E)"
    if "map_of (files p) f = Some (MemoryFile sealed m)" "map_len m' = map_len m"
| producer_released: "owner_step strict (p, add_mset (ProducerEnd e) E) (p', add_mset (InTransfer Writer d) E)"
    if "producer_into_descriptor e p = (d, p')"
| consumer_released: "owner_step strict (p, add_mset (ConsumerEnd e) E) (p', add_mset (InTransfer Reader d) E)"
    if "consumer_into_descriptor e p = (d, p')"
| producer_attached: "owner_step strict (p, add_mset (InTransfer r d) E) (p', add_mset (ProducerEnd e) E)"
    if "fresh_env env" "strict \<longrightarrow> r = Writer" "producer_attach env d p = Some (Inr e, p')"
| producer_refused: "owner_step strict (p, add_mset (InTransfer r d) E) (p', E)"
    if "fresh_env env" "producer_attach env d p = Some (Inl e, p')"
| consumer_attached: "owner_step strict (p, add_mset (InTransfer r d) E) (p', add_mset (ConsumerEnd e) E)"
    if "fresh_env env" "strict \<longrightarrow> r = Reader" "consumer_attach env d p = Some (Inr e, p')"
| consumer_refused: "owner_step strict (p, add_mset (InTransfer r d) E) (p', E)"
    if "fresh_env env" "consumer_attach env d p = Some (Inl e, p')"
| dropped: "owner_step strict (p, add_mset x E) (drop_owner x p, E)"

definition owner_fds :: "owner \<Rightarrow> int multiset" where
  "owner_fds x = {#memory_of x, event_of x#}"

definition owner_maps :: "owner \<Rightarrow> nat multiset" where
  "owner_maps x = mset (map map_address (maps_of x))"

text \<open>An owner's mapping covers exactly the memory behind its descriptor, which holds at least a ring header.\<close>

definition owner_ok :: "process \<Rightarrow> owner \<Rightarrow> bool" where
  "owner_ok p x \<longleftrightarrow> (\<forall>a \<in> set (maps_of x). \<exists>f sealed m.
     file_of p (memory_of x) = Some f \<and> map_of (files p) f = Some (MemoryFile sealed m) \<and>
     map_of (mappings p) (map_address a) = Some (f, map_len m) \<and> map_bytes a = map_len m \<and>
     size_of_RingHeader \<le> map_len m)"

fun owned :: "process \<times> owner multiset \<Rightarrow> bool" where
  "owned (p, E) \<longleftrightarrow>
     distinct (map fst (fd_table p)) \<and> distinct (map fst (mappings p)) \<and>
     \<Sum>\<^sub># (image_mset owner_fds E) = mset (map fst (fd_table p)) \<and>
     \<Sum>\<^sub># (image_mset owner_maps E) = mset (map fst (mappings p)) \<and>
     snd ` set (fd_table p) \<subseteq> dom (map_of (files p)) \<and> (\<forall>x \<in># E. owner_ok p x)"

definition role_on :: "process \<Rightarrow> owner \<Rightarrow> role \<times> nat option" where
  "role_on p x = (role_of x, file_of p (memory_of x))"

fun one_per_role :: "process \<times> owner multiset \<Rightarrow> bool" where
  "one_per_role (p, E) \<longleftrightarrow> (\<forall>k. count (image_mset (role_on p) E) k \<le> 1)"

lemma mset_fst_delete:
  "distinct (map fst F) \<Longrightarrow> image_mset fst (mset (AList.delete k F)) = image_mset fst (mset F) - {#k#}"
  unfolding mset_map [symmetric] by (metis AList.delete_keys distinct_remove1_removeAll mset_remove1)

lemma distinct_disjoint:
  assumes "distinct xs" and "mset xs = A + B" and "a \<in># A"
  shows "a \<notin># B"
proof -
  have "count (A + B) a \<le> 1"
    using assms(1) unfolding assms(2) [symmetric] by (simp add: distinct_count_atmost_1)
  moreover have "0 < count A a" using assms(3) by (simp only: count_greater_zero_iff)
  ultimately have "count B a = 0" by (simp only: count_union)
  then show ?thesis by (simp only: not_in_iff)
qed

lemma owner_ok_cong:
  assumes "owner_ok p x" and "file_of p' (memory_of x) = file_of p (memory_of x)"
    and "\<And>a. a \<in># owner_maps x \<Longrightarrow> map_of (mappings p') a = map_of (mappings p) a"
    and "\<And>f sealed m. map_of (files p) f = Some (MemoryFile sealed m) \<Longrightarrow>
      \<exists>m'. map_of (files p') f = Some (MemoryFile sealed m') \<and> map_len m' = map_len m"
  shows "owner_ok p' x"
  unfolding owner_ok_def
proof
  fix a
  assume a: "a \<in> set (maps_of x)"
  with assms(1) obtain f sealed m where
    f: "file_of p (memory_of x) = Some f" "map_of (files p) f = Some (MemoryFile sealed m)"
      "map_of (mappings p) (map_address a) = Some (f, map_len m)" "map_bytes a = map_len m"
      "size_of_RingHeader \<le> map_len m"
    by (auto simp: owner_ok_def)
  from assms(4) [OF f(2)] obtain m' where "map_of (files p') f = Some (MemoryFile sealed m')"
    "map_len m' = map_len m" by blast
  with a f assms(2,3) show "\<exists>f sealed m. file_of p' (memory_of x) = Some f \<and>
     map_of (files p') f = Some (MemoryFile sealed m) \<and>
     map_of (mappings p') (map_address a) = Some (f, map_len m) \<and> map_bytes a = map_len m \<and>
     size_of_RingHeader \<le> map_len m"
    by (auto simp: owner_maps_def)
qed

lemma owned_others:
  assumes "owned (p, add_mset x E)" and "y \<in># E"
  shows "memory_of y \<notin> {memory_of x, event_of x}"
    and "a \<in># owner_maps y \<Longrightarrow> a \<notin># owner_maps x"
proof -
  obtain E' where E: "E = add_mset y E'" using assms(2) by (metis mset_add)
  have fds: "mset (map fst (fd_table p)) = owner_fds y + (owner_fds x + \<Sum>\<^sub># (image_mset owner_fds E'))"
    and maps: "mset (map fst (mappings p)) = owner_maps y + (owner_maps x + \<Sum>\<^sub># (image_mset owner_maps E'))"
    and distinct: "distinct (map fst (fd_table p))" "distinct (map fst (mappings p))"
    using assms(1) by (simp_all add: E ac_simps)
  show "memory_of y \<notin> {memory_of x, event_of x}"
    using distinct_disjoint [OF distinct(1) fds, of "memory_of y"] by (simp add: owner_fds_def)
  show "a \<in># owner_maps y \<Longrightarrow> a \<notin># owner_maps x"
    using distinct_disjoint [OF distinct(2) maps, of a] by simp
qed

lemma fold_delete_maps:
  "distinct (map fst M) \<Longrightarrow> distinct (map fst (fold AList.delete ks M)) \<and>
   mset (map fst (fold AList.delete ks M)) = mset (map fst M) - mset ks"
  by (induction ks arbitrary: M) (simp_all add: distinct_delete mset_fst_delete)

lemma map_of_fold_delete: "a \<notin> set ks \<Longrightarrow> map_of (fold AList.delete ks M) a = map_of M a"
  by (induction ks arbitrary: M) (simp_all add: delete_conv')

text \<open>Releasing what an owner has keeps the exactness for the others.\<close>

lemma owned_remove:
  assumes inv: "owned (p, add_mset x E)"
    and fds: "fd_table p' = AList.delete (memory_of x) (AList.delete (event_of x) (fd_table p))"
    and maps: "mappings p' = fold AList.delete (map map_address (maps_of x)) (mappings p)"
    and le: "map_of (files p) \<subseteq>\<^sub>m map_of (files p')"
  shows "owned (p', E)"
proof -
  have distinct: "distinct (map fst (fd_table p))" "distinct (map fst (mappings p))"
    and sums: "image_mset fst (mset (fd_table p)) = owner_fds x + \<Sum>\<^sub># (image_mset owner_fds E)"
      "image_mset fst (mset (mappings p)) = owner_maps x + \<Sum>\<^sub># (image_mset owner_maps E)"
    and files: "snd ` set (fd_table p) \<subseteq> dom (map_of (files p))" and ok: "\<forall>y \<in># E. owner_ok p y"
    using inv by auto
  have "owner_ok p' y" if y: "y \<in># E" for y
  proof (rule owner_ok_cong)
    show "owner_ok p y" using ok y by blast
    show "file_of p' (memory_of y) = file_of p (memory_of y)"
      using owned_others(1) [OF inv y] by (simp add: file_of_def fds delete_conv')
    show "map_of (mappings p') a = map_of (mappings p) a" if "a \<in># owner_maps y" for a
      using owned_others(2) [OF inv y that] by (simp add: maps map_of_fold_delete owner_maps_def)
    show "\<exists>m'. map_of (files p') f = Some (MemoryFile sealed m') \<and> map_len m' = map_len m"
      if "map_of (files p) f = Some (MemoryFile sealed m)" for f sealed m
      using le that by (metis domI map_le_def)
  qed
  moreover have "snd ` set (fd_table p') \<subseteq> snd ` set (fd_table p)"
    unfolding fds AList.delete_eq by (intro image_mono) (auto simp: set_filter)
  moreover have "dom (map_of (files p)) \<subseteq> dom (map_of (files p'))" using le by (rule map_le_implies_dom_le)
  moreover have "mset (map fst (fd_table p')) = \<Sum>\<^sub># (image_mset owner_fds E)"
    using distinct(1) by (simp add: fds mset_fst_delete distinct_delete sums(1) owner_fds_def)
  moreover have "mset (map fst (mappings p')) = \<Sum>\<^sub># (image_mset owner_maps E)"
    using fold_delete_maps [OF distinct(2)] by (simp add: maps sums(2) owner_maps_def)
  ultimately show ?thesis
    using files distinct fold_delete_maps [OF distinct(2)]
    by (auto simp: fds maps distinct_delete)
qed

lemma owned_open:
  assumes "owned (p, E)" and "x \<in># E"
  shows "memory_of x \<in> fst ` set (fd_table p)" and "a \<in># owner_maps x \<Longrightarrow> a \<in> fst ` set (mappings p)"
proof -
  have "set_mset (\<Sum>\<^sub># (image_mset owner_fds E)) = set (map fst (fd_table p))"
    and maps: "set_mset (\<Sum>\<^sub># (image_mset owner_maps E)) = set (map fst (mappings p))"
    using assms(1) by simp_all
  moreover have "memory_of x \<in># \<Sum>\<^sub># (image_mset owner_fds E)" using assms(2) by (auto simp: owner_fds_def)
  ultimately show "memory_of x \<in> fst ` set (fd_table p)" by (metis set_map)
  show "a \<in> fst ` set (mappings p)" if "a \<in># owner_maps x"
  proof -
    have "a \<in># \<Sum>\<^sub># (image_mset owner_maps E)" using assms(2) that by auto
    with maps show ?thesis by (metis set_map)
  qed
qed

lemma owned_kept:
  assumes inv: "owned (p, E)" and eq: "fd_table p' = fd_table p" "mappings p' = mappings p"
    and dom: "dom (map_of (files p)) \<subseteq> dom (map_of (files p'))"
    and sizes: "\<And>f sealed m. map_of (files p) f = Some (MemoryFile sealed m) \<Longrightarrow>
      \<exists>m'. map_of (files p') f = Some (MemoryFile sealed m') \<and> map_len m' = map_len m"
  shows "owned (p', E)"
proof -
  have "owner_ok p' x" if "x \<in># E" for x
    by (rule owner_ok_cong [where p = p]) (use inv that sizes in \<open>auto simp: eq file_of_def\<close>)
  moreover have "snd ` set (fd_table p) \<subseteq> dom (map_of (files p'))"
    using inv dom by (meson order_trans owned.simps)
  ultimately show ?thesis using inv by (simp add: eq)
qed

lemma le_sizes:
  "map_of (files p) \<subseteq>\<^sub>m map_of (files p') \<Longrightarrow> map_of (files p) f = Some (MemoryFile sealed m) \<Longrightarrow>
   \<exists>m'. map_of (files p') f = Some (MemoryFile sealed m') \<and> map_len m' = map_len m"
  by (metis domI map_le_def)

lemma owned_restored:
  assumes "owned (p, E)" and "restored (fd_table p) (mappings p) (map_of (files p)) p'"
  shows "owned (p', E)"
proof -
  have p': "fd_table p' = fd_table p" "mappings p' = mappings p" "map_of (files p) \<subseteq>\<^sub>m map_of (files p')"
    using assms(2) by (simp_all add: restored_def)
  show ?thesis
    by (rule owned_kept [OF assms(1) p'(1,2) map_le_implies_dom_le [OF p'(3)]]) (rule le_sizes [OF p'(3)])
qed

lemma owned_release:
  assumes inv: "owned (p, add_mset x E)" and y: "memory_of y = memory_of x" "event_of y = event_of x" "maps_of y = []"
    and x: "maps_of x = [a]"
  shows "owned (drop_mapping a p, add_mset y E)"
proof -
  let ?p = "drop_mapping a p"
  have sum: "image_mset fst (mset (mappings p)) = add_mset (map_address a) (\<Sum>\<^sub># (image_mset owner_maps E))"
    using inv x by (auto simp: owner_maps_def)
  have "owner_ok ?p z" if z: "z \<in># E" for z
  proof (rule owner_ok_cong [where p = p])
    show "map_of (mappings ?p) b = map_of (mappings p) b" if "b \<in># owner_maps z" for b
      using owned_others(2) [OF inv z that] x by (simp add: drop_mapping_def delete_conv' owner_maps_def)
  qed (use inv z in \<open>auto simp: drop_mapping_def file_of_def\<close>)
  with inv y sum show ?thesis
    by (auto simp: drop_mapping_def distinct_delete mset_fst_delete owner_fds_def owner_maps_def owner_ok_def)
qed

lemma owned_attach:
  assumes inv: "owned (p, add_mset x E)" and y: "memory_of y = memory_of x" "event_of y = event_of x" "maps_of y = [a]"
    and x: "maps_of x = []" and f: "file_of p (memory_of x) = Some f" "map_of (files p) f = Some (MemoryFile sealed m)"
    and a: "attached f m p a p'" and len: "size_of_RingHeader \<le> map_len m"
  shows "owned (p', add_mset y E)"
proof -
  have tables: "fd_table p' = fd_table p" "mappings p' = (map_address a, f, map_len m) # mappings p"
    "map_of (files p') = map_of (files p)" "map_address a \<notin> fst ` set (mappings p)" "map_bytes a = map_len m"
    using a by (auto simp: attached_def tables_def)
  have "owner_ok p' z" if z: "z \<in># E" for z
  proof (rule owner_ok_cong [where p = p])
    show "map_of (mappings p') b = map_of (mappings p) b" if "b \<in># owner_maps z" for b
    proof -
      have "b \<in> fst ` set (mappings p)" using owned_open(2) [OF inv, of z b] z that by simp
      then have "b \<noteq> map_address a" using tables(4) by blast
      then show ?thesis by (simp add: tables(2))
    qed
  qed (use inv z in \<open>auto simp: tables file_of_def\<close>)
  moreover have "owner_ok p' y"
    using y f tables len by (auto simp: owner_ok_def file_of_def)
  moreover have "\<Sum>\<^sub># (image_mset owner_maps (add_mset y E)) = mset (map fst (mappings p'))"
    using inv x y tables by (auto simp: owner_maps_def)
  ultimately show ?thesis
    using inv y tables by (auto simp: owner_fds_def)
qed

lemma owned_new_fds:
  assumes inv: "owned (p, E)" and sums: "\<Sum>\<^sub># (image_mset owner_fds X) = mset (map fst F)"
    "\<Sum>\<^sub># (image_mset owner_maps X) = mset (map fst M)"
    and fresh: "distinct (map fst F)" "fst ` set F \<inter> fst ` set (fd_table p) = {}"
      "distinct (map fst M)" "fst ` set M \<inter> fst ` set (mappings p) = {}"
    and files: "snd ` set F \<subseteq> dom G" "map_of (files p) \<subseteq>\<^sub>m G"
    and p': "tables (F @ fd_table p) (M @ mappings p) G p'" and X: "\<And>x. x \<in># X \<Longrightarrow> owner_ok p' x"
  shows "owned (p', X + E)"
proof -
  have tables: "fd_table p' = F @ fd_table p" "mappings p' = M @ mappings p" "map_of (files p') = G"
    using p' by (simp_all add: tables_def)
  have "owner_ok p' z" if z: "z \<in># E" for z
  proof (rule owner_ok_cong [where p = p])
    have "memory_of z \<notin> fst ` set F" using owned_open(1) [OF inv z] fresh(2) by blast
    then show "file_of p' (memory_of z) = file_of p (memory_of z)"
      by (simp add: file_of_def tables map_add_dom_app_simps(3) dom_map_of_conv_image_fst)
    show "map_of (mappings p') a = map_of (mappings p) a" if "a \<in># owner_maps z" for a
    proof -
      have "a \<notin> fst ` set M" using owned_open(2) [OF inv z that] fresh(4) by blast
      then show ?thesis by (simp add: tables map_add_dom_app_simps(3) dom_map_of_conv_image_fst)
    qed
  qed (use inv z files(2) le_sizes [of p p'] in \<open>auto simp: tables\<close>)
  moreover have "snd ` set (fd_table p) \<subseteq> dom G"
    using inv map_le_implies_dom_le [OF files(2)] by (meson order_trans owned.simps)
  ultimately show ?thesis
    using inv sums fresh files(1) X by (auto simp: tables)
qed

lemma owned_file:
  assumes "owned (p, add_mset x E)"
  obtains f y where "file_of p (memory_of x) = Some f" and "map_of (files p) f = Some y"
proof -
  have "memory_of x \<in> fst ` set (fd_table p)" by (rule owned_open(1) [OF assms]) simp
  then obtain f where f: "map_of (fd_table p) (memory_of x) = Some f"
    by (metis domD dom_map_of_conv_image_fst)
  then have "f \<in> snd ` set (fd_table p)" by (force dest: map_of_SomeD)
  then have "f \<in> dom (map_of (files p))" using assms by auto
  with f that show thesis by (auto simp: file_of_def)
qed

abbreviation closed :: "RingDescriptor \<Rightarrow> process \<Rightarrow> process \<Rightarrow> bool" where
  "closed d p \<equiv> restored (AList.delete (memory_fd d) (AList.delete (event_fd d) (fd_table p))) (mappings p)
     (map_of (files p))"

lemma header_len: "header m = Inr h \<Longrightarrow> size_of_RingHeader \<le> map_len m"
  by (auto simp: header_def in_bounds_def split: if_splits)

lemma producer_attach_len: "producer_from_descriptor os m = Inr y \<Longrightarrow> size_of_RingHeader \<le> map_len m"
  and consumer_attach_len: "consumer_from_descriptor os m = Inr y \<Longrightarrow> size_of_RingHeader \<le> map_len m"
  unfolding producer_from_descriptor_def consumer_from_descriptor_def result_simps by (blast intro: header_len)+

lemma producer_attach_cases:
  assumes env: "fresh_env env" and inv: "owned (p, add_mset (InTransfer r d) E)"
    and run: "producer_attach env d p = Some (q, p')"
  shows "case q of Inl e \<Rightarrow> closed d p p'
    | Inr e \<Rightarrow> p_memory_fd e = memory_fd d \<and> p_event_fd e = event_fd d \<and>
        (\<exists>f sealed m. file_of p (memory_fd d) = Some f \<and> map_of (files p) f = Some (MemoryFile sealed m) \<and>
           attached f m p (p_mapping e) p' \<and> size_of_RingHeader \<le> map_len m)"
proof -
  obtain f y where f: "file_of p (memory_fd d) = Some f" "map_of (files p) f = Some y"
    using owned_file [OF inv] by auto
  show ?thesis
  proof (cases "\<exists>sealed m. y = MemoryFile sealed m \<and> 0 < map_len m")
    case True
    then obtain sealed m where m: "map_of (files p) f = Some (MemoryFile sealed m)" "0 < map_len m"
      using f(2) by auto
    show ?thesis
      using producer_attach_agrees [OF env f(1) m] refl [of p]
      by (cases rule: agreesE) (use run f(1) m(1) producer_attach_len in auto)
  next
    case False
    have p: "tables (fd_table p) (mappings p) (map_of (files p)) p" by (simp add: tables_def)
    have "\<exists>e p''. producer_attach env d p = Some (Inl e, p'') \<and> closed d p p''"
      unfolding producer_attach_def into_owned_fds_def Let_def prod.case
      by (rule attach_refused [where G = "map_of (files p)", OF env p f(1) [unfolded file_of_def] f(2)])
        (use False in auto)
    then show ?thesis using run by auto
  qed
qed

lemma consumer_attach_cases:
  assumes env: "fresh_env env" and inv: "owned (p, add_mset (InTransfer r d) E)"
    and run: "consumer_attach env d p = Some (q, p')"
  shows "case q of Inl e \<Rightarrow> closed d p p'
    | Inr e \<Rightarrow> c_memory_fd e = memory_fd d \<and> c_event_fd e = event_fd d \<and>
        (\<exists>f sealed m. file_of p (memory_fd d) = Some f \<and> map_of (files p) f = Some (MemoryFile sealed m) \<and>
           attached f m p (c_mapping e) p' \<and> size_of_RingHeader \<le> map_len m)"
proof -
  obtain f y where f: "file_of p (memory_fd d) = Some f" "map_of (files p) f = Some y"
    using owned_file [OF inv] by auto
  show ?thesis
  proof (cases "\<exists>sealed m. y = MemoryFile sealed m \<and> 0 < map_len m")
    case True
    then obtain sealed m where m: "map_of (files p) f = Some (MemoryFile sealed m)" "0 < map_len m"
      using f(2) by auto
    show ?thesis
      using consumer_attach_agrees [OF env f(1) m] refl [of p]
      by (cases rule: agreesE) (use run f(1) m(1) consumer_attach_len in auto)
  next
    case False
    have p: "tables (fd_table p) (mappings p) (map_of (files p)) p" by (simp add: tables_def)
    have "\<exists>e p''. consumer_attach env d p = Some (Inl e, p'') \<and> closed d p p''"
      unfolding consumer_attach_def into_owned_fds_def Let_def prod.case
      by (rule attach_refused [where G = "map_of (files p)", OF env p f(1) [unfolded file_of_def] f(2)])
        (use False in auto)
    then show ?thesis using run by auto
  qed
qed

lemma pair_create_cases:
  assumes "fresh_env env" and run: "pair_create env n c p = Some (q, p')"
  shows "case q of Inl e \<Rightarrow> restored (fd_table p) (mappings p) (map_of (files p)) p'
    | Inr (pr, co) \<Rightarrow> \<exists>m. pair_owned p m pr co p' \<and> size_of_RingHeader \<le> map_len m"
proof -
  have p: "tables (fd_table p) (mappings p) (map_of (files p)) p" by (simp add: tables_def)
  show ?thesis
    using pair_create_agrees [OF assms(1) p, of n c] p
    by (cases rule: agreesE) (use run in \<open>auto simp: ring_create_Inr_iff map_len_fresh_ring\<close>)
qed

lemma roles_kept:
  "(\<And>z. z \<in># E \<Longrightarrow> file_of p' (memory_of z) = file_of p (memory_of z)) \<Longrightarrow>
   image_mset (role_on p') E = image_mset (role_on p) E"
  by (rule image_mset_cong) (simp add: role_on_def)

lemma roles_replaced:
  assumes "one_per_role (p, add_mset x E)" and "fd_table p' = fd_table p"
    and "memory_of y = memory_of x" "role_of y = role_of x"
  shows "one_per_role (p', add_mset y E)"
proof -
  have same: "file_of p' = file_of p" using assms(2) by (simp add: file_of_def fun_eq_iff)
  then have "role_on p' y = role_on p x" using assms(3,4) by (simp add: role_on_def)
  with roles_kept [of E p' p] same assms(1) show ?thesis by simp
qed

lemma roles_removed:
  assumes "one_per_role (p, add_mset x E)" and inv: "owned (p, add_mset x E)"
    and fds: "fd_table p' = AList.delete (memory_of x) (AList.delete (event_of x) (fd_table p))"
  shows "one_per_role (p', E)"
proof -
  have "image_mset (role_on p') E = image_mset (role_on p) E"
    by (rule roles_kept) (use owned_others(1) [OF inv] in \<open>auto simp: file_of_def fds delete_conv'\<close>)
  moreover have "count (image_mset (role_on p) E) k \<le> count (image_mset (role_on p) (add_mset x E)) k" for k
    by simp
  ultimately show ?thesis using assms(1) le_trans unfolding one_per_role.simps by metis
qed

lemma roles_added:
  assumes "one_per_role (p, E)" and inv: "owned (p, E)" and fds: "fd_table p' = F @ fd_table p"
    and fresh: "fst ` set F \<inter> fst ` set (fd_table p) = {}"
    and X: "\<And>k. count (image_mset (role_on p') X) k \<le> 1"
    and new: "\<And>x. x \<in># X \<Longrightarrow> \<exists>f. file_of p' (memory_of x) = Some f \<and> map_of (files p) f = None"
  shows "one_per_role (p', X + E)"
proof -
  have keep: "file_of p' (memory_of z) = file_of p (memory_of z)" if "z \<in># E" for z
  proof -
    have "memory_of z \<notin> fst ` set F" using owned_open(1) [OF inv that] fresh by blast
    then show ?thesis by (simp add: file_of_def fds map_add_dom_app_simps(3) dom_map_of_conv_image_fst)
  qed
  have apart: "role_on p' x \<noteq> role_on p z" if x: "x \<in># X" and z: "z \<in># E" for x z
  proof -
    obtain E' where "E = add_mset z E'" using z by (metis mset_add)
    then obtain f y where "file_of p (memory_of z) = Some f" "map_of (files p) f = Some y"
      using owned_file inv by metis
    then show ?thesis using new [OF x] by (auto simp: role_on_def)
  qed
  have "count (image_mset (role_on p') X) k = 0 \<or> count (image_mset (role_on p) E) k = 0" for k
  proof (rule ccontr)
    assume "\<not> ?thesis"
    then have "k \<in># image_mset (role_on p') X" "k \<in># image_mset (role_on p) E" by (simp_all add: not_in_iff)
    then show False using apart by auto
  qed
  then show ?thesis
    using X assms(1) roles_kept [of E, OF keep] by simp (metis add.commute add_0)
qed

lemma step_created:
  assumes inv: "owned (p, E)" and new: "pair_owned p m pr co p'" and len: "size_of_RingHeader \<le> map_len m"
  shows "owned (p', add_mset (ProducerEnd pr) (add_mset (ConsumerEnd co) E))"
    and "one_per_role (p, E) \<Longrightarrow> one_per_role (p', add_mset (ProducerEnd pr) (add_mset (ConsumerEnd co) E))"
proof -
  obtain f e where f: "map_of (files p) f = None" "map_of (files p) e = None" "f \<noteq> e"
    and fds: "distinct [c_event_fd co, p_event_fd pr, c_memory_fd co, p_memory_fd pr]"
      "set [c_event_fd co, p_event_fd pr, c_memory_fd co, p_memory_fd pr] \<inter> fst ` set (fd_table p) = {}"
    and maps: "distinct [map_address (c_mapping co), map_address (p_mapping pr)]"
      "set [map_address (c_mapping co), map_address (p_mapping pr)] \<inter> fst ` set (mappings p) = {}"
      "map_bytes (c_mapping co) = map_len m" "map_bytes (p_mapping pr) = map_len m"
    and p': "tables
          ((c_event_fd co, e) # (p_event_fd pr, e) # (c_memory_fd co, f) # (p_memory_fd pr, f) # fd_table p)
          ((map_address (c_mapping co), f, map_len m) # (map_address (p_mapping pr), f, map_len m) # mappings p)
          ((map_of (files p))(e \<mapsto> EventFile, f \<mapsto> MemoryFile True m)) p'"
    using new unfolding pair_owned_def by blast
  let ?X = "{#ProducerEnd pr, ConsumerEnd co#}"
  let ?F = "[(c_event_fd co, e), (p_event_fd pr, e), (c_memory_fd co, f), (p_memory_fd pr, f)]"
  let ?M = "[(map_address (c_mapping co), f, map_len m), (map_address (p_mapping pr), f, map_len m)]"
  let ?G = "(map_of (files p))(e \<mapsto> EventFile, f \<mapsto> MemoryFile True m)"
  have le: "map_of (files p) \<subseteq>\<^sub>m ?G" by (intro le_keeps map_le_refl f)
  have p'_simps: "fd_table p' = ?F @ fd_table p" "mappings p' = ?M @ mappings p" "map_of (files p') = ?G"
    using p' by (simp_all add: tables_def)
  have memory: "file_of p' (memory_of x) = Some f" if "x \<in># ?X" for x
    using that fds(1) by (cases x) (simp_all add: p'_simps(1) file_of_def)
  have "owner_ok p' (ProducerEnd pr)" "owner_ok p' (ConsumerEnd co)"
    using maps len memory [of "ProducerEnd pr"] memory [of "ConsumerEnd co"]
    by (auto simp: owner_ok_def p'_simps(2,3))
  then have ok: "owner_ok p' x" if "x \<in># ?X" for x using that by auto
  show "owned (p', add_mset (ProducerEnd pr) (add_mset (ConsumerEnd co) E))"
  proof -
    have "owned (p', ?X + E)"
      by (rule owned_new_fds [where F = ?F and M = ?M and G = ?G, OF inv _ _ _ _ _ _ _ le _ ok])
        (use fds maps p' in \<open>simp_all add: owner_fds_def owner_maps_def\<close>)
    then show ?thesis by (simp only: union_mset_add_mset_left add_mset_commute empty_neutral)
  qed
  assume one: "one_per_role (p, E)"
  have "one_per_role (p', ?X + E)"
    by (rule roles_added [OF one inv p'_simps(1)])
      (use fds(2) f(1) memory in \<open>auto simp: role_on_def\<close>)
  then show "one_per_role (p', add_mset (ProducerEnd pr) (add_mset (ConsumerEnd co) E))"
    by (simp only: union_mset_add_mset_left add_mset_commute empty_neutral)
qed

lemma step_received:
  assumes env: "fresh_env env" and inv: "owned (p, E)"
    and run: "open_file env x p = Some (Inr m, p1)" "open_file env y p1 = Some (Inr ev, p2)"
  shows "owned (p2, add_mset (InTransfer r (from_owned_fds m ev)) E)"
    and "one_per_role (p, E) \<Longrightarrow> one_per_role (p2, add_mset (InTransfer r (from_owned_fds m ev)) E)"
proof -
  let ?d = "InTransfer r (from_owned_fds m ev)"
  obtain f where f: "map_of (files p) f = None" "m \<notin> fst ` set (fd_table p)"
    and p1: "tables ((m, f) # fd_table p) (mappings p) ((map_of (files p))(f \<mapsto> x)) p1"
    using run_open_file [OF env, of "fd_table p" "mappings p" "map_of (files p)" p x] run(1)
    by (auto simp: tables_def)
  obtain g where g: "((map_of (files p))(f \<mapsto> x)) g = None" "ev \<notin> fst ` set ((m, f) # fd_table p)"
    and p2: "tables ((ev, g) # (m, f) # fd_table p) (mappings p) ((map_of (files p))(f \<mapsto> x, g \<mapsto> y)) p2"
    using run_open_file [OF env p1, of y] run(2) by auto
  let ?G = "(map_of (files p))(f \<mapsto> x, g \<mapsto> y)"
  have le: "map_of (files p) \<subseteq>\<^sub>m ?G"
    using f g by (intro le_keeps map_le_refl) (auto split: if_splits)
  show "owned (p2, add_mset ?d E)"
  proof -
    have "owned (p2, {#?d#} + E)"
      by (rule owned_new_fds [where F = "[(ev, g), (m, f)]" and M = "[]" and G = ?G, OF inv _ _ _ _ _ _ _ le])
        (use f g p2 in \<open>simp_all add: owner_fds_def owner_maps_def owner_ok_def from_owned_fds_def\<close>)
    then show ?thesis by (simp only: union_mset_add_mset_left empty_neutral)
  qed
  assume one: "one_per_role (p, E)"
  have "one_per_role (p2, {#?d#} + E)"
    by (rule roles_added [where F = "[(ev, g), (m, f)]", OF one inv])
      (use p2 f g in \<open>auto simp: tables_def role_on_def file_of_def from_owned_fds_def\<close>)
  then show "one_per_role (p2, add_mset ?d E)" by (simp only: union_mset_add_mset_left empty_neutral)
qed

lemma step_closed:
  assumes inv: "owned (p, add_mset (InTransfer r d) E)" and "closed d p p'"
  shows "owned (p', E)" and "one_per_role (p, add_mset (InTransfer r d) E) \<Longrightarrow> one_per_role (p', E)"
proof -
  have p': "fd_table p' = AList.delete (memory_of (InTransfer r d)) (AList.delete (event_of (InTransfer r d)) (fd_table p))"
    "mappings p' = fold AList.delete (map map_address (maps_of (InTransfer r d))) (mappings p)"
    "map_of (files p) \<subseteq>\<^sub>m map_of (files p')"
    using assms(2) by (simp_all add: restored_def)
  show "owned (p', E)" by (rule owned_remove [OF inv p'])
  show "one_per_role (p', E)" if "one_per_role (p, add_mset (InTransfer r d) E)"
    by (rule roles_removed [OF that inv p'(1)])
qed

lemma drop_owner_tables:
  "fd_table (drop_owner x p) = AList.delete (memory_of x) (AList.delete (event_of x) (fd_table p))"
  "mappings (drop_owner x p) = fold AList.delete (map map_address (maps_of x)) (mappings p)"
  "files (drop_owner x p) = files p"
  by (cases x; simp add: drop_producer_def drop_consumer_def drop_descriptor_def close_owned_def
      drop_mapping_def AList.delete_twist)+

lemma step_released:
  assumes inv: "owned (p, add_mset x E)" and x: "maps_of x = [a]"
  shows "owned (drop_mapping a p, add_mset (InTransfer (role_of x) (from_owned_fds (memory_of x) (event_of x))) E)"
    and "one_per_role (p, add_mset x E) \<Longrightarrow>
      one_per_role (drop_mapping a p, add_mset (InTransfer (role_of x) (from_owned_fds (memory_of x) (event_of x))) E)"
proof -
  show "owned (drop_mapping a p, add_mset (InTransfer (role_of x) (from_owned_fds (memory_of x) (event_of x))) E)"
    by (rule owned_release [OF inv _ _ _ x]) (simp_all add: from_owned_fds_def)
  assume one: "one_per_role (p, add_mset x E)"
  show "one_per_role (drop_mapping a p, add_mset (InTransfer (role_of x) (from_owned_fds (memory_of x) (event_of x))) E)"
    by (rule roles_replaced [OF one]) (simp_all add: from_owned_fds_def drop_mapping_def)
qed

lemma step_attached:
  assumes inv: "owned (p, add_mset (InTransfer r d) E)"
    and y: "memory_of y = memory_fd d" "event_of y = event_fd d" "maps_of y = [a]"
    and f: "file_of p (memory_fd d) = Some f" "map_of (files p) f = Some (MemoryFile sealed m)"
    and a: "attached f m p a p'" and len: "size_of_RingHeader \<le> map_len m"
  shows "owned (p', add_mset y E)"
    and "one_per_role (p, add_mset (InTransfer r d) E) \<Longrightarrow> role_of y = r \<Longrightarrow> one_per_role (p', add_mset y E)"
proof -
  show "owned (p', add_mset y E)"
    by (rule owned_attach [OF inv _ _ y(3) _ _ f(2) a len]) (simp_all add: y f)
  assume one: "one_per_role (p, add_mset (InTransfer r d) E)" "role_of y = r"
  show "one_per_role (p', add_mset y E)"
    by (rule roles_replaced [OF one(1)]) (use a one(2) y in \<open>simp_all add: attached_def tables_def\<close>)
qed

declare owned.simps [simp del] one_per_role.simps [simp del]

lemma owned_step:
  assumes step: "owner_step strict s s'" and inv: "owned s"
  shows "owned s' \<and> (strict \<longrightarrow> one_per_role s \<longrightarrow> one_per_role s')"
  using step inv
proof (induction rule: owner_step.induct)
  case (created env n c p pr co p' E)
  then obtain m where "pair_owned p m pr co p'" "size_of_RingHeader \<le> map_len m"
    using pair_create_cases [OF created(1,2)] by auto
  then show ?case using step_created created(3) by blast
next
  case (not_created env n c p e p' E)
  then have r: "restored (fd_table p) (mappings p) (map_of (files p)) p'"
    using pair_create_cases [OF not_created(1,2)] by simp
  have "image_mset (role_on p') E = image_mset (role_on p) E"
    by (rule roles_kept) (use r in \<open>simp add: restored_def file_of_def\<close>)
  then show ?case using owned_restored [OF _ r] not_created(3) by (simp add: one_per_role.simps)
next
  case (received env x p m p1 y ev p2 E r)
  then show ?case using step_received by blast
next
  case (used p f sealed m m' E)
  let ?p = "p\<lparr>files := AList.update f (MemoryFile sealed m') (files p)\<rparr>"
  have "owned (?p, E)" by (rule owned_kept [OF used(3)]) (use used(1,2) in \<open>auto simp: update_conv'\<close>)
  moreover have "image_mset (role_on ?p) E = image_mset (role_on p) E"
    by (rule roles_kept) (simp add: file_of_def)
  ultimately show ?case by (simp add: one_per_role.simps)
next
  case (producer_released e p d p' E)
  then show ?case using step_released [of p "ProducerEnd e" E] by (auto simp: producer_into_descriptor_def)
next
  case (consumer_released e p d p' E)
  then show ?case using step_released [of p "ConsumerEnd e" E] by (auto simp: consumer_into_descriptor_def)
next
  case (producer_attached env r d p e p' E)
  then show ?case
    using producer_attach_cases [OF producer_attached(1,4,3)]
      step_attached [OF producer_attached(4), of "ProducerEnd e" "p_mapping e"] by auto
next
  case (consumer_attached env r d p e p' E)
  then show ?case
    using consumer_attach_cases [OF consumer_attached(1,4,3)]
      step_attached [OF consumer_attached(4), of "ConsumerEnd e" "c_mapping e"] by auto
next
  case (producer_refused env d p e p' r E)
  then show ?case
    using step_closed [OF producer_refused(3)] producer_attach_cases [OF producer_refused(1,3,2)] by simp
next
  case (consumer_refused env d p e p' r E)
  then show ?case
    using step_closed [OF consumer_refused(3)] consumer_attach_cases [OF consumer_refused(1,3,2)] by simp
next
  case (dropped p x E)
  have "owned (drop_owner x p, E)"
    by (rule owned_remove [OF dropped drop_owner_tables(1,2)]) (simp add: drop_owner_tables)
  then show ?case using roles_removed [OF _ dropped drop_owner_tables(1)] by blast
qed

definition empty_process :: process where
  "empty_process = \<lparr>fd_table = [], mappings = [], files = []\<rparr>"

interpretation owners: inductive_invariant "(empty_process, {#})" "owner_step strict"
  "\<lambda>s. owned s \<and> (strict \<longrightarrow> one_per_role s)"
  by unfold_locales (auto simp: owned.simps one_per_role.simps empty_process_def dest: owned_step)

lemma count_roles:
  "count (image_mset (role_on p) E) (r, Some f) =
   size (filter_mset (\<lambda>x. role_of x = r \<and> file_of p (memory_of x) = Some f) E)"
  by (induction E) (auto simp: role_on_def)

section \<open>An environment in which every call succeeds\<close>

definition plain_env :: os_env where
  "plain_env = \<lparr>calls = (\<lambda>_. None), pick_fd = (\<lambda>xs. foldr max xs 2 + 1),
     pick_address = (\<lambda>xs. 4096 * (foldr max xs 0 + 1)), pick_file = (\<lambda>xs. foldr max xs 0 + 1),
     stat_size = (\<lambda>x. case x of MemoryFile _ m \<Rightarrow> int (map_len m) | _ \<Rightarrow> 0)\<rparr>"

lemma foldr_max_ge: "x \<in> set xs \<Longrightarrow> x \<le> foldr max xs (b :: 'a :: linorder)" "b \<le> foldr max xs b"
  by (induction xs) (auto simp: le_max_iff_disj)

lemma plain_env_fresh: "fresh_env plain_env"
proof -
  have "foldr max xs (2 :: int) + 1 \<notin> set xs" "0 \<le> foldr max xs (2 :: int) + 1" for xs
    using foldr_max_ge [where b = "2 :: int" and xs = xs] by force+
  moreover have "4096 * (foldr max xs (0 :: nat) + 1) \<notin> set xs" "foldr max xs (0 :: nat) + 1 \<notin> set xs" for xs
    using foldr_max_ge(1) [where b = "0 :: nat" and xs = xs] by force+
  ultimately show ?thesis by (simp add: fresh_env_def plain_env_def)
qed

text \<open>The ring of two slots of 64 bytes in an empty process.\<close>

definition sample_producer :: Producer where
  "sample_producer = \<lparr>p_memory_fd = 3, p_event_fd = 5, p_mapping = \<lparr>map_address = 4096, map_bytes = 512\<rparr>\<rparr>"

definition sample_consumer :: Consumer where
  "sample_consumer =
     \<lparr>c_memory_fd = 4, c_event_fd = 6, c_mapping = \<lparr>map_address = 16781312, map_bytes = 512\<rparr>\<rparr>"

definition sample_process :: process where
  "sample_process = \<lparr>fd_table = [(6, 2), (5, 2), (4, 1), (3, 1)],
     mappings = [(16781312, 1, 512), (4096, 1, 512)],
     files = [(2, EventFile), (1, MemoryFile True (fresh_ring 2 64))]\<rparr>"

lemma sample_layout:
  "ok_or (checked_add (64 :: usize) 64) e = Inr 128" "align_up (128 :: usize) 64 = 128"
  "ok_or (checked_mul (128 :: usize) 2) e = Inr 256" "ok_or (checked_add (256 :: usize) 256) e = Inr 512"
  by (simp_all add: checked_add_def checked_mul_def ok_or_def align_up_def)

lemma sample_memory:
  "write_header (zero_memory 512) (initial_header 2 128 64) = Inr (fresh_ring 2 64)"
  "map_len (fresh_ring 2 64) = 512" "header (fresh_ring 2 64) = Inr (initial_header 2 128 64)"
  "validate_header (initial_header 2 128 64) 512 = Inr ()"
  by (simp_all add: write_header_def fresh_ring_def zero_memory_def in_bounds_def round_up_def sample_layout
      header_def decode_encode_header validate_header_def initial_header_def CACHE_LINE_def)

lemma sample_reach:
  "map_len (zero_memory 512) = 512" "reach 512 (zero_memory 512) = zero_memory 512"
  "reach 512 (fresh_ring 2 64) = fresh_ring 2 64" "(fresh_ring 2 64)\<lparr>map_len := 512\<rparr> = fresh_ring 2 64"
  using sample_memory(2) by (cases "fresh_ring 2 64"; simp add: reach_def zero_memory_def)+

lemma sample_created:
  "pair_create plain_env 2 64 empty_process = Some (Inr (sample_producer, sample_consumer), sample_process)"
  by (simp add: pair_create_def act_defs or_drop_def sys_call_def memfd_open_def open_file_def install_fd_def
      duplicate_fd_def create_eventfd_def mapping_shared_def mapped_header_def mapped_write_header_def mapped_file_def
      set_file_def file_of_def plain_env_def empty_process_def Let_def sample_layout sample_memory CACHE_LINE_def
      sample_reach sample_producer_def sample_consumer_def sample_process_def)

section \<open>Handing an endpoint over\<close>

lemma ring_validates:
  assumes "ring_rel m t q"
  shows "validate_header (decode_header m) (map_len m) = Inr ()"
proof -
  let ?h = "decode_header m"
  have shape: "ring_shape ?h (map_len m)" by (rule ring_relD(1) [OF assms])
  have "unat (slot_stride ?h) * unat (slot_count ?h) \<le> (2 ^ 32 - 1) * (2 ^ 32 - 1)"
    by (intro mult_mono) (simp_all add: unat_u32_le)
  then have "map_len m < 2 ^ 64" using shape by (simp add: ring_shape_def)
  then show ?thesis using shape by (simp add: validate_header_iff)
qed

lemma live_ring_attaches:
  assumes "ring_rel m t q" and "calls env = (\<lambda>_. None)"
  shows "producer_from_descriptor (calls env) m = Inr m" "consumer_from_descriptor (calls env) m = Inr m"
  by (simp_all add: producer_from_descriptor_def consumer_from_descriptor_def assms(2) ring_header [OF assms(1)]
      ring_validates [OF assms(1)])

lemma owner_mapped:
  assumes "owned (p, add_mset x E)" and "maps_of x = [a]"
  obtains f sealed m where "file_of p (memory_of x) = Some f" "map_of (files p) f = Some (MemoryFile sealed m)"
    "mapped_file p a = Some (f, map_len m, sealed, m)" "0 < map_len m"
proof -
  have "owner_ok p x" using assms(1) by (simp add: owned.simps)
  with assms(2) that show thesis by (force simp: owner_ok_def mapped_file_def)
qed

lemma attached_mapped:
  "attached f m p a p' \<Longrightarrow> map_of (files p) f = Some (MemoryFile sealed m) \<Longrightarrow>
   mapped_file p' a = Some (f, map_len m, sealed, m) \<and> fd_table p' = fd_table p \<and>
   map_of (files p') = map_of (files p)"
  by (simp add: attached_def tables_def mapped_file_def)

lemma sample_ring_reachable:
  "rtranclp (owner_step strict) (empty_process, {#})
     (sample_process, {#ProducerEnd sample_producer, ConsumerEnd sample_consumer#})"
  by (rule r_into_rtranclp, rule owner_step.created [OF plain_env_fresh sample_created])

lemma sample_owned: "owned (sample_process, {#ProducerEnd sample_producer, ConsumerEnd sample_consumer#})"
  using owners.reachable_inv [OF sample_ring_reachable] by blast

lemma sample_mapped:
  "mapped_file sample_process (p_mapping sample_producer) = Some (1, 512, True, fresh_ring 2 64)"
  "mapped_file sample_process (c_mapping sample_consumer) = Some (1, 512, True, fresh_ring 2 64)"
  by (simp_all add: mapped_file_def sample_process_def sample_producer_def sample_consumer_def)

lemma handover_producer:
  assumes env: "fresh_env env" and inv: "owned (p, add_mset (ProducerEnd e) E)"
    and d: "producer_into_descriptor e p = (d, p1)"
    and m: "mapped_file p (p_mapping e) = Some (f, len, sealed, m)"
  shows "case producer_attach env d p1 of
      None \<Rightarrow> False
    | Some (Inl err, p2) \<Rightarrow> producer_from_descriptor (calls env) m = Inl err \<and> owned (p2, E)
    | Some (Inr e', p2) \<Rightarrow>
        producer_from_descriptor (calls env) m = Inr m \<and>
        p_memory_fd e' = p_memory_fd e \<and> p_event_fd e' = p_event_fd e \<and>
        mapped_file p2 (p_mapping e') = Some (f, len, sealed, m) \<and>
        fd_table p2 = fd_table p \<and> map_of (files p2) = map_of (files p)"
proof -
  let ?d = "from_owned_fds (p_memory_fd e) (p_event_fd e)"
  have p1: "d = ?d" "p1 = drop_mapping (p_mapping e) p" using d by (simp_all add: producer_into_descriptor_def)
  have fds: "memory_fd d = p_memory_fd e" "event_fd d = p_event_fd e" by (simp_all add: p1 from_owned_fds_def)
  have same: "fd_table p1 = fd_table p" "files p1 = files p" by (simp_all add: p1 drop_mapping_def)
  have inv1: "owned (p1, add_mset (InTransfer Writer d) E)"
    using step_released(1) [OF inv] by (simp add: p1)
  obtain f' s' m' where f': "file_of p (memory_of (ProducerEnd e)) = Some f'"
    "map_of (files p) f' = Some (MemoryFile s' m')"
    "mapped_file p (p_mapping e) = Some (f', map_len m', s', m')" "0 < map_len m'"
    by (rule owner_mapped [OF inv]) auto
  with m have eq: "f' = f" "s' = sealed" "m' = m" "len = map_len m" by auto
  have f: "file_of p1 (memory_fd d) = Some f" "map_of (files p1) f = Some (MemoryFile sealed m)" "0 < map_len m"
    using f' by (simp_all add: eq fds same file_of_def)
  from producer_attach_agrees [OF env f] refl [of p1] show ?thesis
  proof (cases rule: agreesE)
    case (failed err p2)
    then show ?thesis using step_closed(1) [OF inv1] by simp
  next
    case (returned e' y p2)
    then show ?thesis using attached_mapped [OF _ f(2)] by (auto simp: fds same eq(4))
  qed
qed

lemma handover_consumer:
  assumes env: "fresh_env env" and inv: "owned (p, add_mset (ConsumerEnd e) E)"
    and d: "consumer_into_descriptor e p = (d, p1)"
    and m: "mapped_file p (c_mapping e) = Some (f, len, sealed, m)"
  shows "case consumer_attach env d p1 of
      None \<Rightarrow> False
    | Some (Inl err, p2) \<Rightarrow> consumer_from_descriptor (calls env) m = Inl err \<and> owned (p2, E)
    | Some (Inr e', p2) \<Rightarrow>
        consumer_from_descriptor (calls env) m = Inr m \<and>
        c_memory_fd e' = c_memory_fd e \<and> c_event_fd e' = c_event_fd e \<and>
        mapped_file p2 (c_mapping e') = Some (f, len, sealed, m) \<and>
        fd_table p2 = fd_table p \<and> map_of (files p2) = map_of (files p)"
proof -
  let ?d = "from_owned_fds (c_memory_fd e) (c_event_fd e)"
  have p1: "d = ?d" "p1 = drop_mapping (c_mapping e) p" using d by (simp_all add: consumer_into_descriptor_def)
  have fds: "memory_fd d = c_memory_fd e" "event_fd d = c_event_fd e" by (simp_all add: p1 from_owned_fds_def)
  have same: "fd_table p1 = fd_table p" "files p1 = files p" by (simp_all add: p1 drop_mapping_def)
  have inv1: "owned (p1, add_mset (InTransfer Reader d) E)"
    using step_released(1) [OF inv] by (simp add: p1)
  obtain f' s' m' where f': "file_of p (memory_of (ConsumerEnd e)) = Some f'"
    "map_of (files p) f' = Some (MemoryFile s' m')"
    "mapped_file p (c_mapping e) = Some (f', map_len m', s', m')" "0 < map_len m'"
    by (rule owner_mapped [OF inv]) auto
  with m have eq: "f' = f" "s' = sealed" "m' = m" "len = map_len m" by auto
  have f: "file_of p1 (memory_fd d) = Some f" "map_of (files p1) f = Some (MemoryFile sealed m)" "0 < map_len m"
    using f' by (simp_all add: eq fds same file_of_def)
  from consumer_attach_agrees [OF env f] refl [of p1] show ?thesis
  proof (cases rule: agreesE)
    case (failed err p2)
    then show ?thesis using step_closed(1) [OF inv1] by simp
  next
    case (returned e' y p2)
    then show ?thesis using attached_mapped [OF _ f(2)] by (auto simp: fds same eq(4))
  qed
qed

section \<open>A second producer\<close>

text \<open>A lease of a slot that has been published since can still be filled and committed.\<close>

lemma commit_again:
  assumes rel: "ring_rel m t (q @ [x])" and p: "length p \<le> unat (payload_capacity (decode_header m))"
    and l: "l = \<lparr>pl_slot = slot_off (decode_header m) (t + length q),
      pl_head = of_nat (t + length q), pl_committed = False\<rparr>"
  obtains m1 m2 where "fill_payload m l p = Inr m1" and "commit WroteAll m1 l d (length p) = (Inr (), m2)"
    and "header m2 = header m"
proof -
  let ?h = "decode_header m" and ?s = "slot_off (decode_header m) (t + length q)"
  let ?m1 = "poke m (?s + 64) p"
  have s: "?s + 64 + unat (payload_capacity ?h) \<le> map_len m" "256 \<le> ?s"
    using slot_frame_in_bounds [OF ring_relD(1,2) [OF rel]] slot_off_ge by blast+
  have h1: "decode_header ?m1 = ?h" using s(2) by (simp add: header_poke_outside)
  have header: "header m = Inr ?h" "header ?m1 = Inr ?h"
    using ring_header [OF rel] h1 by (simp_all add: header_def split: if_splits)
  have fill: "fill_payload m l p = Inr ?m1"
    using s p by (simp add: fill_payload_def payload_mut_def capacity_def header(1) in_bounds_def l)
  obtain m2 where m2: "write_descriptor ?m1 ?s (stamp d (length p)) = Inr m2"
    and len: "map_len m2 = map_len m" and other: "\<And>a n. a + n \<le> ?s \<or> ?s + 64 \<le> a \<Longrightarrow> peek m2 a n = peek ?m1 a n"
    using write_descriptor_Inr [of ?s ?m1 "stamp d (length p)"] s by (metis add_leD1 map_len_poke)
  have "decode_header m2 = ?h"
    using h1 other s(2) by (simp add: decode_header_def)
  then have "decode_header (store_head m2 (of_nat (t + length q) + 1)) = ?h"
    using ring_relD(4) [OF rel] by (cases ?h) simp
  then have "header (store_head m2 (of_nat (t + length q) + 1)) = header m"
    using header(1) len by (simp add: header_def in_bounds_def split: if_splits)
  moreover have "commit WroteAll ?m1 l d (length p) = (Inr (), store_head m2 (of_nat (t + length q) + 1))"
    using p unat_u32_le [of "payload_capacity ?h"] m2
    by (simp add: commit_def l capacity_def header(2) signal_eventfd_def)
  ultimately show ?thesis using fill by (intro that)
qed

lemma same_lease_twice:
  assumes rel: "ring_rel m t q" and room: "length q < unat (slot_count (decode_header m))"
    and fits: "cursor_fits (decode_header m) (t + length q + 1)"
    and p: "length p \<le> unat (payload_capacity (decode_header m))"
      "length p' \<le> unat (payload_capacity (decode_header m))"
  obtains l m1 m2 m3 m4 where "try_reserve m = Inr (Some l, m)"
    and "fill_payload m l p = Inr m1" and "commit WroteAll m1 l d (length p) = (Inr (), m2)"
    and "fill_payload m2 l p' = Inr m3" and "commit WroteAll m3 l d' (length p') = (Inr (), m4)"
    and "queued_frames m2 = Inr (of_nat (length q + 1))" and "queued_frames m4 = Inr (of_nat (length q + 1))"
proof -
  let ?h = "decode_header m"
  obtain l m1 m2 where l: "try_reserve m = Inr (Some l, m)" and fill: "fill_payload m l p = Inr m1"
    and commit: "commit WroteAll m1 l d (length p) = (signal_eventfd WroteAll, m2)"
    and rel2: "ring_rel m2 t (q @ [(stamp d (length p), p)])"
    and h2: "decode_header m2 = ?h\<lparr>head := of_nat (t + length q + 1)\<rparr>"
    by (rule reserve_fill_commit [OF rel room fits p(1)])
  have "l = \<lparr>pl_slot = slot_off (decode_header m2) (t + length q), pl_head = of_nat (t + length q),
      pl_committed = False\<rparr>"
    using l try_reserve_room [OF rel room] by (simp add: h2 slot_off_def)
  then obtain m3 m4 where again: "fill_payload m2 l p' = Inr m3"
    "commit WroteAll m3 l d' (length p') = (Inr (), m4)" "header m4 = header m2"
    using commit_again [OF rel2, of p' l d'] p(2) by (auto simp: h2)
  have "head (decode_header m2) - tail (decode_header m2) = of_nat (length q + 1)"
    using arg_cong [OF ring_cursor_diff(1) [OF rel2], of "of_nat :: nat \<Rightarrow> u64"] by simp
  then have "queued_frames m2 = Inr (of_nat (length q + 1))" "queued_frames m4 = Inr (of_nat (length q + 1))"
    using again(3) by (simp_all add: queued_frames_def ring_header [OF rel2])
  moreover have "commit WroteAll m1 l d (length p) = (Inr (), m2)"
    using commit by (simp add: signal_eventfd_def)
  ultimately show ?thesis using that [OF l fill _ again(1,2)] by blast
qed

definition create_succeeds :: "os_env \<Rightarrow> u32 \<Rightarrow> u32 \<Rightarrow> process \<Rightarrow> bool" where
  "create_succeeds env n c p \<longleftrightarrow>
     2 \<le> n \<and> 0 < c \<and> unat c \<le> 2 ^ 32 - 128 \<and> (\<forall>k. k \<noteq> Fstat \<longrightarrow> calls env k = None) \<and>
     pick_address env (map fst (mappings p)) mod 64 = 0"

lemma second_producer:
  assumes env: "fresh_env env" "calls env = (\<lambda>_. None)" and ok: "create_succeeds env n c p"
  obtains pr co p1 d p2 pr' p3 f where "pair_create env n c p = Some (Inr (pr, co), p1)"
    and "consumer_into_descriptor co p1 = (d, p2)" and "producer_attach env d p2 = Some (Inr pr', p3)"
    and "p_mapping pr \<noteq> p_mapping pr'"
    and "mapped_file p3 (p_mapping pr) = Some (f, map_len (fresh_ring n c), True, fresh_ring n c)"
    and "mapped_file p3 (p_mapping pr') = Some (f, map_len (fresh_ring n c), True, fresh_ring n c)"
proof -
  let ?m = "fresh_ring n c"
  have p: "tables (fd_table p) (mappings p) (map_of (files p)) p" by (simp add: tables_def)
  have create: "ring_create (calls env) (pick_address env (map fst (mappings p))) n c = Inr ?m"
    using ok by (simp add: ring_create_Inr_iff create_succeeds_def)
  from ok have rel: "ring_rel ?m 0 []" by (intro fresh_ring_empty) (simp_all add: create_succeeds_def)
  obtain pr co p1 where run: "pair_create env n c p = Some (Inr (pr, co), p1)" and own: "pair_owned p ?m pr co p1"
    using pair_create_agrees [OF env(1) p, of n c] p by (cases rule: agreesE) (auto simp: create)
  obtain d p2 where d: "consumer_into_descriptor co p1 = (d, p2)" by (cases "consumer_into_descriptor co p1")
  obtain f e where distinct: "distinct [c_event_fd co, p_event_fd pr, c_memory_fd co, p_memory_fd pr]"
      "distinct [map_address (c_mapping co), map_address (p_mapping pr)]"
      "set [map_address (c_mapping co), map_address (p_mapping pr)] \<inter> fst ` set (mappings p) = {}"
    and p1: "tables
          ((c_event_fd co, e) # (p_event_fd pr, e) # (c_memory_fd co, f) # (p_memory_fd pr, f) # fd_table p)
          ((map_address (c_mapping co), f, map_len ?m) # (map_address (p_mapping pr), f, map_len ?m) # mappings p)
          ((map_of (files p))(e \<mapsto> EventFile, f \<mapsto> MemoryFile True ?m)) p1"
    using own unfolding pair_owned_def by blast
  have p2: "fd_table p2 = fd_table p1" "mappings p2 = (map_address (p_mapping pr), f, map_len ?m) # mappings p"
    "files p2 = files p1" "memory_fd d = c_memory_fd co"
    using d distinct p1
    by (auto simp: consumer_into_descriptor_def from_owned_fds_def drop_mapping_def tables_def)
  have f: "file_of p2 (memory_fd d) = Some f" "map_of (files p2) f = Some (MemoryFile True ?m)" "0 < map_len ?m"
    using p1 distinct(1) by (simp_all add: file_of_def p2 tables_def map_len_fresh_ring)
  obtain pr' p3 where attach: "producer_attach env d p2 = Some (Inr pr', p3)" and a: "attached f ?m p2 (p_mapping pr') p3"
    using producer_attach_agrees [OF env(1) f] refl [of p2]
    by (cases rule: agreesE) (auto simp: live_ring_attaches [OF rel env(2)])
  have "p_mapping pr \<noteq> p_mapping pr'"
    and "mapped_file p3 (p_mapping pr) = Some (f, map_len ?m, True, ?m)"
    using a f(2) by (auto simp: attached_def tables_def p2 mapped_file_def)
  moreover have "mapped_file p3 (p_mapping pr') = Some (f, map_len ?m, True, ?m)"
    using attached_mapped [OF a f(2)] by blast
  ultimately show thesis using that run d attach by blast
qed

section \<open>Properties of the descriptors\<close>

text \<open>C13: Creating a ring succeeds exactly for at least two slots, a positive payload capacity whose slot stride
  fits the 32-bit field, working system calls and an aligned mapping. The two endpoints then own exactly
  four new descriptors and two new mappings of one sealed memory, which represents the empty queue.
  Otherwise the error is the one of the failing step, and whatever had been opened or mapped before it
  is closed and unmapped again.\<close>

theorem pair_create_exact:
  assumes env: "fresh_env env"
  shows "case pair_create env n c p of
      None \<Rightarrow> False
    | Some (Inl e, p') \<Rightarrow>
        \<not> create_succeeds env n c p \<and> ring_create (calls env) (pick_address env (map fst (mappings p))) n c = Inl e \<and>
        fd_table p' = fd_table p \<and> mappings p' = mappings p \<and> map_of (files p) \<subseteq>\<^sub>m map_of (files p')
    | Some (Inr (pr, co), p') \<Rightarrow>
        create_succeeds env n c p \<and> pair_owned p (fresh_ring n c) pr co p' \<and> ring_rel (fresh_ring n c) 0 []"
proof -
  have p: "tables (fd_table p) (mappings p) (map_of (files p)) p" by (simp add: tables_def)
  from pair_create_agrees [OF env p, of n c] p show ?thesis
  proof (cases rule: agreesE)
    case (failed e p')
    then have "\<not> create_succeeds env n c p"
      using ring_create_Inr_iff [of "calls env" "pick_address env (map fst (mappings p))" n c "fresh_ring n c"]
      by (auto simp: create_succeeds_def)
    then show ?thesis using failed by (simp add: restored_def)
  next
    case (returned x m p')
    then have "create_succeeds env n c p" "m = fresh_ring n c" "ring_rel (fresh_ring n c) 0 []"
      using fresh_ring_empty [of n c] by (auto simp: ring_create_Inr_iff create_succeeds_def)
    then show ?thesis using returned by (auto split: prod.splits)
  qed
qed

theorem pair_create_exact_witness:
  "pair_owned empty_process (fresh_ring 2 64) sample_producer sample_consumer sample_process \<and>
   create_succeeds plain_env 2 64 empty_process"
  using pair_create_exact [OF plain_env_fresh, of 2 64 empty_process]
  by (simp add: sample_created create_succeeds_def)

text \<open>C12: In every state that creating, handing over, attaching, using and dropping endpoints can reach, with any
  of the system calls failing, every open descriptor and every mapping has exactly one owner: nothing
  leaks, nothing is closed twice, and the process holds nothing once all owners are gone. Every endpoint's
  mapping covers exactly the memory behind its descriptor. As long as descriptors are attached in the
  role they came from, a memory has at most one writing and at most one reading side.\<close>

theorem endpoints_own_exactly:
  assumes "rtranclp (owner_step strict) (empty_process, {#}) (p, E)"
  shows "distinct (map fst (fd_table p)) \<and> distinct (map fst (mappings p)) \<and>
    \<Sum>\<^sub># (image_mset owner_fds E) = mset (map fst (fd_table p)) \<and>
    \<Sum>\<^sub># (image_mset owner_maps E) = mset (map fst (mappings p)) \<and>
    (\<forall>x \<in># E. owner_ok p x) \<and>
    (E = {#} \<longrightarrow> fd_table p = [] \<and> mappings p = []) \<and>
    (strict \<longrightarrow> (\<forall>r f. size (filter_mset (\<lambda>x. role_of x = r \<and> file_of p (memory_of x) = Some f) E) \<le> 1))"
  using owners.reachable_inv [OF assms] by (auto simp: owned.simps one_per_role.simps simp flip: count_roles)

theorem endpoints_own_exactly_witness:
  "rtranclp (owner_step True) (empty_process, {#})
     (sample_process, {#ProducerEnd sample_producer, ConsumerEnd sample_consumer#}) \<and>
   {#3, 5, 4, 6#} = mset (map fst (fd_table sample_process)) \<and>
   {#4096, 16781312#} = mset (map fst (mappings sample_process))"
proof (intro conjI)
  let ?E = "{#ProducerEnd sample_producer, ConsumerEnd sample_consumer#}"
  have sums: "\<Sum>\<^sub># (image_mset owner_fds ?E) = mset (map fst (fd_table sample_process))"
    "\<Sum>\<^sub># (image_mset owner_maps ?E) = mset (map fst (mappings sample_process))"
    using endpoints_own_exactly [OF sample_ring_reachable [of True]] by (auto simp only:)
  show "{#3, 5, 4, 6#} = mset (map fst (fd_table sample_process))"
    unfolding sums(1) [symmetric] by (simp add: owner_fds_def sample_producer_def sample_consumer_def)
  show "{#4096, 16781312#} = mset (map fst (mappings sample_process))"
    unfolding sums(2) [symmetric] by (simp add: owner_maps_def sample_producer_def sample_consumer_def)
qed (rule sample_ring_reachable)

text \<open>C14: Turning an endpoint into a descriptor and attaching to it again is a round trip: the new endpoint has the
  same descriptors and sees the same memory. When attaching fails, the error is the one of the checks on
  the memory, and both descriptors are closed. A memory that represents a queue always passes the checks.\<close>

theorem handover_roundtrip:
  assumes env: "fresh_env env"
  shows "(owned (p, add_mset (ProducerEnd e) E) \<and> mapped_file p (p_mapping e) = Some (f, len, sealed, m) \<longrightarrow>
     (case (case producer_into_descriptor e p of (d, p1) \<Rightarrow> producer_attach env d p1) of
        None \<Rightarrow> False
      | Some (Inl err, p2) \<Rightarrow> producer_from_descriptor (calls env) m = Inl err \<and> owned (p2, E)
      | Some (Inr e', p2) \<Rightarrow>
          producer_from_descriptor (calls env) m = Inr m \<and>
          p_memory_fd e' = p_memory_fd e \<and> p_event_fd e' = p_event_fd e \<and>
          mapped_file p2 (p_mapping e') = Some (f, len, sealed, m) \<and>
          fd_table p2 = fd_table p \<and> map_of (files p2) = map_of (files p))) \<and>
   (owned (p, add_mset (ConsumerEnd u) E) \<and> mapped_file p (c_mapping u) = Some (f, len, sealed, m) \<longrightarrow>
     (case (case consumer_into_descriptor u p of (d, p1) \<Rightarrow> consumer_attach env d p1) of
        None \<Rightarrow> False
      | Some (Inl err, p2) \<Rightarrow> consumer_from_descriptor (calls env) m = Inl err \<and> owned (p2, E)
      | Some (Inr u', p2) \<Rightarrow>
          consumer_from_descriptor (calls env) m = Inr m \<and>
          c_memory_fd u' = c_memory_fd u \<and> c_event_fd u' = c_event_fd u \<and>
          mapped_file p2 (c_mapping u') = Some (f, len, sealed, m) \<and>
          fd_table p2 = fd_table p \<and> map_of (files p2) = map_of (files p))) \<and>
   (ring_rel m t q \<and> calls env = (\<lambda>_. None) \<longrightarrow>
     producer_from_descriptor (calls env) m = Inr m \<and> consumer_from_descriptor (calls env) m = Inr m)"
proof (intro conjI impI; (elim conjE)?)
  assume "owned (p, add_mset (ProducerEnd e) E)" "mapped_file p (p_mapping e) = Some (f, len, sealed, m)"
  from handover_producer [OF env this(1) _ this(2)]
  show "case (case producer_into_descriptor e p of (d, p1) \<Rightarrow> producer_attach env d p1) of
        None \<Rightarrow> False
      | Some (Inl err, p2) \<Rightarrow> producer_from_descriptor (calls env) m = Inl err \<and> owned (p2, E)
      | Some (Inr e', p2) \<Rightarrow>
          producer_from_descriptor (calls env) m = Inr m \<and>
          p_memory_fd e' = p_memory_fd e \<and> p_event_fd e' = p_event_fd e \<and>
          mapped_file p2 (p_mapping e') = Some (f, len, sealed, m) \<and>
          fd_table p2 = fd_table p \<and> map_of (files p2) = map_of (files p)"
    by (cases "producer_into_descriptor e p") (simp only: prod.case)
next
  assume "owned (p, add_mset (ConsumerEnd u) E)" "mapped_file p (c_mapping u) = Some (f, len, sealed, m)"
  from handover_consumer [OF env this(1) _ this(2)]
  show "case (case consumer_into_descriptor u p of (d, p1) \<Rightarrow> consumer_attach env d p1) of
        None \<Rightarrow> False
      | Some (Inl err, p2) \<Rightarrow> consumer_from_descriptor (calls env) m = Inl err \<and> owned (p2, E)
      | Some (Inr u', p2) \<Rightarrow>
          consumer_from_descriptor (calls env) m = Inr m \<and>
          c_memory_fd u' = c_memory_fd u \<and> c_event_fd u' = c_event_fd u \<and>
          mapped_file p2 (c_mapping u') = Some (f, len, sealed, m) \<and>
          fd_table p2 = fd_table p \<and> map_of (files p2) = map_of (files p)"
    by (cases "consumer_into_descriptor u p") (simp only: prod.case)
qed (rule live_ring_attaches; assumption)+

theorem handover_roundtrip_witness:
  "case (case producer_into_descriptor sample_producer sample_process of (d, p1) \<Rightarrow> producer_attach plain_env d p1) of
     Some (Inr e', p2) \<Rightarrow>
       p_memory_fd e' = 3 \<and> p_event_fd e' = 5 \<and> fd_table p2 = fd_table sample_process \<and>
       mapped_file p2 (p_mapping e') = Some (1, 512, True, fresh_ring 2 64)
   | _ \<Rightarrow> False"
proof -
  have live: "ring_rel (fresh_ring 2 64) 0 []" by (rule fresh_2_64)
  have calls: "calls plain_env = (\<lambda>_. None)" by (simp add: plain_env_def)
  note all = handover_roundtrip [OF plain_env_fresh, where p = sample_process and e = sample_producer and
      E = "{#ConsumerEnd sample_consumer#}" and f = 1 and len = 512 and sealed = True and m = "fresh_ring 2 64"
      and t = 0 and q = "[]"]
  show ?thesis
    using conjunct1 [OF all] conjunct2 [OF conjunct2 [OF all]] sample_owned sample_mapped(1) live calls
    by (auto simp: sample_producer_def split: option.splits sum.splits prod.splits)
qed

text \<open>C32: A descriptor does not record its role. The descriptor of a consumer can be attached as a second producer on
  the memory of the first one. Both are then handed the same slot, both publications report success, and
  one frame is queued.\<close>

theorem descriptor_forgets_role:
  assumes env: "fresh_env env" "calls env = (\<lambda>_. None)" and ok: "create_succeeds env n c p"
    and len: "length a \<le> unat c" "length b \<le> unat c"
  shows "\<exists>pr co p1 d p2 pr' p3 f.
    pair_create env n c p = Some (Inr (pr, co), p1) \<and>
    consumer_into_descriptor co p1 = (d, p2) \<and>
    producer_attach env d p2 = Some (Inr pr', p3) \<and> p_mapping pr \<noteq> p_mapping pr' \<and>
    mapped_file p3 (p_mapping pr) = Some (f, map_len (fresh_ring n c), True, fresh_ring n c) \<and>
    mapped_file p3 (p_mapping pr') = Some (f, map_len (fresh_ring n c), True, fresh_ring n c) \<and>
    (\<exists>l m1 m2 m3 m4. try_reserve (fresh_ring n c) = Inr (Some l, fresh_ring n c) \<and>
       fill_payload (fresh_ring n c) l a = Inr m1 \<and> commit WroteAll m1 l x (length a) = (Inr (), m2) \<and>
       fill_payload m2 l b = Inr m3 \<and> commit WroteAll m3 l y (length b) = (Inr (), m4) \<and>
       queued_frames m2 = Inr 1 \<and> queued_frames m4 = Inr 1)"
proof -
  let ?m = "fresh_ring n c"
  from ok have bounds: "2 \<le> n" "unat c \<le> 4294967168" by (simp_all add: create_succeeds_def)
  have rel: "ring_rel ?m 0 []" by (rule fresh_ring_empty [OF bounds])
  have room: "length ([] :: frame list) < unat (slot_count (decode_header ?m))"
    "cursor_fits (decode_header ?m) (0 + length ([] :: frame list) + 1)"
    "length a \<le> unat (payload_capacity (decode_header ?m))" "length b \<le> unat (payload_capacity (decode_header ?m))"
    using bounds len by (simp_all add: decode_fresh_ring initial_header_def cursor_fits_def word_le_nat_alt)
  obtain l m1 m2 m3 m4 where "try_reserve ?m = Inr (Some l, ?m)"
    "fill_payload ?m l a = Inr m1" "commit WroteAll m1 l x (length a) = (Inr (), m2)"
    "fill_payload m2 l b = Inr m3" "commit WroteAll m3 l y (length b) = (Inr (), m4)"
    "queued_frames m2 = Inr (of_nat (length ([] :: frame list) + 1))"
    "queued_frames m4 = Inr (of_nat (length ([] :: frame list) + 1))"
    by (rule same_lease_twice [OF rel room, of x y])
  then have "\<exists>l m1 m2 m3 m4. try_reserve ?m = Inr (Some l, ?m) \<and>
       fill_payload ?m l a = Inr m1 \<and> commit WroteAll m1 l x (length a) = (Inr (), m2) \<and>
       fill_payload m2 l b = Inr m3 \<and> commit WroteAll m3 l y (length b) = (Inr (), m4) \<and>
       queued_frames m2 = Inr 1 \<and> queued_frames m4 = Inr 1"
    by auto
  with second_producer [OF env ok] show ?thesis by metis
qed

theorem descriptor_forgets_role_witness:
  "\<exists>d p2 pr' p3. consumer_into_descriptor sample_consumer sample_process = (d, p2) \<and>
     producer_attach plain_env d p2 = Some (Inr pr', p3) \<and> p_mapping sample_producer \<noteq> p_mapping pr' \<and>
     mapped_file p3 (p_mapping sample_producer) = mapped_file p3 (p_mapping pr')"
proof -
  have "calls plain_env = (\<lambda>_. None)" "create_succeeds plain_env 2 64 empty_process"
    by (simp_all add: create_succeeds_def plain_env_def empty_process_def)
  from descriptor_forgets_role [OF plain_env_fresh this, of "[]" "[]" undefined undefined] show ?thesis
    by (auto simp: sample_created)
qed

end
