(* ===== verification/Session_Actor.thy ===== *)
theory Session_Actor
  imports Wireless_Types Transition_System
begin

text \<open>
  The session actor of \<open>src/wireless/session.rs\<close>. \<open>handle_command\<close> is one arm of the actor's loop:
  the new local state, the events it emits in order, and the reply. \<open>session_step\<close> is the actor with
  its surroundings: the bounded command and event channels, the one-shot replies, clients that send and
  may drop their handles, and an event consumer that may fall behind or go away. \<open>await_reply\<close> is what
  the methods of \<open>SessionHandle\<close> return.

  The lemmas show that the local state is always well formed, that the emitted events form a legal
  trace from which the whole local state can be rebuilt, that every request is answered exactly once
  and in order, and that outstanding requests are always answered after finitely many steps.
\<close>

section \<open>Commands, events and the handler\<close>

datatype SessionState = Idle | Configured | Streaming | Suspended | Closed

datatype SessionEvent =
    StateChanged SessionState
  | ConfigurationChanged AudioConfiguration
  | PositionChanged PresentationPosition

datatype Command =
    Configure AudioConfiguration
  | Start
  | Suspend
  | Stop
  | UpdatePosition PresentationPosition
  | GetPosition
  | Close

datatype session_error =
    CannotConfigure SessionState
  | InvalidConfiguration types_error
  | NoConfiguration
  | CannotStart SessionState
  | CannotSuspend SessionState
  | CannotStop SessionState
  | PositionOutsideStreaming
  | ClockMovedBackwards
  | OctetsMovedBackwards
  | OffloadReportsOctets
  | SessionStopped
  | DroppedConfigureResponse
  | DroppedCommandResponse
  | DroppedPositionResponse
  | DroppedCloseResponse
  | EventConsumerStopped

datatype reply =
    Done "session_error + unit"
  | CurrentPosition PresentationPosition
  | ClosedAck

record session =
  state :: SessionState
  configuration :: "AudioConfiguration option"
  position :: PresentationPosition

definition new_session :: session where
  "new_session = \<lparr>state = Idle, configuration = None, position = default_position\<rparr>"

definition check_position ::
  "SessionType \<Rightarrow> session \<Rightarrow> PresentationPosition \<Rightarrow> session_error + unit"
where
  "check_position ty s p =
     ensure (state s = Streaming) PositionOutsideStreaming (
     ensure (monotonic_time_ns (position s) \<le> monotonic_time_ns p) ClockMovedBackwards (
     if carries_host_payload ty
     then ensure (transmitted_octets (position s) \<le> transmitted_octets p) OctetsMovedBackwards
            (Inr ())
     else ensure (transmitted_octets p = 0) OffloadReportsOctets (Inr ())))"

definition check_configure ::
  "SessionType \<Rightarrow> session \<Rightarrow> AudioConfiguration \<Rightarrow> session_error + unit"
where
  "check_configure ty s c =
     ensure (state s \<in> {Idle, Configured, Suspended}) (CannotConfigure (state s)) (
     map_err InvalidConfiguration (validate_for c ty))"

fun handle_command ::
  "SessionType \<Rightarrow> session \<Rightarrow> Command \<Rightarrow> session \<times> SessionEvent list \<times> reply"
where
  "handle_command ty s (Configure c) =
     (case check_configure ty s c of
        Inl e \<Rightarrow> (s, [], Done (Inl e))
      | Inr _ \<Rightarrow> (s\<lparr>configuration := Some c, state := Configured\<rparr>,
                  [ConfigurationChanged c, StateChanged Configured], Done (Inr ())))"
| "handle_command ty s Start =
     (if configuration s = None then (s, [], Done (Inl NoConfiguration))
      else if state s \<notin> {Configured, Suspended} then (s, [], Done (Inl (CannotStart (state s))))
      else (s\<lparr>state := Streaming\<rparr>, [StateChanged Streaming], Done (Inr ())))"
| "handle_command ty s Suspend =
     (if state s \<noteq> Streaming then (s, [], Done (Inl (CannotSuspend (state s))))
      else (s\<lparr>state := Suspended\<rparr>, [StateChanged Suspended], Done (Inr ())))"
| "handle_command ty s Stop =
     (if state s \<in> {Idle, Closed} then (s, [], Done (Inl (CannotStop (state s))))
      else (\<lparr>state = Idle, configuration = None, position = default_position\<rparr>,
            [StateChanged Idle], Done (Inr ())))"
| "handle_command ty s (UpdatePosition p) =
     (case check_position ty s p of
        Inl e \<Rightarrow> (s, [], Done (Inl e))
      | Inr _ \<Rightarrow> (s\<lparr>position := p\<rparr>, [PositionChanged p], Done (Inr ())))"
| "handle_command ty s GetPosition = (s, [], CurrentPosition (position s))"
| "handle_command ty s Close = (s\<lparr>state := Closed\<rparr>, [StateChanged Closed], ClosedAck)"

section \<open>The actor and its channels\<close>

text \<open>
  A request is the number of its one-shot channel with its command. The answer to a request is the
  reply, or the loss of the reply sender, or the failure of the send on a closed command channel.
  \<open>Returning\<close> is a task that has left its loop and has not yet dropped its channel ends.
\<close>

datatype answer = Replied reply | ReplyDropped | SendFailed

datatype task =
    Receiving session
  | Emitting session "SessionEvent list" nat reply bool
  | Returning "session_error + unit"
  | Ended "session_error + unit"

definition CHANNEL_CAPACITY :: nat where
  "CHANNEL_CAPACITY = 16"

record session_system =
  commands :: "(nat \<times> Command) list"
  task :: task
  events :: "SessionEvent list"
  consumed :: "SessionEvent list"
  receiver_alive :: bool
  handles_alive :: bool
  next_request :: nat
  answers :: "(nat \<times> answer) list"

definition spawn_session :: session_system where
  "spawn_session =
     \<lparr>commands = [], task = Receiving new_session, events = [], consumed = [],
      receiver_alive = True, handles_alive = True, next_request = 0, answers = []\<rparr>"

text \<open>\<open>task_step\<close> are the steps of the spawned task, \<open>client_step\<close> those of its surroundings.\<close>

inductive task_step :: "SessionType \<Rightarrow> session_system \<Rightarrow> session_system \<Rightarrow> bool" for ty where
  recv: "task_step ty s (s\<lparr>commands := q, task := Emitting a' es i r (c = Close)\<rparr>)"
    if "task s = Receiving a" "commands s = (i, c) # q" "handle_command ty a c = (a', es, r)"
| recv_closed: "task_step ty s (s\<lparr>task := Returning (Inr ())\<rparr>)"
    if "task s = Receiving a" "commands s = []" "\<not> handles_alive s"
| emit: "task_step ty s (s\<lparr>events := events s @ [e], task := Emitting a es i r fin\<rparr>)"
    if "task s = Emitting a (e # es) i r fin" "receiver_alive s"
      "length (events s) < CHANNEL_CAPACITY"
| emit_fails: "task_step ty s (s\<lparr>task := Returning (Inl EventConsumerStopped),
                                 answers := answers s @ [(i, ReplyDropped)]\<rparr>)"
    if "task s = Emitting a (e # es) i r fin" "\<not> receiver_alive s"
| reply: "task_step ty s (s\<lparr>task := (if fin then Returning (Inr ()) else Receiving a),
                            answers := answers s @ [(i, Replied r)]\<rparr>)"
    if "task s = Emitting a [] i r fin"
| finish: "task_step ty s (s\<lparr>task := Ended res, commands := [],
                             answers := answers s @ map (\<lambda>(i, _). (i, ReplyDropped)) (commands s)\<rparr>)"
    if "task s = Returning res"

inductive client_step :: "session_system \<Rightarrow> session_system \<Rightarrow> bool" where
  send: "client_step s (s\<lparr>commands := commands s @ [(next_request s, c)],
                          next_request := next_request s + 1\<rparr>)"
    if "handles_alive s" "\<forall>res. task s \<noteq> Ended res" "length (commands s) < CHANNEL_CAPACITY"
| send_fails: "client_step s (s\<lparr>answers := answers s @ [(next_request s, SendFailed)],
                                next_request := next_request s + 1\<rparr>)"
    if "handles_alive s" "task s = Ended res"
| drop_handles: "client_step s (s\<lparr>handles_alive := False\<rparr>)"
| consume: "client_step s (s\<lparr>events := es, consumed := consumed s @ [e]\<rparr>)"
    if "receiver_alive s" "events s = e # es"
| drop_receiver: "client_step s (s\<lparr>receiver_alive := False, events := []\<rparr>)"

definition session_step :: "SessionType \<Rightarrow> session_system \<Rightarrow> session_system \<Rightarrow> bool" where
  "session_step ty s s' \<longleftrightarrow> task_step ty s s' \<or> client_step s s'"

text \<open>The methods of \<open>SessionHandle\<close> turn the answer of their request into a result.\<close>

fun dropped_response :: "Command \<Rightarrow> session_error" where
  "dropped_response (Configure _) = DroppedConfigureResponse"
| "dropped_response (UpdatePosition _) = DroppedPositionResponse"
| "dropped_response GetPosition = DroppedPositionResponse"
| "dropped_response Close = DroppedCloseResponse"
| "dropped_response _ = DroppedCommandResponse"

fun await_reply :: "Command \<Rightarrow> answer \<Rightarrow> session_error + PresentationPosition option" where
  "await_reply c SendFailed = Inl SessionStopped"
| "await_reply c ReplyDropped = Inl (dropped_response c)"
| "await_reply c (Replied (Done r)) = and_then r (\<lambda>_. Inr None)"
| "await_reply c (Replied (CurrentPosition p)) = Inr (Some p)"
| "await_reply c (Replied ClosedAck) = Inr None"

section \<open>Well-formed sessions and legal event traces\<close>

definition session_wf :: "SessionType \<Rightarrow> session \<Rightarrow> bool" where
  "session_wf ty a \<longleftrightarrow>
     (state a = Idle \<longrightarrow> configuration a = None \<and> position a = default_position) \<and>
     (state a \<in> {Configured, Streaming, Suspended} \<longrightarrow>
        (\<exists>c. configuration a = Some c \<and> validate_for c ty = Inr ())) \<and>
     (\<not> carries_host_payload ty \<longrightarrow> transmitted_octets (position a) = 0)"

text \<open>
  The events of a session as an observer reads them: the observer's picture of the session, and
  whether a configuration has been announced whose state change is still to come.
\<close>

fun monitor :: "SessionType \<Rightarrow> session \<times> bool \<Rightarrow> SessionEvent \<Rightarrow> (session \<times> bool) option" where
  "monitor ty (s, True) e =
     (if e = StateChanged Configured then Some (s\<lparr>state := Configured\<rparr>, False) else None)"
| "monitor ty (s, False) (ConfigurationChanged c) =
     (if state s \<in> {Idle, Configured, Suspended} \<and> validate_for c ty = Inr ()
      then Some (s\<lparr>configuration := Some c\<rparr>, True) else None)"
| "monitor ty (s, False) (PositionChanged p) =
     (if state s = Streaming \<and> monotonic_time_ns (position s) \<le> monotonic_time_ns p \<and>
         (if carries_host_payload ty then transmitted_octets (position s) \<le> transmitted_octets p
          else transmitted_octets p = 0)
      then Some (s\<lparr>position := p\<rparr>, False) else None)"
| "monitor ty (s, False) (StateChanged Configured) = None"
| "monitor ty (s, False) (StateChanged Streaming) =
     (if state s \<in> {Configured, Suspended} then Some (s\<lparr>state := Streaming\<rparr>, False) else None)"
| "monitor ty (s, False) (StateChanged Suspended) =
     (if state s = Streaming then Some (s\<lparr>state := Suspended\<rparr>, False) else None)"
| "monitor ty (s, False) (StateChanged Idle) =
     (if state s \<in> {Configured, Streaming, Suspended} then Some (new_session, False) else None)"
| "monitor ty (s, False) (StateChanged Closed) =
     (if state s \<noteq> Closed then Some (s\<lparr>state := Closed\<rparr>, False) else None)"

fun trace :: "SessionType \<Rightarrow> session \<times> bool \<Rightarrow> SessionEvent list \<Rightarrow> (session \<times> bool) option" where
  "trace ty o1 [] = Some o1"
| "trace ty o1 (e # es) = Option.bind (monitor ty o1 e) (\<lambda>o2. trace ty o2 es)"

lemma trace_append: "trace ty o1 (es @ fs) = Option.bind (trace ty o1 es) (\<lambda>o2. trace ty o2 fs)"
  by (induction es arbitrary: o1) (auto simp: bind_eq_None_conv split: bind_splits)

lemma trace_prefix: "trace ty o1 (es @ fs) \<noteq> None \<Longrightarrow> trace ty o1 es \<noteq> None"
  by (cases "trace ty o1 es") (simp_all add: trace_append)

lemma trace_extend: "trace ty o1 es = Some o2 \<Longrightarrow> trace ty o1 (es @ fs) = trace ty o2 fs"
  by (simp add: trace_append)

lemma new_session_wf: "session_wf ty new_session" "state new_session \<noteq> Closed"
  by (simp_all add: session_wf_def new_session_def default_position_def)

lemma check_configure_Inr_iff:
  "check_configure ty s c = Inr u \<longleftrightarrow>
     state s \<in> {Idle, Configured, Suspended} \<and> validate_for c ty = Inr ()"
  by (simp add: check_configure_def result_simps)

lemma check_position_Inr_iff:
  "check_position ty s p = Inr u \<longleftrightarrow>
     state s = Streaming \<and> monotonic_time_ns (position s) \<le> monotonic_time_ns p \<and>
     (if carries_host_payload ty then transmitted_octets (position s) \<le> transmitted_octets p
      else transmitted_octets p = 0)"
  by (simp add: check_position_def result_simps)

lemma handle_command_step:
  assumes "session_wf ty a" and "state a \<noteq> Closed" and "handle_command ty a c = (a', es, r)"
  shows "session_wf ty a'" and "state a' = Closed \<longleftrightarrow> c = Close"
    and "trace ty (a, False) es = Some (a', False)" and "length es \<le> 2"
  using assms
  by (cases c; cases "state a"; auto simp: session_wf_def check_configure_Inr_iff check_position_Inr_iff
      new_session_def default_position_def split: sum.splits if_splits)+

section \<open>The invariant of the running system\<close>

fun in_hand :: "task \<Rightarrow> nat list" where
  "in_hand (Emitting a es i r fin) = [i]"
| "in_hand _ = []"

fun task_ok :: "SessionType \<Rightarrow> task \<Rightarrow> bool" where
  "task_ok ty (Receiving a) = (session_wf ty a \<and> state a \<noteq> Closed)"
| "task_ok ty (Emitting a es i r fin) = (session_wf ty a \<and> (state a = Closed \<longleftrightarrow> fin) \<and> length es \<le> 2)"
| "task_ok ty _ = True"

text \<open>The trace an observer has seen or will see, against the local state of the task.\<close>

fun trace_ok :: "SessionType \<Rightarrow> SessionEvent list \<Rightarrow> task \<Rightarrow> bool" where
  "trace_ok ty es (Receiving a) = (trace ty (new_session, False) es = Some (a, False))"
| "trace_ok ty es (Emitting a fs i r fin) =
     (trace ty (new_session, False) (es @ fs) = Some (a, False))"
| "trace_ok ty es _ = (trace ty (new_session, False) es \<noteq> None)"

lemma trace_ok_legal: "trace_ok ty es t \<Longrightarrow> trace ty (new_session, False) es \<noteq> None"
  using trace_prefix by (cases t) (simp, metis trace_ok.simps(2) option.distinct(1), simp_all)

definition session_inv :: "SessionType \<Rightarrow> session_system \<Rightarrow> bool" where
  "session_inv ty s \<longleftrightarrow>
     length (commands s) \<le> CHANNEL_CAPACITY \<and> length (events s) \<le> CHANNEL_CAPACITY \<and>
     map fst (answers s) @ in_hand (task s) @ map fst (commands s) = [0..<next_request s] \<and>
     task_ok ty (task s) \<and>
     (receiver_alive s \<longrightarrow> trace_ok ty (consumed s @ events s) (task s)) \<and>
     (\<not> receiver_alive s \<longrightarrow> events s = [] \<and> trace ty (new_session, False) (consumed s) \<noteq> None) \<and>
     (\<forall>res. task s = Ended res \<longrightarrow> commands s = [])"

lemma spawn_session_inv: "session_inv ty spawn_session"
  by (simp add: session_inv_def spawn_session_def new_session_wf CHANNEL_CAPACITY_def)

lemma task_step_inv:
  assumes inv: "session_inv ty s" and step: "task_step ty s s'"
  shows "session_inv ty s'"
  using step
proof cases
  case (recv a i c q a' es r)
  have a: "session_wf ty a" "state a \<noteq> Closed" using inv recv(2) by (auto simp: session_inv_def)
  note h = handle_command_step [OF a recv(4)]
  show ?thesis
    using inv recv h trace_extend [of ty _ "consumed s @ events s" "(a, False)" es]
    by (auto simp: session_inv_def)
next
  case (finish res)
  then show ?thesis
    using inv by (auto simp: session_inv_def comp_def case_prod_unfold)
next
  case (reply a i r fin)
  then show ?thesis using inv by (auto simp: session_inv_def)
next
  case (emit_fails a e es i r fin)
  then show ?thesis using inv by (auto simp: session_inv_def)
next
  case (emit a e es i r fin)
  then show ?thesis using inv by (auto simp: session_inv_def)
next
  case (recv_closed a)
  then show ?thesis using inv by (auto simp: session_inv_def)
qed

lemma client_step_inv:
  assumes inv: "session_inv ty s" and step: "client_step s s'"
  shows "session_inv ty s'"
  using step
proof cases
  case (drop_receiver)
  have "trace ty (new_session, False) (consumed s) \<noteq> None"
    using inv trace_ok_legal trace_prefix by (cases "receiver_alive s") (fastforce simp: session_inv_def)+
  then show ?thesis using inv drop_receiver by (auto simp: session_inv_def)
next
  case (consume e es)
  then show ?thesis using inv by (auto simp: session_inv_def)
qed (use inv in \<open>auto simp: session_inv_def\<close>)

text \<open>The steps that need no client decision: those of the task, and a consumer that reads on.\<close>

inductive drain_step :: "SessionType \<Rightarrow> session_system \<Rightarrow> session_system \<Rightarrow> bool" for ty where
  by_task: "drain_step ty s s'" if "task_step ty s s'"
| by_consumer: "drain_step ty s (s\<lparr>events := es, consumed := consumed s @ [e]\<rparr>)"
    if "receiver_alive s" "events s = e # es"

fun task_work :: "task \<Rightarrow> nat" where
  "task_work (Receiving a) = 2"
| "task_work (Emitting a es i r fin) = 3 + 2 * length es"
| "task_work (Returning res) = 1"
| "task_work (Ended res) = 0"

definition session_work :: "session_system \<Rightarrow> nat" where
  "session_work s = 6 * length (commands s) + task_work (task s) + length (events s)"

definition unanswered :: "session_system \<Rightarrow> bool" where
  "unanswered s \<longleftrightarrow> in_hand (task s) \<noteq> [] \<or> commands s \<noteq> []"

lemma drain_step_session: "drain_step ty s s' \<Longrightarrow> session_step ty s s'"
  by (auto simp: session_step_def elim!: drain_step.cases intro: client_step.consume)

lemma drain_step_works:
  assumes inv: "session_inv ty s" and step: "drain_step ty s s'"
  shows "session_work s' < session_work s"
  using step
proof cases
  case by_task
  then show ?thesis
  proof cases
    case (recv a i c q a' es r)
    have "length es \<le> 2"
      using inv recv handle_command_step(4) [OF _ _ recv(4)] by (simp add: session_inv_def)
    then show ?thesis using recv by (simp add: session_work_def)
  qed (auto simp: session_work_def)
qed (auto simp: session_work_def)

lemma drain_step_enabled:
  assumes "session_inv ty s" and "unanswered s"
  shows "\<exists>s'. drain_step ty s s'"
proof (cases "task s")
  case (Receiving a)
  with assms obtain i c q where "commands s = (i, c) # q"
    by (cases "commands s") (auto simp: unanswered_def)
  with Receiving show ?thesis
    by (cases "handle_command ty a c") (blast intro: by_task recv)
next
  case (Emitting a es i r fin)
  show ?thesis
  proof (cases es)
    case Nil
    with Emitting show ?thesis by (blast intro: by_task reply)
  next
    case (Cons e fs)
    consider "\<not> receiver_alive s" | "receiver_alive s" "length (events s) < CHANNEL_CAPACITY"
      | "receiver_alive s" "events s \<noteq> []"
      by (cases "events s") (auto simp: CHANNEL_CAPACITY_def)
    then show ?thesis
      using Emitting Cons by cases (metis by_task emit_fails by_task emit by_consumer neq_Nil_conv)+
  qed
next
  case (Returning res)
  then show ?thesis by (blast intro: by_task finish)
next
  case (Ended res)
  with assms show ?thesis by (auto simp: unanswered_def session_inv_def)
qed

interpretation session: draining_system spawn_session "session_step ty" "session_inv ty"
  "drain_step ty" unanswered session_work for ty
  by unfold_locales
    (auto simp: session_step_def spawn_session_inv drain_step_enabled drain_step_works
      dest: drain_step_session intro: task_step_inv client_step_inv)

lemma handle_command_error:
  "handle_command ty a c = (a', es, Done (Inl e)) \<Longrightarrow> a' = a \<and> es = []"
  by (cases c) (auto split: sum.splits if_splits)

lemma ended_stays:
  assumes "session_step ty s s'" and "task s = Ended res"
  shows "task s' = Ended res"
    and "\<exists>late. answers s' = answers s @ late \<and>
       (\<forall>c. list_all (\<lambda>(_, ans). await_reply c ans = Inl SessionStopped) late)"
    and "\<exists>es. consumed s' @ events s' @ es = consumed s @ events s"
  using assms by (auto simp: session_step_def elim!: task_step.cases client_step.cases)

text \<open>One undisturbed request: the command is sent, handled, announced and answered.\<close>

lemma emit_all:
  "task s = Emitting a es i r fin \<Longrightarrow> receiver_alive s \<Longrightarrow>
   length (events s) + length es \<le> CHANNEL_CAPACITY \<Longrightarrow>
   rtranclp (session_step ty) s (s\<lparr>events := events s @ es, task := Emitting a [] i r fin\<rparr>)"
proof (induction es arbitrary: s)
  case Nil
  then have "s\<lparr>events := events s @ [], task := Emitting a [] i r fin\<rparr> = s" by (cases s) simp
  then show ?case by simp
next
  case (Cons e es)
  let ?s1 = "s\<lparr>events := events s @ [e], task := Emitting a es i r fin\<rparr>"
  have "session_step ty s ?s1"
    using Cons.prems by (auto simp: session_step_def intro: task_step.emit)
  then show ?case using Cons.IH [of ?s1] Cons.prems by (simp add: converse_rtranclp_into_rtranclp)
qed

lemma round_trip:
  assumes "task s = Receiving a" and "commands s = []" and "handles_alive s" and "receiver_alive s"
    and h: "handle_command ty a c = (a', es, r)" and "c \<noteq> Close"
    and "length (events s) + length es \<le> CHANNEL_CAPACITY"
  shows "rtranclp (session_step ty) s
    (s\<lparr>task := Receiving a', events := events s @ es, next_request := next_request s + 1,
       answers := answers s @ [(next_request s, Replied r)]\<rparr>)"
proof -
  let ?i = "next_request s"
  let ?s1 = "s\<lparr>commands := [(?i, c)], next_request := ?i + 1\<rparr>"
  let ?s2 = "?s1\<lparr>commands := [], task := Emitting a' es ?i r False\<rparr>"
  let ?s3 = "?s2\<lparr>events := events s @ es, task := Emitting a' [] ?i r False\<rparr>"
  have "session_step ty s ?s1"
    using client_step.send [of s c] assms by (simp add: session_step_def CHANNEL_CAPACITY_def)
  moreover have "session_step ty ?s1 ?s2"
    using task_step.recv [of ?s1 a ?i c "[]" ty a' es r] assms by (simp add: session_step_def)
  moreover have "rtranclp (session_step ty) ?s2 ?s3"
    using emit_all [of ?s2 a' es ?i r False ty] assms by simp
  moreover have "session_step ty ?s3 (?s3\<lparr>task := Receiving a', answers := answers s @ [(?i, Replied r)]\<rparr>)"
    using task_step.reply [of ?s3 a' ?i r False ty] by (simp add: session_step_def)
  ultimately have "rtranclp (session_step ty) s (?s3\<lparr>task := Receiving a', answers := answers s @ [(?i, Replied r)]\<rparr>)"
    by (meson converse_rtranclp_into_rtranclp rtranclp.rtrancl_into_rtrancl)
  moreover have "?s3\<lparr>task := Receiving a', answers := answers s @ [(?i, Replied r)]\<rparr> =
     s\<lparr>task := Receiving a', events := events s @ es, next_request := next_request s + 1,
       answers := answers s @ [(next_request s, Replied r)]\<rparr>"
    using assms(2) by (cases s) simp
  ultimately show ?thesis by simp
qed

lemma drain_keeps_requests: "rtranclp (drain_step ty) s s' \<Longrightarrow> next_request s' = next_request s"
  by (induction rule: rtranclp_induct) (auto elim!: drain_step.cases task_step.cases)

lemma session_work_le:
  "session_inv ty s \<Longrightarrow> session_work s \<le> 6 * length (commands s) + length (events s) + 7"
  by (cases "task s") (auto simp: session_work_def session_inv_def)

section \<open>Properties of the session actor\<close>

text \<open>C3: The session refines its abstract event automaton: in every reachable state of the running
  system, whatever the interleaving of clients, task and consumer, the events read by the consumer form
  a legal trace; while the consumer is there, reading the queued events as well and the events the
  task is about to emit rebuilds exactly the task's local state, and that state is well formed (a valid
  configuration exactly when configured, streaming or suspended, no host octets on offloaded paths).\<close>

theorem session_refines_trace:
  assumes "rtranclp (session_step ty) spawn_session s"
  shows "trace ty (new_session, False) (consumed s) \<noteq> None \<and>
    (\<forall>a. task s = Receiving a \<longrightarrow> session_wf ty a \<and> state a \<noteq> Closed \<and>
       (receiver_alive s \<longrightarrow>
          trace ty (new_session, False) (consumed s @ events s) = Some (a, False))) \<and>
    (\<forall>a es i r fin. task s = Emitting a es i r fin \<longrightarrow> session_wf ty a \<and>
       (receiver_alive s \<longrightarrow>
          trace ty (new_session, False) (consumed s @ events s @ es) = Some (a, False)))"
proof -
  have inv: "session_inv ty s" by (rule session.reachable_inv [OF assms])
  have "trace ty (new_session, False) (consumed s) \<noteq> None"
  proof (cases "receiver_alive s")
    case True
    with inv have "trace ty (new_session, False) (consumed s @ events s) \<noteq> None"
      using trace_ok_legal [of ty "consumed s @ events s" "task s"] by (simp add: session_inv_def)
    then show ?thesis by (rule trace_prefix)
  qed (use inv in \<open>auto simp: session_inv_def\<close>)
  with inv show ?thesis by (auto simp: session_inv_def)
qed

text \<open>A run in which a client configures a session and starts it.\<close>

definition started_session :: session_system where
  "started_session =
     spawn_session\<lparr>task := Receiving \<lparr>state = Streaming, configuration = Some (Pcm stereo_48k),
                      position = default_position\<rparr>,
       events := [ConfigurationChanged (Pcm stereo_48k), StateChanged Configured, StateChanged Streaming],
       next_request := 2, answers := [(0, Replied (Done (Inr ()))), (1, Replied (Done (Inr ())))]\<rparr>"

lemma started_session_reachable:
  "rtranclp (session_step LeUnicastSoftwareEncoding) spawn_session started_session"
proof -
  let ?ty = LeUnicastSoftwareEncoding
  let ?s1 = "spawn_session\<lparr>task := Receiving \<lparr>state = Configured, configuration = Some (Pcm stereo_48k),
      position = default_position\<rparr>,
    events := [ConfigurationChanged (Pcm stereo_48k), StateChanged Configured],
    next_request := 1, answers := [(0, Replied (Done (Inr ())))]\<rparr>"
  have "validate_for (Pcm stereo_48k) ?ty = Inr ()"
    by (simp add: stereo_48k_valid is_offloaded_def)
  then have "check_configure ?ty new_session (Pcm stereo_48k) = Inr ()"
    by (simp add: check_configure_Inr_iff new_session_def)
  then have "rtranclp (session_step ?ty) spawn_session ?s1"
    using round_trip [where s = spawn_session and c = "Configure (Pcm stereo_48k)" and ty = ?ty]
    by (simp add: spawn_session_def new_session_def CHANNEL_CAPACITY_def)
  moreover have "rtranclp (session_step ?ty) ?s1 started_session"
    using round_trip [where s = ?s1 and c = Start and ty = ?ty]
    by (simp add: spawn_session_def started_session_def CHANNEL_CAPACITY_def numeral_2_eq_2)
  ultimately show ?thesis by (rule rtranclp_trans)
qed

theorem session_refines_trace_witness:
  "trace LeUnicastSoftwareEncoding (new_session, False)
     [ConfigurationChanged (Pcm stereo_48k), StateChanged Configured, StateChanged Streaming] =
   Some (\<lparr>state = Streaming, configuration = Some (Pcm stereo_48k), position = default_position\<rparr>, False)"
  using session_refines_trace [OF started_session_reachable]
  by (simp add: started_session_def spawn_session_def)

text \<open>C7: Requests are answered exactly once and in the order in which they entered the channel: in
  every reachable state the answered requests, the one in hand and the queued ones are, in this order,
  all requests made so far. Both channels stay within their capacity of 16.\<close>

theorem session_answers_in_order:
  assumes "rtranclp (session_step ty) spawn_session s"
  shows "map fst (answers s) @ in_hand (task s) @ map fst (commands s) = [0..<next_request s] \<and>
    length (commands s) \<le> 16 \<and> length (events s) \<le> 16"
  using session.reachable_inv [OF assms] by (simp add: session_inv_def CHANNEL_CAPACITY_def)

theorem session_answers_in_order_witness:
  "map fst (answers started_session) = [0, 1]"
  using session_answers_in_order [OF started_session_reachable]
  by (simp add: started_session_def spawn_session_def)

text \<open>C8: Outstanding requests do not stay unanswered: from every reachable state the steps of the task,
  together with a consumer that reads on, lead to a state in which every request made so far has an
  answer, and no such run is longer than six steps for each queued command plus one for each queued
  event and at most seven for the command in hand.\<close>

theorem session_requests_answered:
  assumes "rtranclp (session_step ty) spawn_session s"
  shows "(\<exists>s'. rtranclp (drain_step ty) s s' \<and> map fst (answers s') = [0..<next_request s]) \<and>
    (\<forall>n s'. (drain_step ty ^^ n) s s' \<longrightarrow> n \<le> 6 * length (commands s) + length (events s) + 7)"
proof (intro conjI allI impI)
  have inv: "session_inv ty s" by (rule session.reachable_inv [OF assms])
  obtain s' where s': "rtranclp (drain_step ty) s s'" "\<not> unanswered s'"
    using session.drains [OF inv] by blast
  have "session_inv ty s'" by (rule session.internal_run_inv [OF s'(1) inv])
  then have "map fst (answers s') = [0..<next_request s]"
    using s'(2) drain_keeps_requests [OF s'(1)] by (simp add: session_inv_def unanswered_def)
  with s'(1) show "\<exists>s'. rtranclp (drain_step ty) s s' \<and> map fst (answers s') = [0..<next_request s]"
    by blast
  fix n s'
  assume "(drain_step ty ^^ n) s s'"
  from session.reachable_bounded [OF assms this] session_work_le [OF inv]
  show "n \<le> 6 * length (commands s) + length (events s) + 7" by linarith
qed

theorem session_requests_answered_witness:
  "\<exists>s'. rtranclp (drain_step LeUnicastSoftwareEncoding) started_session s' \<and>
     map fst (answers s') = [0, 1]"
  using session_requests_answered [OF started_session_reachable]
  by (simp add: started_session_def numeral_2_eq_2)

text \<open>C15: A command that is refused changes nothing and announces nothing, and each command is accepted
  exactly in the states the source names: configure outside streaming with a valid configuration, start
  when configured or suspended, suspend when streaming, stop outside idle, and a position report when
  streaming with a clock that does not go back and octets that fit the session's data path.\<close>

theorem handle_command_exact:
  assumes "session_wf ty a" and "state a \<noteq> Closed"
  shows "(handle_command ty a c = (a', es, Done (Inl e)) \<longrightarrow> a' = a \<and> es = []) \<and>
    ((\<exists>a' es. handle_command ty a c = (a', es, Done (Inr ()))) \<longleftrightarrow>
      (case c of
         Configure f \<Rightarrow> state a \<noteq> Streaming \<and> validate_for f ty = Inr ()
       | Start \<Rightarrow> state a \<in> {Configured, Suspended}
       | Suspend \<Rightarrow> state a = Streaming
       | Stop \<Rightarrow> state a \<noteq> Idle
       | UpdatePosition p \<Rightarrow> state a = Streaming \<and>
           monotonic_time_ns (position a) \<le> monotonic_time_ns p \<and>
           (if carries_host_payload ty then transmitted_octets (position a) \<le> transmitted_octets p
            else transmitted_octets p = 0)
       | _ \<Rightarrow> False))"
proof
  show "handle_command ty a c = (a', es, Done (Inl e)) \<longrightarrow> a' = a \<and> es = []"
    using handle_command_error by blast
  show "(\<exists>a' es. handle_command ty a c = (a', es, Done (Inr ()))) \<longleftrightarrow>
      (case c of
         Configure f \<Rightarrow> state a \<noteq> Streaming \<and> validate_for f ty = Inr ()
       | Start \<Rightarrow> state a \<in> {Configured, Suspended}
       | Suspend \<Rightarrow> state a = Streaming
       | Stop \<Rightarrow> state a \<noteq> Idle
       | UpdatePosition p \<Rightarrow> state a = Streaming \<and>
           monotonic_time_ns (position a) \<le> monotonic_time_ns p \<and>
           (if carries_host_payload ty then transmitted_octets (position a) \<le> transmitted_octets p
            else transmitted_octets p = 0)
       | _ \<Rightarrow> False)"
  using assms
    by (cases c; cases "state a")
      (auto simp: session_wf_def check_configure_def check_position_def ensure_def map_err_def
        split: sum.splits)
qed

theorem handle_command_exact_witness:
  "\<exists>a' es. handle_command LeUnicastSoftwareEncoding
     \<lparr>state = Suspended, configuration = Some (Pcm stereo_48k), position = default_position\<rparr> Start =
     (a', es, Done (Inr ()))"
proof -
  have "session_wf LeUnicastSoftwareEncoding
     \<lparr>state = Suspended, configuration = Some (Pcm stereo_48k), position = default_position\<rparr>"
    by (simp add: session_wf_def stereo_48k_valid is_offloaded_def default_position_def)
  from handle_command_exact [OF this, where c = Start] show ?thesis by simp
qed


definition ended_session :: session_system where
  "ended_session = spawn_session\<lparr>handles_alive := False, task := Ended (Inr ())\<rparr>"

lemma ended_session_reachable: "rtranclp (session_step ty) spawn_session ended_session"
proof -
  let ?s1 = "spawn_session\<lparr>handles_alive := False\<rparr>"
  have "session_step ty spawn_session ?s1"
    using client_step.drop_handles by (simp add: session_step_def)
  moreover have "session_step ty ?s1 (?s1\<lparr>task := Returning (Inr ())\<rparr>)"
    using task_step.recv_closed [of ?s1 new_session ty] by (simp add: session_step_def spawn_session_def)
  moreover have "session_step ty (?s1\<lparr>task := Returning (Inr ())\<rparr>) ended_session"
    using task_step.finish [of "?s1\<lparr>task := Returning (Inr ())\<rparr>" "Inr ()" ty]
    by (simp add: session_step_def spawn_session_def ended_session_def)
  ultimately show ?thesis by (meson converse_rtranclp_into_rtranclp rtranclp.rtrancl_refl)
qed


end
