(* ===== verification/Capability_Provider.thy ===== *)
theory Capability_Provider
  imports Wireless_Types
begin

text \<open>
  Capability discovery and provider selection, \<open>src/wireless/provider.rs\<close>. The registry holds trait
  objects, so selection takes the two methods of the trait, \<open>capabilities\<close> and \<open>accepts\<close>, as
  arguments. The locale \<open>capability_provider\<close> is the contract of the trait: a provider accepts only
  requests its capabilities support. The default method of the trait meets it.
\<close>

unbundle bit_operations_syntax

section \<open>Capabilities and requests\<close>

record CodecCapability =
  sampling_frequencies_hz :: "u32 list"
  frame_durations_us :: "u16 list"
  octets_per_frame_min :: u16
  octets_per_frame_max :: u16
  max_codec_frames_per_sdu :: u8
  channel_allocations :: u32

definition codec_supports :: "CodecCapability \<Rightarrow> Lc3Configuration \<Rightarrow> bool" where
  "codec_supports k c \<longleftrightarrow>
     sampling_frequency_hz c \<in> set (sampling_frequencies_hz k) \<and>
     frame_duration_us c \<in> set (frame_durations_us k) \<and>
     octets_per_frame_min k \<le> octets_per_codec_frame c \<and>
     octets_per_codec_frame c \<le> octets_per_frame_max k \<and>
     codec_frames_per_sdu c \<le> max_codec_frames_per_sdu k \<and>
     audio_channel_allocation c AND NOT (channel_allocations k) = 0"

record ProviderCapabilities =
  provider_name :: string
  session_types :: "SessionType list"
  codecs :: "CodecCapability list"
  max_streams :: u8
  supports_asymmetric :: bool
  supports_multidirectional :: bool
  supports_transparent_iso :: bool
  supports_controller_codec :: bool

record SessionRequest =
  session_type :: SessionType
  direction :: StreamDirection
  req_context :: AudioContext
  codec :: Lc3Configuration
  require_multidirectional :: bool

definition supports :: "ProviderCapabilities \<Rightarrow> SessionRequest \<Rightarrow> bool" where
  "supports p r \<longleftrightarrow>
     session_type r \<in> set (session_types p) \<and> (\<exists>k \<in> set (codecs p). codec_supports k (codec r))"

text \<open>The default method \<open>CapabilityProvider::accepts\<close>.\<close>

definition accepts :: "('p \<Rightarrow> ProviderCapabilities) \<Rightarrow> 'p \<Rightarrow> SessionRequest \<Rightarrow> bool" where
  "accepts capabilities p r \<longleftrightarrow>
     supports (capabilities p) r \<and>
     (\<not> require_multidirectional r \<or> supports_multidirectional (capabilities p))"

section \<open>The registry\<close>

datatype provider_error =
    NoProviderAccepts SessionRequest
  | NoExplicitFallback

definition new_registry :: "'p list" where
  "new_registry = []"

definition register :: "'p list \<Rightarrow> 'p \<Rightarrow> 'p list" where
  "register ps p = ps @ [p]"

definition select ::
  "('p \<Rightarrow> ProviderCapabilities) \<Rightarrow> ('p \<Rightarrow> SessionRequest \<Rightarrow> bool) \<Rightarrow> 'p list \<Rightarrow> SessionRequest \<Rightarrow>
   provider_error + ProviderCapabilities"
where
  "select capabilities acc ps r =
     ok_or (map_option capabilities (List.find (\<lambda>p. acc p r) ps)) (NoProviderAccepts r)"

definition require_explicit_fallback ::
  "('p \<Rightarrow> ProviderCapabilities) \<Rightarrow> ('p \<Rightarrow> SessionRequest \<Rightarrow> bool) \<Rightarrow> 'p list \<Rightarrow> SessionRequest \<Rightarrow>
   SessionRequest option \<Rightarrow> provider_error + ProviderCapabilities"
where
  "require_explicit_fallback capabilities acc ps preferred fallback =
     (case select capabilities acc ps preferred of
        Inr c \<Rightarrow> Inr c
      | Inl _ \<Rightarrow> (case fallback of
            Some f \<Rightarrow> select capabilities acc ps f
          | None \<Rightarrow> Inl NoExplicitFallback))"

definition SoftwareLc3Provider :: ProviderCapabilities where
  "SoftwareLc3Provider =
     \<lparr>provider_name = ''floss-host-lc3'',
      session_types = [LeUnicastSoftwareEncoding, LeUnicastSoftwareDecoding],
      codecs = [\<lparr>sampling_frequencies_hz = [8000, 16000, 24000, 32000, 44100, 48000],
                 frame_durations_us = [7500, 10000],
                 octets_per_frame_min = 20, octets_per_frame_max = 400,
                 max_codec_frames_per_sdu = 4, channel_allocations = - 1\<rparr>],
      max_streams = 31, supports_asymmetric = True, supports_multidirectional = True,
      supports_transparent_iso = True, supports_controller_codec = False\<rparr>"

section \<open>The contract of a provider\<close>

lemma select_Inr_iff:
  "select capabilities acc ps r = Inr c \<longleftrightarrow>
     (\<exists>i < length ps. acc (ps ! i) r \<and> c = capabilities (ps ! i) \<and> (\<forall>j < i. \<not> acc (ps ! j) r))"
  by (auto simp: select_def result_simps find_Some_iff)

lemma select_Inl_iff:
  "select capabilities acc ps r = Inl e \<longleftrightarrow> e = NoProviderAccepts r \<and> (\<forall>p \<in> set ps. \<not> acc p r)"
proof (cases "List.find (\<lambda>p. acc p r) ps")
  case None
  then have "\<forall>p \<in> set ps. \<not> acc p r" by (simp add: find_None_iff)
  with None show ?thesis by (auto simp: select_def)
next
  case (Some p)
  then have "p \<in> set ps" "acc p r" by (auto simp: find_Some_iff)
  with Some show ?thesis by (auto simp: select_def)
qed

lemma find_append_Some: "List.find P xs = Some x \<Longrightarrow> List.find P (xs @ ys) = Some x"
  by (induction xs) (auto split: if_splits)

lemma select_register:
  "select capabilities acc ps r = Inr c \<Longrightarrow> select capabilities acc (register ps p) r = Inr c"
  by (auto simp: select_def result_simps register_def find_append_Some)

locale capability_provider =
  fixes capabilities :: "'p \<Rightarrow> ProviderCapabilities" and acc :: "'p \<Rightarrow> SessionRequest \<Rightarrow> bool"
  assumes acc_supports: "acc p r \<Longrightarrow> supports (capabilities p) r"
    and acc_multidirectional:
      "acc p r \<Longrightarrow> require_multidirectional r \<Longrightarrow> supports_multidirectional (capabilities p)"
begin

lemma select_supports:
  "select capabilities acc ps r = Inr c \<Longrightarrow>
   supports c r \<and> (require_multidirectional r \<longrightarrow> supports_multidirectional c)"
  by (auto simp: select_Inr_iff acc_supports acc_multidirectional)

lemma fallback_supports:
  assumes "require_explicit_fallback capabilities acc ps r f = Inr c"
  shows "supports c r \<or> (select capabilities acc ps r = Inl (NoProviderAccepts r) \<and>
     (\<exists>r'. f = Some r' \<and> supports c r'))"
proof (cases "select capabilities acc ps r")
  case (Inl e)
  then have "e = NoProviderAccepts r" by (simp add: select_Inl_iff)
  moreover obtain r' where "f = Some r'" "select capabilities acc ps r' = Inr c"
    using assms Inl by (cases f) (simp_all add: require_explicit_fallback_def)
  ultimately show ?thesis using Inl select_supports [of ps r' c] by simp
next
  case (Inr c')
  with assms have "c' = c" by (simp add: require_explicit_fallback_def)
  with Inr show ?thesis using select_supports [of ps r c] by simp
qed

end

interpretation default_provider: capability_provider capabilities "accepts capabilities"
  for capabilities :: "'p \<Rightarrow> ProviderCapabilities"
  by unfold_locales (auto simp: accepts_def)

section \<open>Properties\<close>

text \<open>C16: Selection takes the first registered provider that accepts the request and fails exactly when
  none does; registering another provider never changes a successful selection. With the trait's own
  acceptance rule the selected provider supports the requested session type and codec, and a provider
  for another request is returned only for the fallback the caller supplied, after the preferred
  request was refused: no hidden fallback changes the session type.\<close>

theorem selection_in_order_without_hidden_fallback:
  fixes capabilities :: "'p \<Rightarrow> ProviderCapabilities"
  shows "(select capabilities (accepts capabilities) ps r = Inr c \<longleftrightarrow>
       (\<exists>i < length ps. accepts capabilities (ps ! i) r \<and> c = capabilities (ps ! i) \<and>
          (\<forall>j < i. \<not> accepts capabilities (ps ! j) r))) \<and>
     (select capabilities (accepts capabilities) ps r = Inr c \<longrightarrow>
       select capabilities (accepts capabilities) (register ps p) r = Inr c \<and>
       session_type r \<in> set (session_types c)) \<and>
     (require_explicit_fallback capabilities (accepts capabilities) ps r f = Inr c \<longrightarrow>
       session_type r \<in> set (session_types c) \<or>
       (\<forall>q \<in> set ps. \<not> accepts capabilities q r) \<and>
       (\<exists>r'. f = Some r' \<and> session_type r' \<in> set (session_types c)))"
proof (intro conjI impI select_Inr_iff)
  assume "select capabilities (accepts capabilities) ps r = Inr c"
  then show "select capabilities (accepts capabilities) (register ps p) r = Inr c"
    and "session_type r \<in> set (session_types c)"
    using default_provider.select_supports [of capabilities ps r c]
    by (simp_all add: select_register supports_def)
next
  assume "require_explicit_fallback capabilities (accepts capabilities) ps r f = Inr c"
  from default_provider.fallback_supports [OF this]
  show "session_type r \<in> set (session_types c) \<or>
       (\<forall>q \<in> set ps. \<not> accepts capabilities q r) \<and>
       (\<exists>r'. f = Some r' \<and> session_type r' \<in> set (session_types c))"
    by (auto simp: supports_def select_Inl_iff)
qed

definition lc3_request :: "SessionType \<Rightarrow> SessionRequest" where
  "lc3_request ty =
     \<lparr>session_type = ty, direction = Sink, req_context = Media, codec = lc3_48k,
      require_multidirectional = False\<rparr>"

lemma software_supports:
  "supports SoftwareLc3Provider r \<longleftrightarrow>
     session_type r \<in> {LeUnicastSoftwareEncoding, LeUnicastSoftwareDecoding} \<and>
     sampling_frequency_hz (codec r) \<in> {8000, 16000, 24000, 32000, 44100, 48000} \<and>
     frame_duration_us (codec r) \<in> {7500, 10000} \<and>
     20 \<le> octets_per_codec_frame (codec r) \<and> octets_per_codec_frame (codec r) \<le> 400 \<and>
     codec_frames_per_sdu (codec r) \<le> 4"
  by (auto simp: supports_def SoftwareLc3Provider_def codec_supports_def)

theorem selection_in_order_without_hidden_fallback_witness:
  "select id (accepts id) [SoftwareLc3Provider] (lc3_request LeUnicastSoftwareEncoding) =
     Inr SoftwareLc3Provider \<and>
   require_explicit_fallback id (accepts id) [SoftwareLc3Provider]
     (lc3_request LeUnicastHardwareEncoding) None \<noteq> Inr SoftwareLc3Provider"
proof
  have "accepts id SoftwareLc3Provider (lc3_request LeUnicastSoftwareEncoding)"
    by (simp add: accepts_def software_supports lc3_request_def lc3_48k_def)
  then show "select id (accepts id) [SoftwareLc3Provider] (lc3_request LeUnicastSoftwareEncoding) =
     Inr SoftwareLc3Provider"
    using selection_in_order_without_hidden_fallback [of id "[SoftwareLc3Provider]"
        "lc3_request LeUnicastSoftwareEncoding" SoftwareLc3Provider] by simp
  have "session_type (lc3_request LeUnicastHardwareEncoding) \<notin> set (session_types SoftwareLc3Provider)"
    by (simp add: lc3_request_def SoftwareLc3Provider_def)
  then show "require_explicit_fallback id (accepts id) [SoftwareLc3Provider]
     (lc3_request LeUnicastHardwareEncoding) None \<noteq> Inr SoftwareLc3Provider"
    using selection_in_order_without_hidden_fallback [of id "[SoftwareLc3Provider]"
        "lc3_request LeUnicastHardwareEncoding" SoftwareLc3Provider _ None] by blast
qed

text \<open>C22: The software provider fits the LC3 contract: on valid LC3 configurations it accepts exactly
  unicast software sessions with 20 to 400 octets per frame and at most four frames per SDU, and every
  request it accepts with a codec frame in each SDU has a valid LC3 configuration.\<close>

theorem software_provider_exact:
  "(lc3_validate (codec r) = Inr () \<longrightarrow>
      (accepts id SoftwareLc3Provider r \<longleftrightarrow>
         session_type r \<in> {LeUnicastSoftwareEncoding, LeUnicastSoftwareDecoding} \<and>
         20 \<le> octets_per_codec_frame (codec r) \<and> octets_per_codec_frame (codec r) \<le> 400 \<and>
         codec_frames_per_sdu (codec r) \<le> 4)) \<and>
   (accepts id SoftwareLc3Provider r \<and> 0 < codec_frames_per_sdu (codec r) \<longrightarrow>
      lc3_validate (codec r) = Inr ())"
proof -
  have "supports_multidirectional SoftwareLc3Provider" by (simp add: SoftwareLc3Provider_def)
  then have acc: "accepts id SoftwareLc3Provider r \<longleftrightarrow> supports SoftwareLc3Provider r"
    by (simp add: accepts_def)
  have "20 \<le> octets_per_codec_frame (codec r) \<longrightarrow> 0 < octets_per_codec_frame (codec r)"
    by (simp add: word_le_nat_alt word_less_nat_alt)
  then show ?thesis
    unfolding acc software_supports lc3_validate_def result_simps by blast
qed

theorem software_provider_exact_witness:
  "lc3_validate lc3_48k = Inr () \<and>
   accepts id SoftwareLc3Provider (lc3_request LeUnicastSoftwareDecoding) \<and>
   \<not> accepts id SoftwareLc3Provider (lc3_request LeBroadcastSoftwareEncoding)"
proof -
  have "codec (lc3_request ty) = lc3_48k" "session_type (lc3_request ty) = ty" for ty
    by (simp_all add: lc3_request_def)
  moreover have "octets_per_codec_frame lc3_48k = 120" "codec_frames_per_sdu lc3_48k = 1"
    by (simp_all add: lc3_48k_def)
  ultimately show ?thesis
    using software_provider_exact [of "lc3_request LeUnicastSoftwareDecoding"]
      software_provider_exact [of "lc3_request LeBroadcastSoftwareEncoding"] lc3_48k_valid
    by simp
qed

end
