(* ===== verification/Floss_Control.thy ===== *)
theory Floss_Control
  imports Wireless_Types Effects
begin

text \<open>
  The LE Audio control plane of \<open>src/wireless/floss.rs\<close>: starting a software unicast stream over the
  Floss D-Bus interface, waiting for its confirmation, connecting the data socket, and stopping.

  The Floss daemon, the clock and the socket are not part of the repository. They are the argument of
  type \<open>floss_service\<close>: one function on the state \<open>'w\<close> of the outside world per D-Bus method, with
  the conversions of D-Bus values. Every call is recorded in the log of the run, with whether its
  request was accepted, so that the properties can speak about the directions that are left open.
\<close>

section \<open>The outside world\<close>

record ('w, 'v) floss_service =
  svc_proxy :: "string \<Rightarrow> 'w \<Rightarrow> (nat + unit) \<times> 'w"
  group_set_active :: "i32 \<Rightarrow> 'w \<Rightarrow> (nat + unit) \<times> 'w"
  host_start_audio_request :: "'w \<Rightarrow> (nat + bool) \<times> 'w"
  host_stop_audio_request :: "'w \<Rightarrow> (nat + unit) \<times> 'w"
  peer_start_audio_request :: "'w \<Rightarrow> (nat + bool) \<times> 'w"
  peer_stop_audio_request :: "'w \<Rightarrow> (nat + unit) \<times> 'w"
  get_host_pcm_config :: "'w \<Rightarrow> (nat + (string \<rightharpoonup> 'v)) \<times> 'w"
  get_peer_pcm_config :: "'w \<Rightarrow> (nat + (string \<rightharpoonup> 'v)) \<times> 'w"
  get_host_stream_started :: "'w \<Rightarrow> (nat + i32) \<times> 'w"
  get_peer_stream_started :: "'w \<Rightarrow> (nat + i32) \<times> 'w"
  get_group_status :: "i32 \<Rightarrow> 'w \<Rightarrow> (nat + i32) \<times> 'w"
  get_group_stream_status :: "i32 \<Rightarrow> 'w \<Rightarrow> (nat + i32) \<times> 'w"
  source_metadata_changed :: "i32 \<Rightarrow> i32 \<Rightarrow> 'w \<Rightarrow> (nat + bool) \<times> 'w"
  sink_metadata_changed :: "i32 \<Rightarrow> 'w \<Rightarrow> (nat + bool) \<times> 'w"
  svc_connect :: "string \<Rightarrow> 'w \<Rightarrow> (nat + nat) \<times> 'w"
  svc_now :: "'w \<Rightarrow> nat"
  svc_sleep :: "nat \<Rightarrow> 'w \<Rightarrow> 'w"
  value_u32 :: "'v \<Rightarrow> u32 option"
  value_u8 :: "'v \<Rightarrow> u8 option"

datatype floss_call =
    BuildProxy
  | GroupSetActive
  | HostStartAudioRequest
  | HostStopAudioRequest
  | PeerStartAudioRequest
  | PeerStopAudioRequest
  | GetHostPcmConfig
  | GetPeerPcmConfig
  | GetHostStreamStarted
  | GetPeerStreamStarted
  | GetGroupStatus
  | GetGroupStreamStatus
  | SourceMetadataChanged
  | SinkMetadataChanged
  | ConnectSocket

datatype floss_error =
    NoDirectionSelected
  | NegativeGroupId
  | CallFailed floss_call nat
  | RejectedMediaMetadata
  | RejectedMicrophoneMetadata
  | RejectedHostStart
  | RejectedPeerStart
  | StartTimedOut
  | PcmPropertyMissing string
  | PcmPropertyInvalid string
  | PcmContractViolated types_error
  | StreamAlreadyTaken
  | StopFailed floss_error

record 'w io =
  world :: 'w
  log :: "(floss_call \<times> bool) list"

definition call ::
  "floss_call \<Rightarrow> ('w \<Rightarrow> (nat + 'a) \<times> 'w) \<Rightarrow> ('a \<Rightarrow> bool) \<Rightarrow> ('w io, floss_error, 'a) act"
where
  "call c f accepted = perform (\<lambda>io.
     let (r, w) = f (world io) in
     (map_err (CallFailed c) r,
      io\<lparr>world := w, log := log io @ [(c, case r of Inl _ \<Rightarrow> False | Inr x \<Rightarrow> accepted x)]\<rparr>))"

section \<open>Directions, paths and PCM properties\<close>

record FlossLeDirections =
  host_to_peer :: bool
  peer_to_host :: bool

definition OUTPUT :: FlossLeDirections where
  "OUTPUT = \<lparr>host_to_peer = True, peer_to_host = False\<rparr>"

definition INPUT :: FlossLeDirections where
  "INPUT = \<lparr>host_to_peer = False, peer_to_host = True\<rparr>"

definition FULL_DUPLEX :: FlossLeDirections where
  "FULL_DUPLEX = \<lparr>host_to_peer = True, peer_to_host = True\<rparr>"

definition directions_validate :: "FlossLeDirections \<Rightarrow> floss_error + unit" where
  "directions_validate d = ensure (host_to_peer d \<or> peer_to_host d) NoDirectionSelected (Inr ())"

record FlossLeAudio =
  media_path :: string
  data_path :: string

definition LE_AUDIO_DATA_PATH :: string where
  "LE_AUDIO_DATA_PATH = ''/run/bluetooth/audio/.lea_data''"

definition with_connection :: "u32 \<Rightarrow> FlossLeAudio" where
  "with_connection adapter =
     \<lparr>media_path = ''/org/chromium/bluetooth/hci'' @ decimal (unat adapter) @ ''/media'',
      data_path = LE_AUDIO_DATA_PATH\<rparr>"

definition with_data_path :: "FlossLeAudio \<Rightarrow> string \<Rightarrow> FlossLeAudio" where
  "with_data_path fls path = fls\<lparr>data_path := path\<rparr>"

definition property ::
  "('v \<Rightarrow> 'a option) \<Rightarrow> (string \<rightharpoonup> 'v) \<Rightarrow> string \<Rightarrow> floss_error + 'a"
where
  "property convert properties name =
     and_then (ok_or (properties name) (PcmPropertyMissing name)) (\<lambda>v.
     ok_or (convert v) (PcmPropertyInvalid name))"

definition parse_pcm_config ::
  "('w, 'v) floss_service \<Rightarrow> (string \<rightharpoonup> 'v) \<Rightarrow> floss_error + PcmConfiguration"
where
  "parse_pcm_config svc properties =
     and_then (property (value_u32 svc) properties ''data_interval_us'') (\<lambda>interval.
     and_then (property (value_u32 svc) properties ''sample_rate'') (\<lambda>rate.
     and_then (property (value_u8 svc) properties ''bits_per_sample'') (\<lambda>bits.
     and_then (property (value_u8 svc) properties ''channels_count'') (\<lambda>count.
     let config = \<lparr>sample_rate_hz = rate, bits_per_sample = bits, channels = count,
                   data_interval_us = interval\<rparr> in
     and_then (map_err PcmContractViolated (pcm_validate config)) (\<lambda>_.
     and_then (map_err PcmContractViolated (bytes_per_interval config)) (\<lambda>_.
     Inr config))))))"

section \<open>Starting and stopping\<close>

definition proxy ::
  "('w, 'v) floss_service \<Rightarrow> FlossLeAudio \<Rightarrow> ('w io, floss_error, unit) act"
where
  "proxy svc fls = call BuildProxy (svc_proxy svc (media_path fls)) (\<lambda>_. True)"

definition group_status ::
  "('w, 'v) floss_service \<Rightarrow> FlossLeAudio \<Rightarrow> i32 \<Rightarrow> ('w io, floss_error, i32 \<times> i32) act"
where
  "group_status svc fls g =
     seq (proxy svc fls) (\<lambda>_.
     seq (call GetGroupStatus (get_group_status svc g) (\<lambda>_. True)) (\<lambda>a.
     seq (call GetGroupStreamStatus (get_group_stream_status svc g) (\<lambda>_. True)) (\<lambda>b.
     pure (a, b))))"

definition sleep_ms :: "('w, 'v) floss_service \<Rightarrow> nat \<Rightarrow> ('w io, floss_error, unit) act" where
  "sleep_ms svc ms = modify (\<lambda>io. io\<lparr>world := svc_sleep svc (ms * 1000000) (world io)\<rparr>)"

definition now :: "('w, 'v) floss_service \<Rightarrow> ('w io, floss_error, nat) act" where
  "now svc = inspect (\<lambda>io. svc_now svc (world io))"

definition host_confirmed ::
  "('w, 'v) floss_service \<Rightarrow> FlossLeDirections \<Rightarrow> ('w io, floss_error, bool) act"
where
  "host_confirmed svc d =
     (if \<not> host_to_peer d then pure True
      else seq (call GetHostStreamStarted (get_host_stream_started svc) (\<lambda>v. v = 1))
             (\<lambda>v. pure (v = 1)))"

definition peer_confirmed ::
  "('w, 'v) floss_service \<Rightarrow> FlossLeDirections \<Rightarrow> ('w io, floss_error, bool) act"
where
  "peer_confirmed svc d =
     (if \<not> peer_to_host d then pure True
      else seq (call GetPeerStreamStarted (get_peer_stream_started svc) (\<lambda>v. v = 1))
             (\<lambda>v. pure (v = 1)))"

partial_function (option) wait_loop ::
  "('w, 'v) floss_service \<Rightarrow> FlossLeDirections \<Rightarrow> nat \<Rightarrow> ('w io, floss_error, unit) act"
where
  "wait_loop svc d deadline io =
     seq (host_confirmed svc d) (\<lambda>host.
     seq (peer_confirmed svc d) (\<lambda>peer.
     if host \<and> peer then pure ()
     else seq (now svc) (\<lambda>t.
       if t \<ge> deadline then throw StartTimedOut
       else seq (sleep_ms svc 20) (\<lambda>_. wait_loop svc d deadline)))) io"

definition wait_started ::
  "('w, 'v) floss_service \<Rightarrow> FlossLeDirections \<Rightarrow> nat \<Rightarrow> ('w io, floss_error, unit) act"
where
  "wait_started svc d timeout = seq (now svc) (\<lambda>t. wait_loop svc d (t + timeout))"

definition stop_directions ::
  "('w, 'v) floss_service \<Rightarrow> bool \<Rightarrow> bool \<Rightarrow> ('w io, floss_error, unit) act"
where
  "stop_directions svc host peer =
     seq (if peer then seq (attempt (call PeerStopAudioRequest (peer_stop_audio_request svc) (\<lambda>_. True)))
                         (\<lambda>_. pure ()) else pure ()) (\<lambda>_.
     if host then seq (attempt (call HostStopAudioRequest (host_stop_audio_request svc) (\<lambda>_. True)))
                    (\<lambda>_. pure ()) else pure ())"

partial_function (option) connect_loop ::
  "('w, 'v) floss_service \<Rightarrow> string \<Rightarrow> nat \<Rightarrow> ('w io, floss_error, nat) act"
where
  "connect_loop svc path deadline io =
     seq (attempt (call ConnectSocket (svc_connect svc path) (\<lambda>_. True))) (\<lambda>r.
     case r of
       Inr stream \<Rightarrow> pure stream
     | Inl e \<Rightarrow> seq (now svc) (\<lambda>t.
         if t < deadline then seq (sleep_ms svc 20) (\<lambda>_. connect_loop svc path deadline)
         else throw e)) io"

definition connect_with_deadline ::
  "('w, 'v) floss_service \<Rightarrow> string \<Rightarrow> nat \<Rightarrow> ('w io, floss_error, nat) act"
where
  "connect_with_deadline svc path timeout =
     seq (now svc) (\<lambda>t. connect_loop svc path (t + timeout))"

record FlossLeDataPath =
  stream :: "nat option"
  directions :: FlossLeDirections
  host_pcm :: "PcmConfiguration option"
  peer_pcm :: "PcmConfiguration option"
  stopped :: bool

text \<open>Metadata selects the context of each direction before the streams are started.\<close>

definition announce_metadata ::
  "('w, 'v) floss_service \<Rightarrow> FlossLeDirections \<Rightarrow> ('w io, floss_error, unit) act"
where
  "announce_metadata svc d =
     seq (if host_to_peer d
          then seq (call SourceMetadataChanged (source_metadata_changed svc 1 2) (\<lambda>ok. ok))
                 (\<lambda>ok. require ok RejectedMediaMetadata)
          else pure ()) (\<lambda>_.
     if peer_to_host d
     then seq (call SinkMetadataChanged (sink_metadata_changed svc 1) (\<lambda>ok. ok))
            (\<lambda>ok. require ok RejectedMicrophoneMetadata)
     else pure ())"

text \<open>
  The block whose result decides on the roll-back, with the two flags it leaves behind: its result,
  \<open>host_started\<close> and \<open>peer_started\<close>.
\<close>

definition start_block ::
  "('w, 'v) floss_service \<Rightarrow> FlossLeDirections \<Rightarrow>
   ('w io, floss_error, (floss_error + unit) \<times> bool \<times> bool) act"
where
  "start_block svc d =
     seq (attempt (if host_to_peer d
            then seq (call HostStartAudioRequest (host_start_audio_request svc) (\<lambda>ok. ok))
                   (\<lambda>ok. require ok RejectedHostStart)
            else pure ())) (\<lambda>host.
     case host of
       Inl e \<Rightarrow> pure (Inl e, False, False)
     | Inr _ \<Rightarrow>
         seq (attempt (if peer_to_host d
                then seq (call PeerStartAudioRequest (peer_start_audio_request svc) (\<lambda>ok. ok))
                       (\<lambda>ok. require ok RejectedPeerStart)
                else pure ())) (\<lambda>peer.
         case peer of
           Inl e \<Rightarrow> pure (Inl e, host_to_peer d, False)
         | Inr _ \<Rightarrow>
             seq (attempt (wait_started svc d (8 * 1000000000))) (\<lambda>r.
             pure (r, host_to_peer d, peer_to_host d))))"

definition fetch_pcm ::
  "('w, 'v) floss_service \<Rightarrow> bool \<Rightarrow> floss_call \<Rightarrow> ('w \<Rightarrow> (nat + (string \<rightharpoonup> 'v)) \<times> 'w) \<Rightarrow>
   ('w io, floss_error, PcmConfiguration option) act"
where
  "fetch_pcm svc wanted c f =
     (if wanted then seq (call c f (\<lambda>_. True)) (\<lambda>properties.
                      seq (from_result (parse_pcm_config svc properties)) (\<lambda>pcm. pure (Some pcm)))
      else pure None)"

definition start_software_unicast ::
  "('w, 'v) floss_service \<Rightarrow> FlossLeAudio \<Rightarrow> i32 \<Rightarrow> FlossLeDirections \<Rightarrow>
   ('w io, floss_error, FlossLeDataPath) act"
where
  "start_software_unicast svc fls g d =
     seq (from_result (directions_validate d)) (\<lambda>_.
     seq (require (0 \<le> sint g) NegativeGroupId) (\<lambda>_.
     seq (proxy svc fls) (\<lambda>_.
     seq (call GroupSetActive (group_set_active svc g) (\<lambda>_. True)) (\<lambda>_.
     seq (announce_metadata svc d) (\<lambda>_.
     seq (start_block svc d) (\<lambda>(r, host_started, peer_started).
     case r of
       Inl e \<Rightarrow> seq (stop_directions svc host_started peer_started) (\<lambda>_. throw e)
     | Inr _ \<Rightarrow>
         seq (fetch_pcm svc (host_to_peer d) GetHostPcmConfig (get_host_pcm_config svc)) (\<lambda>host.
         seq (fetch_pcm svc (peer_to_host d) GetPeerPcmConfig (get_peer_pcm_config svc)) (\<lambda>peer.
         seq (attempt (connect_with_deadline svc (data_path fls) (5 * 1000000000))) (\<lambda>c.
         case c of
           Inr st \<Rightarrow> pure \<lparr>stream = Some st, directions = d, host_pcm = host, peer_pcm = peer,
                           stopped = False\<rparr>
         | Inl e \<Rightarrow> seq (stop_directions svc host_started peer_started) (\<lambda>_. throw e))))))))))"

definition take_stream :: "FlossLeDataPath \<Rightarrow> floss_error + nat \<times> FlossLeDataPath" where
  "take_stream p =
     (case stream p of
        Some st \<Rightarrow> Inr (st, p\<lparr>stream := None\<rparr>)
      | None \<Rightarrow> Inl StreamAlreadyTaken)"

definition floss_stop ::
  "('w, 'v) floss_service \<Rightarrow> FlossLeAudio \<Rightarrow> FlossLeDataPath \<Rightarrow> ('w io, floss_error, unit) act"
where
  "floss_stop svc fls p =
     seq (proxy svc fls) (\<lambda>_.
     seq (if peer_to_host (directions p)
          then attempt (call PeerStopAudioRequest (peer_stop_audio_request svc) (\<lambda>_. True))
          else pure (Inr ())) (\<lambda>peer.
     seq (if host_to_peer (directions p)
          then attempt (call HostStopAudioRequest (host_stop_audio_request svc) (\<lambda>_. True))
          else pure (Inr ())) (\<lambda>host.
     from_result (map_err StopFailed (and_then peer (\<lambda>_. host))))))"

section \<open>Directions left open\<close>

text \<open>
  A direction is open after a log when its last accepted start request has no stop request after it.
\<close>

definition dir_open :: "floss_call \<Rightarrow> floss_call \<Rightarrow> (floss_call \<times> bool) list \<Rightarrow> bool" where
  "dir_open start stop l =
     foldl (\<lambda>b (c, ok). if c = start \<and> ok then True else if c = stop then False else b) False l"

lemma dir_open_snoc:
  "dir_open start stop (l @ [(c, ok)]) =
     (if c = start \<and> ok then True else if c = stop then False else dir_open start stop l)"
  by (simp add: dir_open_def)

definition open_is :: "bool \<Rightarrow> bool \<Rightarrow> 'w io \<Rightarrow> bool" where
  "open_is h p io \<longleftrightarrow>
     dir_open HostStartAudioRequest HostStopAudioRequest (log io) = h \<and>
     dir_open PeerStartAudioRequest PeerStopAudioRequest (log io) = p"

text \<open>The errors of the step between the start of the streams and the connection of the socket.\<close>

fun pcm_error :: "floss_error \<Rightarrow> bool" where
  "pcm_error (PcmPropertyMissing _) = True"
| "pcm_error (PcmPropertyInvalid _) = True"
| "pcm_error (PcmContractViolated _) = True"
| "pcm_error (CallFailed c _) = (c \<in> {GetHostPcmConfig, GetPeerPcmConfig})"
| "pcm_error _ = False"

lemma triple_neutral:
  assumes "c \<notin> {HostStartAudioRequest, HostStopAudioRequest, PeerStartAudioRequest, PeerStopAudioRequest}"
    and "\<And>n io. open_is h p io \<Longrightarrow> E (CallFailed c n) io"
  shows "triple (open_is h p) (call c f accepted) (\<lambda>_. open_is h p) E"
  unfolding call_def
  by (rule triple_perform)
    (use assms in \<open>auto simp: open_is_def dir_open_snoc split: sum.splits prod.splits\<close>)

lemma triple_host_start:
  assumes "\<And>n io. open_is h p io \<Longrightarrow> E (CallFailed HostStartAudioRequest n) io"
  shows "triple (open_is h p) (call HostStartAudioRequest f (\<lambda>ok. ok)) (\<lambda>ok. open_is (h \<or> ok) p) E"
  unfolding call_def
  by (rule triple_perform)
    (use assms in \<open>auto simp: open_is_def dir_open_snoc split: sum.splits prod.splits\<close>)

lemma triple_peer_start:
  assumes "\<And>n io. open_is h p io \<Longrightarrow> E (CallFailed PeerStartAudioRequest n) io"
  shows "triple (open_is h p) (call PeerStartAudioRequest f (\<lambda>ok. ok)) (\<lambda>ok. open_is h (p \<or> ok)) E"
  unfolding call_def
  by (rule triple_perform)
    (use assms in \<open>auto simp: open_is_def dir_open_snoc split: sum.splits prod.splits\<close>)

lemma triple_host_stop:
  assumes "\<And>n io. open_is False p io \<Longrightarrow> E (CallFailed HostStopAudioRequest n) io"
  shows "triple (open_is h p) (call HostStopAudioRequest f accepted) (\<lambda>_. open_is False p) E"
  unfolding call_def
  by (rule triple_perform)
    (use assms in \<open>auto simp: open_is_def dir_open_snoc split: sum.splits prod.splits\<close>)

lemma triple_peer_stop:
  assumes "\<And>n io. open_is h False io \<Longrightarrow> E (CallFailed PeerStopAudioRequest n) io"
  shows "triple (open_is h p) (call PeerStopAudioRequest f accepted) (\<lambda>_. open_is h False) E"
  unfolding call_def
  by (rule triple_perform)
    (use assms in \<open>auto simp: open_is_def dir_open_snoc split: sum.splits prod.splits\<close>)

lemma triple_sleep: "triple (open_is h p) (sleep_ms svc n) (\<lambda>_. open_is h p) E"
  unfolding sleep_ms_def by (rule triple_modify) (simp add: open_is_def)

lemma triple_now: "triple (open_is h p) (now svc) (\<lambda>_. open_is h p) E"
  unfolding now_def by (rule triple_inspect)

text \<open>Waiting and connecting keep the open directions, and fail with errors of their own.\<close>

lemma triple_host_confirmed:
  assumes "\<And>e io. open_is h p io \<Longrightarrow> \<not> pcm_error e \<Longrightarrow> E e io"
  shows "triple (open_is h p) (host_confirmed svc d) (\<lambda>_. open_is h p) E"
  unfolding host_confirmed_def
  by (intro triple_if triple_pure triple_seq [OF triple_neutral]) (auto intro: assms)

lemma triple_peer_confirmed:
  assumes "\<And>e io. open_is h p io \<Longrightarrow> \<not> pcm_error e \<Longrightarrow> E e io"
  shows "triple (open_is h p) (peer_confirmed svc d) (\<lambda>_. open_is h p) E"
  unfolding peer_confirmed_def
  by (intro triple_if triple_pure triple_seq [OF triple_neutral]) (auto intro: assms)

abbreviation keeps :: "bool \<Rightarrow> bool \<Rightarrow> ('w io, floss_error, 'a) act \<Rightarrow> bool" where
  "keeps h p m \<equiv> triple (open_is h p) m (\<lambda>_. open_is h p) (\<lambda>e io. open_is h p io \<and> \<not> pcm_error e)"

lemma keeps_iff:
  "keeps h p m \<longleftrightarrow> (\<forall>io y. m io = Some y \<longrightarrow> open_is h p io \<longrightarrow>
     open_is h p (snd y) \<and> (\<forall>e. fst y = Inl e \<longrightarrow> \<not> pcm_error e))"
proof -
  have c: "(case r of Inl e \<Rightarrow> A \<and> B e | Inr x \<Rightarrow> A) \<longleftrightarrow> A \<and> (\<forall>e. r = Inl e \<longrightarrow> B e)"
    for A B and r :: "floss_error + 'b"
    by (cases r) auto
  show ?thesis
    unfolding triple_def by (simp only: c split_paired_All fst_conv snd_conv) blast
qed

lemma keepsI:
  assumes "\<And>io y. m io = Some y \<Longrightarrow> open_is h p io \<longrightarrow>
     open_is h p (snd y) \<and> (\<forall>e. fst y = Inl e \<longrightarrow> \<not> pcm_error e)"
  shows "keeps h p m"
  unfolding keeps_iff using assms by simp

lemma keepsD:
  "keeps h p m \<Longrightarrow> m io = Some y \<Longrightarrow> open_is h p io \<longrightarrow>
     open_is h p (snd y) \<and> (\<forall>e. fst y = Inl e \<longrightarrow> \<not> pcm_error e)"
  unfolding keeps_iff by blast

lemma keeps_wait_loop: "keeps h p (wait_loop svc d deadline)"
proof -
  let ?ok = "\<lambda>io y. open_is h p io \<longrightarrow>
     open_is h p (snd y) \<and> (\<forall>e. fst y = Inl e \<longrightarrow> \<not> pcm_error e)"
  have "?ok io y" if "wait_loop svc d deadline io = Some y" for io y
    using that
  proof (rule wait_loop.raw_induct [where P = "\<lambda>svc d deadline io y. ?ok io y", rotated])
    fix rec :: "('a, 'b) floss_service \<Rightarrow> FlossLeDirections \<Rightarrow> nat \<Rightarrow> ('a io, floss_error, unit) act"
      and svc d deadline io y
    assume IH: "\<And>svc d deadline io y. rec svc d deadline io = Some y \<Longrightarrow> ?ok io y"
      and run: "seq (host_confirmed svc d) (\<lambda>host. seq (peer_confirmed svc d) (\<lambda>peer.
        if host \<and> peer then pure ()
        else seq (now svc) (\<lambda>t. if t \<ge> deadline then throw StartTimedOut
          else seq (sleep_ms svc 20) (\<lambda>_. rec svc d deadline)))) io = Some y"
    have "keeps h p (rec svc d deadline)"
      by (rule keepsI) (rule IH)
    then have "keeps h p
       (seq (host_confirmed svc d) (\<lambda>host. seq (peer_confirmed svc d) (\<lambda>peer.
        if host \<and> peer then pure ()
        else seq (now svc) (\<lambda>t. if t \<ge> deadline then throw StartTimedOut
          else seq (sleep_ms svc 20) (\<lambda>_. rec svc d deadline)))))"
      by (intro triple_seq [OF triple_host_confirmed] triple_seq [OF triple_peer_confirmed] triple_if
          triple_pure triple_throw triple_seq [OF triple_now] triple_seq [OF triple_sleep]) auto
    from keepsD [OF this run] show "?ok io y" .
  qed
  then show ?thesis by (rule keepsI)
qed

lemma keeps_wait_started: "keeps h p (wait_started svc d timeout)"
  unfolding wait_started_def by (intro triple_seq [OF triple_now] keeps_wait_loop)

lemma keeps_connect_loop: "keeps h p (connect_loop svc path deadline)"
proof -
  let ?ok = "\<lambda>io y. open_is h p io \<longrightarrow>
     open_is h p (snd y) \<and> (\<forall>e. fst y = Inl e \<longrightarrow> \<not> pcm_error e)"
  have "?ok io y" if "connect_loop svc path deadline io = Some y" for io y
    using that
  proof (rule connect_loop.raw_induct [where P = "\<lambda>svc path deadline io y. ?ok io y", rotated])
    fix rec :: "('a, 'b) floss_service \<Rightarrow> string \<Rightarrow> nat \<Rightarrow> ('a io, floss_error, nat) act"
      and svc path deadline io y
    let ?body = "seq (attempt (call ConnectSocket (svc_connect svc path) (\<lambda>_. True))) (\<lambda>r.
        case r of Inr st \<Rightarrow> pure st
        | Inl e \<Rightarrow> seq (now svc) (\<lambda>t.
           if t < deadline then seq (sleep_ms svc 20) (\<lambda>_. rec svc path deadline) else throw e))"
    assume IH: "\<And>svc path deadline io y. rec svc path deadline io = Some y \<Longrightarrow> ?ok io y"
      and run: "?body io = Some y"
    have rec: "keeps h p (rec svc path deadline)"
      by (rule keepsI) (rule IH)
    have first: "triple (open_is h p) (attempt (call ConnectSocket (svc_connect svc path) (\<lambda>_. True)))
        (\<lambda>r io. open_is h p io \<and> (\<forall>e. r = Inl e \<longrightarrow> \<not> pcm_error e)) E" for E
      by (rule triple_attempt, rule triple_conseq [OF triple_neutral [where E = "\<lambda>e io. open_is h p io \<and> \<not> pcm_error e"]])
        simp_all
    have "keeps h p ?body"
    proof (rule triple_seq [OF first])
      fix r :: "floss_error + nat"
      show "triple (\<lambda>io. open_is h p io \<and> (\<forall>e. r = Inl e \<longrightarrow> \<not> pcm_error e))
        (case r of Inr st \<Rightarrow> pure st
        | Inl e \<Rightarrow> seq (now svc) (\<lambda>t.
           if t < deadline then seq (sleep_ms svc 20) (\<lambda>_. rec svc path deadline) else throw e))
        (\<lambda>_. open_is h p) (\<lambda>e io. open_is h p io \<and> \<not> pcm_error e)"
      proof (cases r)
        case (Inl e)
        show ?thesis
        proof (cases "pcm_error e")
          case False
          have "keeps h p (seq (now svc) (\<lambda>t.
             if t < deadline then seq (sleep_ms svc 20) (\<lambda>_. rec svc path deadline) else throw e))"
            using False
            by (intro triple_seq [OF triple_now] triple_if triple_seq [OF triple_sleep] rec triple_throw)
              auto
          then show ?thesis unfolding Inl sum.case by (rule triple_conseq) simp_all
        qed (simp add: Inl triple_def)
      qed (auto intro: triple_pure)
    qed
    from keepsD [OF this run] show "?ok io y" .
  qed
  then show ?thesis by (rule keepsI)
qed

lemma keeps_connect: "keeps h p (connect_with_deadline svc path timeout)"
  unfolding connect_with_deadline_def by (intro triple_seq [OF triple_now] keeps_connect_loop)

lemma triple_stop_directions:
  "triple (open_is h p) (stop_directions svc host peer)
     (\<lambda>_. open_is (h \<and> \<not> host) (p \<and> \<not> peer)) E"
proof -
  have peer: "triple (open_is h p)
      (if peer then seq (attempt (call PeerStopAudioRequest (peer_stop_audio_request svc) (\<lambda>_. True)))
                      (\<lambda>_. pure ()) else pure ()) (\<lambda>_. open_is h (p \<and> \<not> peer)) E"
    by (intro triple_if triple_seq [OF triple_attempt [OF triple_peer_stop]] triple_pure) auto
  show ?thesis
    unfolding stop_directions_def
    by (intro triple_seq [OF peer] triple_if triple_seq [OF triple_attempt [OF triple_host_stop]]
        triple_pure) auto
qed

lemma keeps_proxy: "keeps h p (proxy svc fls)"
  unfolding proxy_def by (rule triple_neutral) auto

lemma keeps_metadata: "keeps h p (announce_metadata svc d)"
  unfolding announce_metadata_def
  by (intro triple_seq triple_if triple_require triple_pure) (auto intro!: triple_neutral)

definition block_post ::
  "FlossLeDirections \<Rightarrow> (floss_error + unit) \<times> bool \<times> bool \<Rightarrow> 'w io \<Rightarrow> bool"
where
  "block_post d res io \<longleftrightarrow>
     (case res of (r, h, p) \<Rightarrow> open_is h p io \<and>
        (case r of Inl e \<Rightarrow> \<not> pcm_error e | Inr _ \<Rightarrow> h = host_to_peer d \<and> p = peer_to_host d))"

lemma triple_start_block:
  "triple (open_is False False) (start_block svc d) (block_post d) E"
proof -
  have host: "triple (open_is False False)
      (if host_to_peer d then seq (call HostStartAudioRequest (host_start_audio_request svc) (\<lambda>ok. ok))
          (\<lambda>ok. require ok RejectedHostStart) else pure ())
      (\<lambda>_. open_is (host_to_peer d) False) (\<lambda>e io. open_is False False io \<and> \<not> pcm_error e)"
    by (intro triple_if triple_seq [OF triple_host_start] triple_require triple_pure) auto
  have peer: "triple (open_is (host_to_peer d) False)
      (if peer_to_host d then seq (call PeerStartAudioRequest (peer_start_audio_request svc) (\<lambda>ok. ok))
          (\<lambda>ok. require ok RejectedPeerStart) else pure ())
      (\<lambda>_. open_is (host_to_peer d) (peer_to_host d))
      (\<lambda>e io. open_is (host_to_peer d) False io \<and> \<not> pcm_error e)"
    by (intro triple_if triple_seq [OF triple_peer_start] triple_require triple_pure) auto
  let ?after = "\<lambda>P Q r io. case r of Inl e \<Rightarrow> Q io \<and> \<not> pcm_error e | Inr x \<Rightarrow> P io"
  have peer': "triple (open_is (host_to_peer d) False) (attempt
      (if peer_to_host d then seq (call PeerStartAudioRequest (peer_start_audio_request svc) (\<lambda>ok. ok))
          (\<lambda>ok. require ok RejectedPeerStart) else pure ()))
      (?after (open_is (host_to_peer d) (peer_to_host d)) (open_is (host_to_peer d) False)) E" for E
    by (rule triple_attempt) (use peer in simp)
  have wait: "triple (open_is (host_to_peer d) (peer_to_host d))
      (attempt (wait_started svc d (8 * 1000000000)))
      (?after (open_is (host_to_peer d) (peer_to_host d)) (open_is (host_to_peer d) (peer_to_host d))) E" for E
    by (rule triple_attempt) (use keeps_wait_started in simp)
  have host': "triple (open_is False False) (attempt
      (if host_to_peer d then seq (call HostStartAudioRequest (host_start_audio_request svc) (\<lambda>ok. ok))
          (\<lambda>ok. require ok RejectedHostStart) else pure ()))
      (?after (open_is (host_to_peer d) False) (open_is False False)) E" for E
    by (rule triple_attempt) (use host in simp)
  show ?thesis
    unfolding start_block_def
  proof (rule triple_seq [OF host'], goal_cases)
    case (1 r1)
    show ?case
    proof (cases r1)
      case (Inl e)
      then show ?thesis by (auto intro!: triple_pure simp: block_post_def)
    next
      case (Inr u)
      show ?thesis
        unfolding Inr sum.case
      proof (rule triple_seq [OF peer'], goal_cases)
        case (1 r2)
        show ?case
        proof (cases r2)
          case (Inl e)
          then show ?thesis by (auto intro!: triple_pure simp: block_post_def)
        next
          case (Inr u)
          show ?thesis
            unfolding Inr sum.case
            by (rule triple_seq [OF wait], rule triple_pure)
              (auto simp: block_post_def split: sum.splits)
        qed
      qed
    qed
  qed
qed

definition pcm_fetched :: "bool \<Rightarrow> PcmConfiguration option \<Rightarrow> bool" where
  "pcm_fetched wanted r \<longleftrightarrow>
     (case r of None \<Rightarrow> \<not> wanted
      | Some c \<Rightarrow> wanted \<and> pcm_validate c = Inr () \<and> (\<exists>n. bytes_per_interval c = Inr n))"

lemma parse_pcm_config_Inr:
  assumes "parse_pcm_config svc properties = Inr c"
  shows "pcm_validate c = Inr () \<and> (\<exists>n. bytes_per_interval c = Inr n)"
  using assms by (auto simp: parse_pcm_config_def result_simps Let_def)

lemma parse_pcm_config_Inl: "parse_pcm_config svc properties = Inl e \<Longrightarrow> pcm_error e"
  by (auto simp: parse_pcm_config_def property_def Let_def and_then_Inl_iff map_err_Inl_iff ok_or_def
      split: option.splits)

lemma triple_fetch_pcm:
  assumes "c \<in> {GetHostPcmConfig, GetPeerPcmConfig}"
  shows "triple (open_is h p) (fetch_pcm svc wanted c f)
    (\<lambda>r io. open_is h p io \<and> pcm_fetched wanted r) (\<lambda>e io. open_is h p io \<and> pcm_error e)"
  unfolding fetch_pcm_def
proof (intro triple_if)
  assume "wanted"
  have "triple (open_is h p)
     (seq (from_result (parse_pcm_config svc properties)) (\<lambda>pcm. pure (Some pcm)))
     (\<lambda>r io. open_is h p io \<and> pcm_fetched wanted r) (\<lambda>e io. open_is h p io \<and> pcm_error e)" for properties
    by (rule triple_seq, rule triple_from_result [where Q = "\<lambda>x io. open_is h p io \<and> pcm_fetched wanted (Some x)"])
      (auto simp: pcm_fetched_def \<open>wanted\<close> parse_pcm_config_Inl intro!: triple_pure dest!: parse_pcm_config_Inr)
  then show "triple (open_is h p)
     (seq (call c f (\<lambda>_. True)) (\<lambda>properties.
        seq (from_result (parse_pcm_config svc properties)) (\<lambda>pcm. pure (Some pcm))))
     (\<lambda>r io. open_is h p io \<and> pcm_fetched wanted r) (\<lambda>e io. open_is h p io \<and> pcm_error e)"
    by (intro triple_seq [OF triple_neutral]) (use assms in auto)
qed (auto intro!: triple_pure simp: pcm_fetched_def)

definition path_for :: "FlossLeDirections \<Rightarrow> FlossLeDataPath \<Rightarrow> bool" where
  "path_for d p \<longleftrightarrow> directions p = d \<and> stream p \<noteq> None \<and> \<not> stopped p \<and>
     pcm_fetched (host_to_peer d) (host_pcm p) \<and> pcm_fetched (peer_to_host d) (peer_pcm p)"

definition start_post ::
  "FlossLeDirections \<Rightarrow> floss_error \<Rightarrow> 'w io \<Rightarrow> bool"
where
  "start_post d e io \<longleftrightarrow>
     (if pcm_error e then open_is (host_to_peer d) (peer_to_host d) io else open_is False False io)"

lemma keeps_start_post:
  "keeps False False m \<Longrightarrow> triple (open_is False False) m (\<lambda>_. open_is False False) (start_post d)"
  by (erule triple_conseq) (simp_all add: start_post_def)

lemma triple_roll_back:
  assumes "\<not> pcm_error e"
  shows "triple (open_is h p) (seq (stop_directions svc h p) (\<lambda>_. throw e)) Q (start_post d)"
  by (rule triple_seq [OF triple_stop_directions], rule triple_throw)
    (use assms in \<open>simp add: start_post_def\<close>)

lemma triple_started:
  "triple (open_is (host_to_peer d) (peer_to_host d))
     (seq (fetch_pcm svc (host_to_peer d) GetHostPcmConfig (get_host_pcm_config svc)) (\<lambda>host.
      seq (fetch_pcm svc (peer_to_host d) GetPeerPcmConfig (get_peer_pcm_config svc)) (\<lambda>peer.
      seq (attempt (connect_with_deadline svc path timeout)) (\<lambda>c.
      case c of
        Inr st \<Rightarrow> pure \<lparr>stream = Some st, directions = d, host_pcm = host, peer_pcm = peer,
                        stopped = False\<rparr>
      | Inl e \<Rightarrow> seq (stop_directions svc (host_to_peer d) (peer_to_host d)) (\<lambda>_. throw e)))))
     (\<lambda>dp io. open_is (host_to_peer d) (peer_to_host d) io \<and> path_for d dp) (start_post d)"
    (is "triple ?open (seq ?hp (\<lambda>host. seq ?pp (\<lambda>peer. seq ?conn (?fin host peer)))) ?Q ?E")
proof -
  have fetch: "triple (\<lambda>io. ?open io \<and> B) (fetch_pcm svc wanted c f)
     (\<lambda>r io. ?open io \<and> pcm_fetched wanted r \<and> B) ?E"
    if "c \<in> {GetHostPcmConfig, GetPeerPcmConfig}" for wanted c f B
    by (rule triple_conseq [OF triple_frame [OF triple_fetch_pcm [OF that, of "host_to_peer d" "peer_to_host d"]]])
      (auto simp: start_post_def)
  have conn: "triple (\<lambda>io. ?open io \<and> B) ?conn
     (\<lambda>r io. ?open io \<and> (\<forall>e. r = Inl e \<longrightarrow> \<not> pcm_error e) \<and> B) E" for B E
    by (rule triple_conseq [OF triple_frame [OF triple_attempt
          [where P = ?open and Q = "\<lambda>r io. ?open io \<and> (\<forall>e. r = Inl e \<longrightarrow> \<not> pcm_error e)"]]])
      (use keeps_connect in simp_all)
  have fin: "triple (\<lambda>io. ?open io \<and> (\<forall>e. r = Inl e \<longrightarrow> \<not> pcm_error e) \<and>
       pcm_fetched (peer_to_host d) peer \<and> pcm_fetched (host_to_peer d) host \<and> True)
     (?fin host peer r) ?Q ?E" for host peer r
  proof (rule triple_assume)
    assume ok: "(\<forall>e. r = Inl e \<longrightarrow> \<not> pcm_error e) \<and>
       pcm_fetched (peer_to_host d) peer \<and> pcm_fetched (host_to_peer d) host \<and> True"
    show "triple ?open (?fin host peer r) ?Q ?E"
    proof (cases r)
      case (Inl e)
      with ok have "\<not> pcm_error e" by simp
      from triple_roll_back [OF this] show ?thesis unfolding Inl sum.case .
    next
      case (Inr st)
      show ?thesis
        unfolding Inr sum.case by (rule triple_pure) (use ok in \<open>simp add: path_for_def\<close>)
    qed
  qed
  have "triple (\<lambda>io. ?open io \<and> True) (seq ?hp (\<lambda>host. seq ?pp (\<lambda>peer. seq ?conn (?fin host peer)))) ?Q ?E"
    by (rule triple_seq [OF fetch], simp, rule triple_seq [OF fetch], simp, rule triple_seq [OF conn],
        rule fin)
  then show ?thesis by simp
qed

lemma triple_block_then:
  "triple (open_is False False) (seq (start_block svc d) (\<lambda>(r, host_started, peer_started).
     case r of
       Inl e \<Rightarrow> seq (stop_directions svc host_started peer_started) (\<lambda>_. throw e)
     | Inr _ \<Rightarrow>
         seq (fetch_pcm svc (host_to_peer d) GetHostPcmConfig (get_host_pcm_config svc)) (\<lambda>host.
         seq (fetch_pcm svc (peer_to_host d) GetPeerPcmConfig (get_peer_pcm_config svc)) (\<lambda>peer.
         seq (attempt (connect_with_deadline svc (data_path fls) (5 * 1000000000))) (\<lambda>c.
         case c of
           Inr st \<Rightarrow> pure \<lparr>stream = Some st, directions = d, host_pcm = host, peer_pcm = peer,
                           stopped = False\<rparr>
         | Inl e \<Rightarrow> seq (stop_directions svc host_started peer_started) (\<lambda>_. throw e))))))
     (\<lambda>dp io. open_is (host_to_peer d) (peer_to_host d) io \<and> path_for d dp) (start_post d)"
proof (rule triple_seq [OF triple_start_block], goal_cases)
  case (1 res)
  obtain r h p where res: "res = (r, h, p)" by (cases res)
  show ?case
  proof (cases r)
    case (Inl e)
    have post: "block_post d (Inl e, h, p) io \<Longrightarrow> open_is h p io \<and> \<not> pcm_error e" for io :: "'a io"
      by (simp add: block_post_def)
    show ?thesis
      unfolding res Inl prod.case sum.case
      by (rule triple_conseq [OF triple_assume [OF triple_roll_back]]) (auto dest: post)
  next
    case (Inr u)
    show ?thesis
      unfolding res Inr prod.case sum.case
    proof (rule triple_conseq [OF triple_assume [where B = "h = host_to_peer d \<and> p = peer_to_host d"
            and P = "open_is h p"]])
      assume "h = host_to_peer d \<and> p = peer_to_host d"
      then have hp: "h = host_to_peer d" "p = peer_to_host d" by simp_all
      show "triple (open_is h p)
       (seq (fetch_pcm svc (host_to_peer d) GetHostPcmConfig (get_host_pcm_config svc)) (\<lambda>host.
        seq (fetch_pcm svc (peer_to_host d) GetPeerPcmConfig (get_peer_pcm_config svc)) (\<lambda>peer.
        seq (attempt (connect_with_deadline svc (data_path fls) (5 * 1000000000))) (\<lambda>c.
        case c of
          Inr st \<Rightarrow> pure \<lparr>stream = Some st, directions = d, host_pcm = host, peer_pcm = peer,
                         stopped = False\<rparr>
        | Inl e \<Rightarrow> seq (stop_directions svc h p) (\<lambda>_. throw e)))))
       (\<lambda>dp io. open_is (host_to_peer d) (peer_to_host d) io \<and> path_for d dp) (start_post d)"
        unfolding hp by (rule triple_started)
    qed (auto simp: block_post_def)
  qed
qed

lemma triple_start:
  "triple (open_is False False) (start_software_unicast svc fls g d)
     (\<lambda>dp io. open_is (host_to_peer d) (peer_to_host d) io \<and> path_for d dp) (start_post d)"
proof -
  have valid: "keeps False False (from_result (directions_validate d) :: ('a io, floss_error, unit) act)"
    by (rule triple_from_result) (auto simp: directions_validate_def ensure_def split: if_splits)
  have group: "keeps False False (require (0 \<le> sint g) NegativeGroupId :: ('a io, floss_error, unit) act)"
    by (rule triple_require) auto
  have active: "keeps False False (call GroupSetActive (group_set_active svc g) (\<lambda>_. True))"
    by (rule triple_neutral) auto
  show ?thesis
    unfolding start_software_unicast_def
    by (rule triple_seq [OF keeps_start_post [OF valid]], rule triple_seq [OF keeps_start_post [OF group]],
        rule triple_seq [OF keeps_start_post [OF keeps_proxy]],
        rule triple_seq [OF keeps_start_post [OF active]],
        rule triple_seq [OF keeps_start_post [OF keeps_metadata]], rule triple_block_then)
qed

section \<open>The waiting loops return\<close>

text \<open>What the loops rely on: sleeping takes at least the time asked for, and no call turns the clock back.\<close>

definition clock_ok :: "('w, 'v) floss_service \<Rightarrow> bool" where
  "clock_ok svc \<longleftrightarrow>
     (\<forall>n w. svc_now svc w + n \<le> svc_now svc (svc_sleep svc n w)) \<and>
     (\<forall>w. svc_now svc w \<le> svc_now svc (snd (get_host_stream_started svc w))) \<and>
     (\<forall>w. svc_now svc w \<le> svc_now svc (snd (get_peer_stream_started svc w))) \<and>
     (\<forall>path w. svc_now svc w \<le> svc_now svc (snd (svc_connect svc path w)))"

definition since :: "('w, 'v) floss_service \<Rightarrow> nat \<Rightarrow> 'w io \<Rightarrow> bool" where
  "since svc n io \<longleftrightarrow> n \<le> svc_now svc (world io)"

lemma since_call:
  assumes "\<And>w. svc_now svc w \<le> svc_now svc (snd (f w))"
  shows "triple (since svc n) (call c f accepted) (\<lambda>_. since svc n) (\<lambda>_. since svc n)"
  unfolding call_def
proof (rule triple_perform)
  fix io r io'
  assume "since svc n io" and "(let (r, w) = f (world io) in
     (map_err (CallFailed c) r,
      io\<lparr>world := w, log := log io @ [(c, case r of Inl _ \<Rightarrow> False | Inr x \<Rightarrow> accepted x)]\<rparr>)) = (r, io')"
  then have "since svc n io'"
    using assms [of "world io"] by (auto simp: since_def split: prod.splits)
  then show "case r of Inl e \<Rightarrow> since svc n io' | Inr x \<Rightarrow> since svc n io'"
    by (simp split: sum.split)
qed

lemma since_confirmed:
  assumes "clock_ok svc"
  shows "triple (since svc n) (host_confirmed svc d) (\<lambda>_. since svc n) (\<lambda>_ _. True)"
    and "triple (since svc n) (peer_confirmed svc d) (\<lambda>_. since svc n) (\<lambda>_ _. True)"
proof -
  have "triple (since svc n) (call c f a) (\<lambda>_. since svc n) (\<lambda>_ _. True)"
    if "\<And>w. svc_now svc w \<le> svc_now svc (snd (f w))"
    for c a and f :: "'a \<Rightarrow> (nat + 'c) \<times> 'a"
    by (rule triple_conseq [OF since_call [OF that]]) simp_all
  then show "triple (since svc n) (host_confirmed svc d) (\<lambda>_. since svc n) (\<lambda>_ _. True)"
    and "triple (since svc n) (peer_confirmed svc d) (\<lambda>_. since svc n) (\<lambda>_ _. True)"
    using assms unfolding host_confirmed_def peer_confirmed_def clock_ok_def
    by (auto intro!: triple_seq triple_pure)
qed

lemma since_now: "triple (since svc n) (now svc) (\<lambda>t io. since svc t io \<and> n \<le> t) E"
  unfolding now_def by (rule triple_inspect) (simp add: since_def)

lemma since_sleep:
  "clock_ok svc \<Longrightarrow> triple (since svc n) (sleep_ms svc ms) (\<lambda>_. since svc (n + ms * 1000000)) E"
  unfolding sleep_ms_def
proof (rule triple_modify)
  fix io :: "'a io"
  assume "clock_ok svc" and "since svc n io"
  then have "svc_now svc (world io) + ms * 1000000 \<le> svc_now svc (svc_sleep svc (ms * 1000000) (world io))"
    and "n \<le> svc_now svc (world io)"
    by (simp_all add: clock_ok_def since_def)
  then show "since svc (n + ms * 1000000) (io\<lparr>world := svc_sleep svc (ms * 1000000) (world io)\<rparr>)"
    by (simp add: since_def)
qed

lemma returns_call [simp]: "returns P (call c f a)"
  by (simp add: call_def)

lemma returns_confirmed: "returns P (host_confirmed svc d)" "returns P (peer_confirmed svc d)"
proof -
  have "returns P (seq (call c f a) (\<lambda>v. pure (v = (1 :: i32))))" for c a and f :: "'a \<Rightarrow> (nat + i32) \<times> 'a"
    by (rule returns_seq [where R = "\<lambda>_ _. True"]) (auto simp: triple_def split: sum.splits)
  then show "returns P (host_confirmed svc d)" "returns P (peer_confirmed svc d)"
    by (simp_all add: host_confirmed_def peer_confirmed_def)
qed

lemma returns_pause:
  assumes "clock_ok svc" and "t < deadline"
    and "returns (since svc (t + 20 * 1000000)) (m :: ('w io, floss_error, 'a) act)"
  shows "returns (since svc t) (seq (sleep_ms svc 20) (\<lambda>_. m))"
  by (rule returns_seq [OF _ since_sleep [OF assms(1)] assms(3)]) (simp add: sleep_ms_def)

lemma returns_wait_loop:
  assumes clock: "clock_ok svc"
  shows "returns (since svc n) (wait_loop svc d deadline)"
proof (induction "deadline - n" arbitrary: n rule: less_induct)
  case less
  have unfold: "wait_loop svc d deadline =
     seq (host_confirmed svc d) (\<lambda>host. seq (peer_confirmed svc d) (\<lambda>peer.
       if host \<and> peer then pure ()
       else seq (now svc) (\<lambda>t. if t \<ge> deadline then throw StartTimedOut
         else seq (sleep_ms svc 20) (\<lambda>_. wait_loop svc d deadline))))"
    by (rule ext) (rule wait_loop.simps)
  have pause: "returns (\<lambda>io. since svc t io \<and> n \<le> t) (seq (sleep_ms svc 20) (\<lambda>_. wait_loop svc d deadline))"
    if "t < deadline" for t
  proof (cases "n \<le> t")
    case True
    with that have "returns (since svc (t + 20 * 1000000)) (wait_loop svc d deadline)"
      by (intro less) simp
    from returns_pause [OF clock that this] True show ?thesis by (simp add: returns_def)
  qed (simp add: returns_def)
  have "returns (since svc n)
     (seq (host_confirmed svc d) (\<lambda>host. seq (peer_confirmed svc d) (\<lambda>peer.
       if host \<and> peer then pure ()
       else seq (now svc) (\<lambda>t. if t \<ge> deadline then throw StartTimedOut
         else seq (sleep_ms svc 20) (\<lambda>_. wait_loop svc d deadline)))))"
    by (rule returns_seq [OF returns_confirmed(1) since_confirmed(1) [OF clock]],
        rule returns_seq [OF returns_confirmed(2) since_confirmed(2) [OF clock]],
        rule returns_if, simp, rule returns_seq [OF _ since_now], simp add: now_def)
      (auto intro!: pause)
  then show ?case by (simp only: unfold [symmetric])
qed

lemma returns_connect_loop:
  assumes clock: "clock_ok svc"
  shows "returns (since svc n) (connect_loop svc path deadline)"
proof (induction "deadline - n" arbitrary: n rule: less_induct)
  case less
  have unfold: "connect_loop svc path deadline =
     seq (attempt (call ConnectSocket (svc_connect svc path) (\<lambda>_. True))) (\<lambda>r.
       case r of Inr st \<Rightarrow> pure st
       | Inl e \<Rightarrow> seq (now svc) (\<lambda>t. if t < deadline
           then seq (sleep_ms svc 20) (\<lambda>_. connect_loop svc path deadline) else throw e))"
    by (rule ext) (rule connect_loop.simps)
  have pause: "returns (\<lambda>io. since svc t io \<and> n \<le> t) (seq (sleep_ms svc 20) (\<lambda>_. connect_loop svc path deadline))"
    if "t < deadline" for t
  proof (cases "n \<le> t")
    case True
    with that have "returns (since svc (t + 20 * 1000000)) (connect_loop svc path deadline)"
      by (intro less) simp
    from returns_pause [OF clock that this] True show ?thesis by (simp add: returns_def)
  qed (simp add: returns_def)
  have first: "triple (since svc n) (attempt (call ConnectSocket (svc_connect svc path) (\<lambda>_. True)))
      (\<lambda>_. since svc n) (\<lambda>_ _. True)"
    by (rule triple_attempt, rule since_call) (use clock in \<open>simp add: clock_ok_def\<close>)
  have "returns (since svc n)
     (seq (attempt (call ConnectSocket (svc_connect svc path) (\<lambda>_. True))) (\<lambda>r.
       case r of Inr st \<Rightarrow> pure st
       | Inl e \<Rightarrow> seq (now svc) (\<lambda>t. if t < deadline
           then seq (sleep_ms svc 20) (\<lambda>_. connect_loop svc path deadline) else throw e)))"
    by (rule returns_seq [OF _ first], rule returns_attempt, simp, rule returns_case_sum,
        rule returns_seq [OF _ since_now])
      (auto simp: now_def intro!: pause)
  then show ?case by (simp only: unfold [symmetric])
qed

lemma returns_waits:
  assumes "clock_ok svc"
  shows "returns (\<lambda>_. True) (wait_started svc d timeout)"
    and "returns (\<lambda>_. True) (connect_with_deadline svc path timeout)"
proof -
  have "since svc 0 = (\<lambda>_. True)" by (simp add: fun_eq_iff since_def)
  then show "returns (\<lambda>_. True) (wait_started svc d timeout)"
    and "returns (\<lambda>_. True) (connect_with_deadline svc path timeout)"
    using returns_wait_loop [OF assms, of 0] returns_connect_loop [OF assms, of 0]
    unfolding wait_started_def connect_with_deadline_def
    by (auto intro!: returns_seq_any simp: now_def)
qed

lemma returns_start:
  assumes "clock_ok svc"
  shows "returns (\<lambda>_. True) (start_software_unicast svc fls g d)"
  unfolding start_software_unicast_def proxy_def announce_metadata_def start_block_def
    stop_directions_def fetch_pcm_def case_prod_unfold
  by (intro returns_seq_any returns_if returns_case_sum returns_attempt returns_simps returns_call
      returns_waits assms)

section \<open>Properties of the control plane\<close>

text \<open>C4: Starting a stream leaves no direction open by accident: on success exactly the requested
  directions are open, the data path carries the socket, and each requested direction has a validated
  PCM configuration with a whole interval; on every failure, apart from one in reading the PCM
  configurations, every direction that Floss had accepted has been asked to stop again. After a failure
  in reading the PCM configurations the requested directions are still open.\<close>

theorem start_software_unicast_outcome:
  assumes "open_is False False io" and "start_software_unicast svc fls g d io = Some (r, io')"
  shows "case r of
      Inr p \<Rightarrow> open_is (host_to_peer d) (peer_to_host d) io' \<and> directions p = d \<and> stream p \<noteq> None \<and>
        pcm_fetched (host_to_peer d) (host_pcm p) \<and> pcm_fetched (peer_to_host d) (peer_pcm p)
    | Inl e \<Rightarrow> if pcm_error e then open_is (host_to_peer d) (peer_to_host d) io'
        else open_is False False io'"
  using tripleD [OF triple_start assms] by (auto simp: path_for_def start_post_def split: sum.splits)

text \<open>
  A Floss daemon that accepts every request, confirms the streams at once and reports 48 kHz stereo; its
  world is the clock. A second one whose PCM configuration lacks a property.
\<close>

definition good_properties :: "string \<rightharpoonup> nat" where
  "good_properties =
     [''data_interval_us'' \<mapsto> 10000, ''sample_rate'' \<mapsto> 48000, ''bits_per_sample'' \<mapsto> 16,
      ''channels_count'' \<mapsto> 2]"

definition good_service :: "(nat, nat) floss_service" where
  "good_service =
     \<lparr>svc_proxy = (\<lambda>_ w. (Inr (), w)), group_set_active = (\<lambda>_ w. (Inr (), w)),
      host_start_audio_request = (\<lambda>w. (Inr True, w)), host_stop_audio_request = (\<lambda>w. (Inr (), w)),
      peer_start_audio_request = (\<lambda>w. (Inr True, w)), peer_stop_audio_request = (\<lambda>w. (Inr (), w)),
      get_host_pcm_config = (\<lambda>w. (Inr good_properties, w)),
      get_peer_pcm_config = (\<lambda>w. (Inr good_properties, w)),
      get_host_stream_started = (\<lambda>w. (Inr 1, w)), get_peer_stream_started = (\<lambda>w. (Inr 1, w)),
      get_group_status = (\<lambda>_ w. (Inr 0, w)), get_group_stream_status = (\<lambda>_ w. (Inr 0, w)),
      source_metadata_changed = (\<lambda>_ _ w. (Inr True, w)), sink_metadata_changed = (\<lambda>_ w. (Inr True, w)),
      svc_connect = (\<lambda>_ w. (Inr 7, w)), svc_now = (\<lambda>w. w), svc_sleep = (\<lambda>n w. w + n),
      value_u32 = (\<lambda>v. Some (of_nat v)), value_u8 = (\<lambda>v. Some (of_nat v))\<rparr>"

definition no_rate_service :: "(nat, nat) floss_service" where
  "no_rate_service =
     good_service\<lparr>get_host_pcm_config := (\<lambda>w. (Inr (good_properties(''sample_rate'' := None)), w))\<rparr>"

definition idle_io :: "nat io" where
  "idle_io = \<lparr>world = 0, log = []\<rparr>"

lemma idle_io_closed: "open_is False False idle_io"
  by (simp add: open_is_def dir_open_def idle_io_def)

lemma clock_ok_services: "clock_ok good_service" "clock_ok no_rate_service"
  by (simp_all add: clock_ok_def good_service_def no_rate_service_def)

lemma good_config: "parse_pcm_config good_service good_properties = Inr stereo_48k"
proof -
  have "parse_pcm_config good_service good_properties =
      and_then (map_err PcmContractViolated (pcm_validate stereo_48k)) (\<lambda>_.
      and_then (map_err PcmContractViolated (bytes_per_interval stereo_48k)) (\<lambda>_. Inr stereo_48k))"
    by (simp add: parse_pcm_config_def property_def good_properties_def good_service_def stereo_48k_def
        Let_def)
  then show ?thesis by (simp add: stereo_48k_valid stereo_48k_bytes)
qed

lemmas floss_exec = start_software_unicast_def proxy_def announce_metadata_def start_block_def
  stop_directions_def fetch_pcm_def wait_started_def connect_with_deadline_def wait_loop.simps
  connect_loop.simps host_confirmed_def peer_confirmed_def now_def call_def act_defs
  directions_validate_def

lemma good_start:
  "\<exists>io'. start_software_unicast good_service (with_connection 0) 3 FULL_DUPLEX idle_io =
     Some (Inr \<lparr>stream = Some 7, directions = FULL_DUPLEX, host_pcm = Some stereo_48k,
               peer_pcm = Some stereo_48k, stopped = False\<rparr>, io')"
  using good_config
  by (simp add: floss_exec FULL_DUPLEX_def idle_io_def good_service_def)

theorem start_software_unicast_outcome_witness:
  "\<exists>p io'. start_software_unicast good_service (with_connection 0) 3 FULL_DUPLEX idle_io =
      Some (Inr p, io') \<and> open_is True True io' \<and> host_pcm p = Some stereo_48k"
proof -
  obtain io' where run: "start_software_unicast good_service (with_connection 0) 3 FULL_DUPLEX idle_io =
     Some (Inr \<lparr>stream = Some 7, directions = FULL_DUPLEX, host_pcm = Some stereo_48k,
               peer_pcm = Some stereo_48k, stopped = False\<rparr>, io')"
    using good_start by blast
  from start_software_unicast_outcome [OF idle_io_closed run] run show ?thesis
    by (simp add: FULL_DUPLEX_def)
qed


text \<open>C9: Starting a stream always comes back: when sleeping takes the time asked for and no call turns
  the clock back, neither the wait for the confirmation nor the connection attempts run forever, whatever
  Floss answers, so that the call returns a data path or an error.\<close>

theorem start_software_unicast_returns:
  assumes "clock_ok svc"
  shows "\<exists>r io'. start_software_unicast svc fls g d io = Some (r, io')"
  by (rule returnsD [OF returns_start [OF assms]]) simp

theorem start_software_unicast_returns_witness:
  "\<exists>r io'. start_software_unicast no_rate_service (with_connection 1) 3 INPUT idle_io = Some (r, io')"
  by (rule start_software_unicast_returns [OF clock_ok_services(2)])


definition deaf_service :: "(nat, nat) floss_service" where
  "deaf_service = good_service\<lparr>peer_stop_audio_request := (\<lambda>w. (Inl 5, w))\<rparr>"


end
