(* ===== verification/Pcm_Frame.thy ===== *)
theory Pcm_Frame
  imports Dorsche_Prelude
begin

text \<open>
  Captured frames and the ownership of their descriptors: the C++ side (\<open>src/dorsche_core.cc\<close>), which
  allocates a shared buffer and a completion fence, and the Rust side (\<open>src/topshim/frame.rs\<close>), which
  takes both descriptors over and maps the buffer.

  The part of the kernel that matters is the list of open descriptors and the number of writable
  mappings. The outcome of every system call is an argument: \<open>capture_calls\<close> for the C++ constructor
  and \<open>lease_calls\<close> for the Rust side. New descriptors come from the function \<open>new_fd\<close>, of which
  the properties assume what POSIX guarantees: it is not negative and not open yet.
\<close>

section \<open>The kernel\<close>

record kernel =
  open_fds :: "int list"
  writable_maps :: nat

definition open_fd :: "int \<Rightarrow> kernel \<Rightarrow> kernel" where
  "open_fd fd k = k\<lparr>open_fds := fd # open_fds k\<rparr>"

definition close_fd :: "int \<Rightarrow> kernel \<Rightarrow> kernel" where
  "close_fd fd k = k\<lparr>open_fds := removeAll fd (open_fds k)\<rparr>"

section \<open>The C++ frame\<close>

record HardwareFrame =
  hf_sample_count :: usize
  hf_byte_count :: usize
  hf_sample_rate :: u32
  hf_sequence :: u64
  hf_capture_time_ns :: u64
  hf_buffer_fd :: int
  hf_fence_fd :: int
  hf_is_dma_buf :: bool
  hf_mapped :: bool

record capture_calls =
  new_fd :: "int list \<Rightarrow> int"
  heap_opens :: bool
  heap_allocates :: bool
  memfd_opens :: bool
  memfd_grows :: bool
  buffer_maps :: bool
  fence_opens :: bool
  fence_signals :: bool
  time_ns :: u64

datatype capture_error =
    AllocationFailed
  | MapFailed
  | FenceCreationFailed
  | FenceSignalFailed

definition cpp_create_memfd :: "capture_calls \<Rightarrow> kernel \<Rightarrow> int \<times> kernel" where
  "cpp_create_memfd c k =
     (if \<not> memfd_opens c then (- 1, k)
      else let fd = new_fd c (open_fds k); k1 = open_fd fd k in
        if \<not> memfd_grows c then (- 1, close_fd fd k1) else (fd, k1))"

definition allocate_shared_audio ::
  "capture_calls \<Rightarrow> kernel \<Rightarrow> (capture_error + int \<times> bool) \<times> kernel"
where
  "allocate_shared_audio c k =
     (let heap = new_fd c (open_fds k);
          k1 = if heap_opens c then open_fd heap k else k;
          buffer = new_fd c (open_fds k1) in
      if heap_opens c \<and> heap_allocates c
      then (Inr (buffer, True), close_fd heap (open_fd buffer k1))
      else let k2 = if heap_opens c then close_fd heap k1 else k1;
               (fd, k3) = cpp_create_memfd c k2 in
        if fd < 0 then (Inl AllocationFailed, k3) else (Inr (fd, False), k3))"

definition new_hardware_frame ::
  "capture_calls \<Rightarrow> usize \<Rightarrow> u32 \<Rightarrow> u64 \<Rightarrow> kernel \<Rightarrow> (capture_error + HardwareFrame) \<times> kernel"
where
  "new_hardware_frame c count rate seq k =
     (case allocate_shared_audio c k of
        (Inl e, k1) \<Rightarrow> (Inl e, k1)
      | (Inr (fd, dma_buf), k1) \<Rightarrow>
          if \<not> buffer_maps c then (Inl MapFailed, close_fd fd k1)
          else let k2 = k1\<lparr>writable_maps := writable_maps k1 + 1\<rparr> in
            if \<not> fence_opens c
            then (Inl FenceCreationFailed, close_fd fd (k2\<lparr>writable_maps := writable_maps k2 - 1\<rparr>))
            else let fence = new_fd c (open_fds k2); k3 = open_fd fence k2 in
              if \<not> fence_signals c
              then (Inl FenceSignalFailed,
                    close_fd fd ((close_fd fence k3)\<lparr>writable_maps := writable_maps k3 - 1\<rparr>))
              else (Inr \<lparr>hf_sample_count = count, hf_byte_count = count * 4, hf_sample_rate = rate,
                         hf_sequence = seq, hf_capture_time_ns = time_ns c, hf_buffer_fd = fd,
                         hf_fence_fd = fence, hf_is_dma_buf = dma_buf, hf_mapped = True\<rparr>, k3))"

definition drop_hardware_frame :: "HardwareFrame \<Rightarrow> kernel \<Rightarrow> kernel" where
  "drop_hardware_frame f k =
     (let k1 = if hf_mapped f then k\<lparr>writable_maps := writable_maps k - 1\<rparr> else k;
          k2 = if hf_buffer_fd f \<ge> 0 then close_fd (hf_buffer_fd f) k1 else k1 in
      if hf_fence_fd f \<ge> 0 then close_fd (hf_fence_fd f) k2 else k2)"

definition take_buffer_fd :: "HardwareFrame \<Rightarrow> kernel \<Rightarrow> int \<times> HardwareFrame \<times> kernel" where
  "take_buffer_fd f k =
     (hf_buffer_fd f, f\<lparr>hf_buffer_fd := - 1, hf_mapped := False\<rparr>,
      if hf_mapped f then k\<lparr>writable_maps := writable_maps k - 1\<rparr> else k)"

definition take_fence_fd :: "HardwareFrame \<Rightarrow> int \<times> HardwareFrame" where
  "take_fence_fd f = (hf_fence_fd f, f\<lparr>hf_fence_fd := - 1\<rparr>)"

section \<open>The Rust lease\<close>

record SharedPcmFrame =
  buffer :: int
  mapping_address :: nat
  mapping_len :: nat
  sample_count :: usize
  sample_rate :: u32
  sequence :: u64
  capture_time_ns :: u64
  dma_buf :: bool

datatype frame_error =
    NullFrame
  | ByteLengthOverflow
  | InvalidBufferFd
  | InvalidFenceFd
  | CaptureFence nat
  | BufferMap nat
  | ShortMapping
  | MisalignedMapping

datatype fence_read = FenceSignalled | FenceWouldBlock | FenceReadError nat

text \<open>
  \<open>wait_for_fence\<close> on the outcomes of its iterations: an error of the readiness wait, or what the read
  gave. It is still waiting when the outcomes end.
\<close>

fun fence_loop :: "(nat option \<times> fence_read) list \<Rightarrow> (nat + unit) option" where
  "fence_loop [] = None"
| "fence_loop ((Some e, _) # rest) = Some (Inl e)"
| "fence_loop ((None, FenceSignalled) # rest) = Some (Inr ())"
| "fence_loop ((None, FenceWouldBlock) # rest) = fence_loop rest"
| "fence_loop ((None, FenceReadError e) # rest) = Some (Inl e)"

definition wait_for_fence ::
  "nat option \<Rightarrow> (nat option \<times> fence_read) list \<Rightarrow> (nat + unit) option"
where
  "wait_for_fence registration outcomes =
     (case registration of Some e \<Rightarrow> Some (Inl e) | None \<Rightarrow> fence_loop outcomes)"

record lease_calls =
  registration :: "nat option"
  fence_outcomes :: "(nat option \<times> fence_read) list"
  map_buffer :: "nat \<Rightarrow> nat + nat \<times> nat"

definition map_lease ::
  "lease_calls \<Rightarrow> int \<Rightarrow> usize \<Rightarrow> HardwareFrame \<Rightarrow> frame_error + SharedPcmFrame"
where
  "map_lease c fd byte_count f =
     and_then (map_err BufferMap (map_buffer c (unat byte_count))) (\<lambda>(address, len).
     ensure (len = unat byte_count) ShortMapping (
     ensure (address mod 4 = 0) MisalignedMapping (
     Inr \<lparr>buffer = fd, mapping_address = address, mapping_len = len,
          sample_count = hf_sample_count f, sample_rate = hf_sample_rate f,
          sequence = hf_sequence f, capture_time_ns = hf_capture_time_ns f,
          dma_buf = hf_is_dma_buf f\<rparr>)))"

text \<open>
  \<open>from_cpp\<close> with the descriptors it leaves open. A descriptor owned by a local \<open>File\<close> is closed when
  its scope ends, and the C++ frame is destroyed on every path.
\<close>

definition from_cpp ::
  "lease_calls \<Rightarrow> HardwareFrame option \<Rightarrow> kernel \<Rightarrow> ((frame_error + SharedPcmFrame) \<times> kernel) option"
where
  "from_cpp c raw k =
     (case raw of
        None \<Rightarrow> Some (Inl NullFrame, k)
      | Some f \<Rightarrow>
          (case checked_mul (hf_sample_count f) 4 of
             None \<Rightarrow> Some (Inl ByteLengthOverflow, drop_hardware_frame f k)
           | Some byte_count \<Rightarrow>
               let (buffer_fd, f1, k1) = take_buffer_fd f k;
                   (fence_fd, f2) = take_fence_fd f1 in
               if \<not> buffer_fd \<ge> 0 then Some (Inl InvalidBufferFd, drop_hardware_frame f2 k1)
               else if fence_fd < 0
               then Some (Inl InvalidFenceFd, drop_hardware_frame f2 (close_fd buffer_fd k1))
               else let k2 = drop_hardware_frame f2 k1 in
                 case wait_for_fence (registration c) (fence_outcomes c) of
                   None \<Rightarrow> None
                 | Some (Inl e) \<Rightarrow> Some (Inl (CaptureFence e), close_fd buffer_fd (close_fd fence_fd k2))
                 | Some (Inr _) \<Rightarrow>
                     (case map_lease c buffer_fd byte_count f of
                        Inl e \<Rightarrow> Some (Inl e, close_fd buffer_fd (close_fd fence_fd k2))
                      | Inr p \<Rightarrow> Some (Inr p, close_fd fence_fd k2))))"

text \<open>\<open>deref\<close>: start and number of bytes of the slice of samples.\<close>

definition deref_slice :: "SharedPcmFrame \<Rightarrow> nat \<times> nat" where
  "deref_slice p = (mapping_address p, unat (sample_count p) * 4)"

text \<open>\<open>HardwareController\<close>: 160 samples at 16 kHz, numbered by the capture counter.\<close>

record HardwareController =
  capture_sequence :: u64

definition capture_next ::
  "capture_calls \<Rightarrow> HardwareController \<Rightarrow> kernel \<Rightarrow>
   (capture_error + HardwareFrame) \<times> HardwareController \<times> kernel"
where
  "capture_next c h k =
     (let (r, k1) = new_hardware_frame c 160 16000 (capture_sequence h) k in
      (r, h\<lparr>capture_sequence := capture_sequence h + 1\<rparr>, k1))"

record PlaybackReceipt =
  receipt_sequence :: u64
  presentation_time_ns :: u64

definition play_pcm :: "u64 \<Rightarrow> 'pcm \<Rightarrow> u64 \<Rightarrow> PlaybackReceipt" where
  "play_pcm now_ns samples seq = \<lparr>receipt_sequence = seq, presentation_time_ns = now_ns\<rparr>"

section \<open>Ownership of the descriptors\<close>

definition fresh_fds :: "capture_calls \<Rightarrow> bool" where
  "fresh_fds c \<longleftrightarrow> (\<forall>fds. 0 \<le> new_fd c fds \<and> new_fd c fds \<notin> set fds)"

lemma close_open: "fd \<notin> set (open_fds k) \<Longrightarrow> close_fd fd (open_fd fd k) = k"
  by (simp add: close_fd_def open_fd_def)

text \<open>A frame that owns its two descriptors and its mapping, over the kernel of before the capture.\<close>

definition owns :: "HardwareFrame \<Rightarrow> kernel \<Rightarrow> kernel \<Rightarrow> bool" where
  "owns f k k1 \<longleftrightarrow>
     0 \<le> hf_buffer_fd f \<and> 0 \<le> hf_fence_fd f \<and> hf_mapped f \<and>
     hf_buffer_fd f \<notin> set (open_fds k) \<and> hf_fence_fd f \<notin> set (hf_buffer_fd f # open_fds k) \<and>
     open_fds k1 = hf_fence_fd f # hf_buffer_fd f # open_fds k \<and>
     writable_maps k1 = writable_maps k + 1"

lemma cpp_create_memfd_cases:
  assumes "fresh_fds c" and "cpp_create_memfd c k = (fd, k')"
  shows "fd < 0 \<and> k' = k \<or> 0 \<le> fd \<and> fd \<notin> set (open_fds k) \<and> k' = open_fd fd k"
  using assms by (auto simp: cpp_create_memfd_def fresh_fds_def close_open Let_def split: if_splits)

lemma allocate_cases:
  assumes "fresh_fds c" and "allocate_shared_audio c k = (r, k')"
  shows "case r of Inl e \<Rightarrow> k' = k
    | Inr (fd, _) \<Rightarrow> 0 \<le> fd \<and> fd \<notin> set (open_fds k) \<and> k' = open_fd fd k"
proof (cases "heap_opens c \<and> heap_allocates c")
  case True
  let ?heap = "new_fd c (open_fds k)" and ?buffer = "new_fd c (new_fd c (open_fds k) # open_fds k)"
  have "?heap \<notin> set (open_fds k)" "0 \<le> ?buffer" "?buffer \<notin> set (?heap # open_fds k)"
    using assms(1) unfolding fresh_fds_def by blast+
  with True assms(2) show ?thesis
    by (auto simp: allocate_shared_audio_def Let_def open_fd_def close_fd_def)
next
  case False
  obtain fd k3 where m: "cpp_create_memfd c k = (fd, k3)" by (cases "cpp_create_memfd c k")
  have "close_fd (new_fd c (open_fds k)) (open_fd (new_fd c (open_fds k)) k) = k"
    using assms(1) by (simp add: fresh_fds_def close_open)
  with False assms(2) m cpp_create_memfd_cases [OF assms(1) m] show ?thesis
    by (auto simp: allocate_shared_audio_def Let_def split: if_splits)
qed

lemma new_hardware_frame_cases:
  assumes c: "fresh_fds c" and run: "new_hardware_frame c count rate seq k = (r, k')"
  shows "case r of Inl e \<Rightarrow> k' = k
    | Inr f \<Rightarrow> owns f k k' \<and> hf_sample_count f = count \<and> hf_sample_rate f = rate \<and> hf_sequence f = seq"
proof -
  obtain q k1 where a: "allocate_shared_audio c k = (q, k1)" by (cases "allocate_shared_audio c k")
  note cases = allocate_cases [OF c a]
  show ?thesis
  proof (cases q)
    case (Inl e)
    with run a cases show ?thesis by (auto simp: new_hardware_frame_def)
  next
    case (Inr x)
    obtain fd dma where x: "x = (fd, dma)" by (cases x)
    have fd: "0 \<le> fd" "fd \<notin> set (open_fds k)" "k1 = open_fd fd k" using cases by (simp_all add: Inr x)
    have fence: "0 \<le> new_fd c (fd # open_fds k)" "new_fd c (fd # open_fds k) \<notin> set (fd # open_fds k)"
      using c unfolding fresh_fds_def by blast+
    show ?thesis
      using run a fd fence
      by (cases "buffer_maps c"; cases "fence_opens c"; cases "fence_signals c")
        (auto simp: new_hardware_frame_def Inr x open_fd_def close_fd_def owns_def Let_def)
  qed
qed

lemma map_lease_Inr:
  "map_lease c fd bytes f = Inr p \<Longrightarrow>
   buffer p = fd \<and> mapping_len p = unat bytes \<and> mapping_address p mod 4 = 0 \<and>
   sample_count p = hf_sample_count f \<and> sequence p = hf_sequence f"
  by (auto simp: map_lease_def result_simps)

lemma from_cpp_owned:
  assumes "owns f k k1" and run: "from_cpp c (Some f) k1 = Some (r, k2)"
  shows "writable_maps k2 = writable_maps k \<and>
    (case r of
       Inl e \<Rightarrow> open_fds k2 = open_fds k
     | Inr p \<Rightarrow> buffer p = hf_buffer_fd f \<and> open_fds k2 = hf_buffer_fd f # open_fds k \<and>
         mapping_len p = unat (sample_count p) * 4 \<and> mapping_address p mod 4 = 0 \<and>
         sample_count p = hf_sample_count f \<and> sequence p = hf_sequence f)"
proof (cases "checked_mul (hf_sample_count f) 4")
  case None
  with assms show ?thesis
    by (auto simp: from_cpp_def owns_def drop_hardware_frame_def close_fd_def)
next
  case (Some bytes)
  then have bytes: "unat bytes = unat (hf_sample_count f) * 4"
    by (auto simp: checked_mul_def unat_mult_no_wrap split: if_splits)
  note exec = from_cpp_def Some take_buffer_fd_def take_fence_fd_def drop_hardware_frame_def close_fd_def
  obtain w where w: "wait_for_fence (registration c) (fence_outcomes c) = Some w"
    using run assms(1) by (cases "wait_for_fence (registration c) (fence_outcomes c)")
      (auto simp: exec owns_def)
  show ?thesis
  proof (cases w)
    case (Inl e)
    with run assms(1) w show ?thesis by (auto simp: exec owns_def)
  next
    case (Inr u)
    note w = w [unfolded this]
    show ?thesis
    proof (cases "map_lease c (hf_buffer_fd f) bytes f")
      case (Inl e)
      with run assms(1) w have r: "r = Inl e" by (auto simp: exec owns_def)
      from run assms(1) w Inl show ?thesis unfolding r by (auto simp: exec owns_def)
    next
      case (Inr p)
      with run assms(1) w have r: "r = Inr p" by (auto simp: exec owns_def)
      from run assms(1) w Inr map_lease_Inr [OF Inr] show ?thesis
        unfolding r by (auto simp: exec owns_def bytes)
    qed
  qed
qed

section \<open>Properties\<close>

text \<open>C26: A captured frame never leaks a descriptor or a mapping, whichever system call fails on either
  side of the language boundary: a failed capture leaves the kernel as it was; when the Rust side comes
  back, C++ has no writable mapping any more, an error leaves exactly the descriptors of before the
  capture, and a frame keeps exactly its own buffer, with an aligned mapping that the slice of its samples
  spans to the byte.\<close>

theorem capture_lease_ownership:
  assumes "fresh_fds c" and "capture_next c h k = (r, h', k1)"
  shows "case r of
      Inl e \<Rightarrow> k1 = k
    | Inr f \<Rightarrow> hf_sequence f = capture_sequence h \<and> hf_sample_count f = 160 \<and>
        (\<forall>d q k2. from_cpp d (Some f) k1 = Some (q, k2) \<longrightarrow>
           writable_maps k2 = writable_maps k \<and>
           (case q of
              Inl e \<Rightarrow> open_fds k2 = open_fds k
            | Inr p \<Rightarrow> open_fds k2 = buffer p # open_fds k \<and> buffer p \<notin> set (open_fds k) \<and>
                deref_slice p = (mapping_address p, mapping_len p) \<and> mapping_len p = 640 \<and>
                mapping_address p mod 4 = 0 \<and> sequence p = capture_sequence h))"
proof -
  have run: "new_hardware_frame c 160 16000 (capture_sequence h) k = (r, k1)"
    using assms(2) by (auto simp: capture_next_def split: prod.splits)
  note cases = new_hardware_frame_cases [OF assms(1) run]
  show ?thesis
  proof (cases r)
    case (Inr f)
    have f: "owns f k k1" "hf_sample_count f = 160" "hf_sequence f = capture_sequence h"
      using cases by (simp_all add: Inr)
    then have "hf_buffer_fd f \<notin> set (open_fds k)" by (simp add: owns_def)
    then show ?thesis
      using f from_cpp_owned [OF f(1)] by (auto simp: Inr deref_slice_def split: sum.splits) fastforce+
  qed (use cases in simp)
qed

text \<open>System calls that all succeed, with the smallest descriptor above the open ones.\<close>

definition all_succeed :: capture_calls where
  "all_succeed =
     \<lparr>new_fd = (\<lambda>fds. foldr max fds 2 + 1), heap_opens = False, heap_allocates = False,
      memfd_opens = True, memfd_grows = True, buffer_maps = True, fence_opens = True,
      fence_signals = True, time_ns = 0\<rparr>"

lemma above_fresh: "x \<in> set fds \<Longrightarrow> x \<le> foldr max fds (2 :: int)" and above_nonneg: "2 \<le> foldr max fds (2 :: int)"
  by (induction fds) (auto simp: max_def)

lemma all_succeed_fresh: "fresh_fds all_succeed"
proof -
  have "0 \<le> foldr max fds 2 + 1 \<and> foldr max fds 2 + 1 \<notin> set fds" for fds :: "int list"
    using above_nonneg [of fds] above_fresh [of "foldr max fds 2 + 1" fds] by auto
  then show ?thesis by (simp add: fresh_fds_def all_succeed_def)
qed

definition quick_lease :: lease_calls where
  "quick_lease =
     \<lparr>registration = None, fence_outcomes = [(None, FenceWouldBlock), (None, FenceSignalled)],
      map_buffer = (\<lambda>n. Inr (4096, n))\<rparr>"

definition three_open :: kernel where
  "three_open = \<lparr>open_fds = [0, 1, 2], writable_maps = 0\<rparr>"

theorem capture_lease_ownership_witness:
  "\<exists>f h' k1 p k2. capture_next all_succeed \<lparr>capture_sequence = 9\<rparr> three_open = (Inr f, h', k1) \<and>
     from_cpp quick_lease (Some f) k1 = Some (Inr p, k2) \<and>
     open_fds k2 = [3, 0, 1, 2] \<and> mapping_len p = 640 \<and> sequence p = 9"
proof -
  let ?f = "\<lparr>hf_sample_count = 160, hf_byte_count = 640, hf_sample_rate = 16000, hf_sequence = 9,
    hf_capture_time_ns = 0, hf_buffer_fd = 3, hf_fence_fd = 4, hf_is_dma_buf = False, hf_mapped = True\<rparr>"
  let ?k1 = "\<lparr>open_fds = [4, 3, 0, 1, 2], writable_maps = 1\<rparr>"
  have run: "capture_next all_succeed \<lparr>capture_sequence = 9\<rparr> three_open =
      (Inr ?f, \<lparr>capture_sequence = 10\<rparr>, ?k1)"
    by (simp add: capture_next_def new_hardware_frame_def allocate_shared_audio_def
        cpp_create_memfd_def all_succeed_def three_open_def open_fd_def)
  obtain p k2 where lease: "from_cpp quick_lease (Some ?f) ?k1 = Some (Inr p, k2)" and "buffer p = 3"
    by (simp add: from_cpp_def checked_mul_def take_buffer_fd_def take_fence_fd_def
        drop_hardware_frame_def quick_lease_def wait_for_fence_def map_lease_def)
  with capture_lease_ownership [OF all_succeed_fresh run] run show ?thesis
    by (fastforce simp: three_open_def)
qed


end
