(* ===== verification/Topshim_Actors.thy ===== *)
theory Topshim_Actors
  imports Pcm_Frame Transition_System
begin

text \<open>
  The actors of \<open>src/topshim/actors.rs\<close> and their wiring in \<open>src/main.rs\<close>: the controller proxy, the
  microphone capture, the voice activity detector with barge-in, and the playback sink.

  Each actor is a loop around \<open>tokio::select!\<close>. Its body is a function on the message that the select
  hands it; \<open>biased\<close> is the choice of a biased select, the first branch that is ready. The branch
  on the shutdown watch is always enabled, so the \<open>else\<close> branches of the source are never taken. The
  arithmetic on samples is the record \<open>float_ops\<close> of the operations of \<open>f32\<close>; the time of the
  hardware is an argument.
\<close>

section \<open>Selecting\<close>

fun biased :: "'a option list \<Rightarrow> 'a option" where
  "biased [] = None"
| "biased (None # bs) = biased bs"
| "biased (Some x # bs) = Some x"

definition first_of :: "('a \<Rightarrow> 'b) \<Rightarrow> 'a list \<Rightarrow> 'b option" where
  "first_of f q = (case q of [] \<Rightarrow> None | x # _ \<Rightarrow> Some (f x))"

section \<open>The controller proxy\<close>

datatype actor_error =
    ProxyStopped
  | DroppedCaptureReply
  | DroppedPlaybackReply
  | CaptureFailed capture_error
  | FrameFailed frame_error

datatype 'p proxy_message =
    ProxyShutdown bool
  | PlaybackRequest nat 'p u64
  | CaptureRequest nat

record 'p proxy_inbox =
  proxy_shutdown :: "bool option"
  playback_requests :: "(nat \<times> 'p \<times> u64) list"
  capture_requests :: "nat list"

definition proxy_select :: "'p proxy_inbox \<Rightarrow> 'p proxy_message option" where
  "proxy_select b = biased
     [map_option ProxyShutdown (proxy_shutdown b),
      first_of (\<lambda>(i, p, s). PlaybackRequest i p s) (playback_requests b),
      first_of CaptureRequest (capture_requests b)]"

datatype proxy_reply =
    Played nat PlaybackReceipt
  | Captured nat "capture_error + HardwareFrame"

text \<open>One turn of the proxy: the reply, the controller and the kernel, or \<^const>\<open>None\<close> when it stops.\<close>

fun proxy_turn ::
  "capture_calls \<Rightarrow> u64 \<Rightarrow> HardwareController \<times> kernel \<Rightarrow> 'p proxy_message \<Rightarrow>
   ((HardwareController \<times> kernel) \<times> proxy_reply option) option"
where
  "proxy_turn c t (h, k) (ProxyShutdown stop) = (if stop then None else Some ((h, k), None))"
| "proxy_turn c t (h, k) (PlaybackRequest i p s) = Some ((h, k), Some (Played i (play_pcm t p s)))"
| "proxy_turn c t (h, k) (CaptureRequest i) =
     (let (r, h', k') = capture_next c h k in Some ((h', k'), Some (Captured i r)))"

text \<open>The result of \<open>ProxyHandle::capture\<close> and \<open>ProxyHandle::play\<close>.\<close>

datatype 'a handle_outcome = SendRefused | ReplyLost | Answered 'a

fun handle_capture :: "(capture_error + HardwareFrame) handle_outcome \<Rightarrow> actor_error + HardwareFrame" where
  "handle_capture SendRefused = Inl ProxyStopped"
| "handle_capture ReplyLost = Inl DroppedCaptureReply"
| "handle_capture (Answered r) = map_err CaptureFailed r"

fun handle_play :: "PlaybackReceipt handle_outcome \<Rightarrow> actor_error + PlaybackReceipt" where
  "handle_play SendRefused = Inl ProxyStopped"
| "handle_play ReplyLost = Inl DroppedPlaybackReply"
| "handle_play (Answered r) = Inr r"

section \<open>Microphone capture\<close>

text \<open>
  \<open>run_microphone_capture\<close> on the events its select hands it: the shutdown watch, or a tick with the
  answer of the proxy, the lease of the frame, and whether the send downstream was accepted. The result
  is what the task returns with the frames it passed on, or \<^const>\<open>None\<close> with them while it runs.
\<close>

datatype mic_event =
    MicShutdown bool
  | MicTick "(capture_error + HardwareFrame) handle_outcome" "HardwareFrame \<Rightarrow> frame_error + SharedPcmFrame" bool

fun run_microphone_capture ::
  "mic_event list \<Rightarrow> (actor_error + unit) option \<times> SharedPcmFrame list"
where
  "run_microphone_capture [] = (None, [])"
| "run_microphone_capture (MicShutdown stop # es) =
     (if stop then (Some (Inr ()), []) else run_microphone_capture es)"
| "run_microphone_capture (MicTick answer lease accepted # es) =
     (case handle_capture answer of
        Inl e \<Rightarrow> (Some (Inl e), [])
      | Inr raw \<Rightarrow> (case lease raw of
          Inl e \<Rightarrow> (Some (Inl (FrameFailed e)), [])
        | Inr frame \<Rightarrow>
            if \<not> accepted then (Some (Inr ()), [])
            else let (r, fs) = run_microphone_capture es in (r, frame # fs)))"

section \<open>Voice activity and barge-in\<close>

record 'f float_ops =
  f_zero :: 'f
  f_sum_start :: 'f
  f_add :: "'f \<Rightarrow> 'f \<Rightarrow> 'f"
  f_sub :: "'f \<Rightarrow> 'f \<Rightarrow> 'f"
  f_mul :: "'f \<Rightarrow> 'f \<Rightarrow> 'f"
  f_div :: "'f \<Rightarrow> 'f \<Rightarrow> 'f"
  f_sqrt :: "'f \<Rightarrow> 'f"
  f_gt :: "'f \<Rightarrow> 'f \<Rightarrow> bool"
  f_of_usize :: "nat \<Rightarrow> 'f"
  f_0_20 :: 'f
  f_0_10 :: 'f

record 'f mic_frame =
  mic_samples :: "'f list"
  mic_time_ns :: u64
  mic_sequence :: u64

record 'p EchoReference =
  echo_pcm :: 'p
  playback_sequence :: u64
  echo_time_ns :: u64

record 'f vad =
  latest_echo :: "'f list EchoReference option"
  speech_active :: bool

definition new_vad :: "'f vad" where
  "new_vad = \<lparr>latest_echo = None, speech_active = False\<rparr>"

definition abs_diff :: "u64 \<Rightarrow> u64 \<Rightarrow> u64" where
  "abs_diff a b = (if a < b then b - a else a - b)"

definition aligned_echo :: "'f vad \<Rightarrow> 'f mic_frame \<Rightarrow> 'f list EchoReference option" where
  "aligned_echo v f =
     (case latest_echo v of
        Some e \<Rightarrow> if abs_diff (mic_time_ns f) (echo_time_ns e) \<le> 50000000 then Some e else None
      | None \<Rightarrow> None)"

definition residual :: "'f float_ops \<Rightarrow> 'f list EchoReference option \<Rightarrow> nat \<Rightarrow> 'f \<Rightarrow> 'f" where
  "residual ops echo i mic =
     f_sub ops mic (f_mul ops (f_0_20 ops)
       (case echo of
          Some e \<Rightarrow> if i < length (echo_pcm e) then echo_pcm e ! i else f_zero ops
        | None \<Rightarrow> f_zero ops))"

definition energy :: "'f float_ops \<Rightarrow> 'f list EchoReference option \<Rightarrow> 'f list \<Rightarrow> 'f" where
  "energy ops echo samples =
     f_div ops
       (foldl (f_add ops) (f_sum_start ops)
          (map (\<lambda>(i, mic). let r = residual ops echo i mic in f_mul ops r r) (enumerate 0 samples)))
       (f_of_usize ops (length samples))"

definition speaking :: "'f float_ops \<Rightarrow> 'f vad \<Rightarrow> 'f mic_frame \<Rightarrow> bool" where
  "speaking ops v f =
     f_gt ops (f_sqrt ops (energy ops (aligned_echo v f) (mic_samples f))) (f_0_10 ops)"

datatype 'f vad_message =
    VadShutdown bool
  | Echo "'f list EchoReference"
  | Mic "'f mic_frame"

record 'f vad_inbox =
  vad_shutdown :: "bool option"
  echo_queue :: "'f list EchoReference list"
  mic_queue :: "'f mic_frame list"

definition vad_select :: "'f vad_inbox \<Rightarrow> 'f vad_message option" where
  "vad_select b = biased
     [map_option VadShutdown (vad_shutdown b), first_of Echo (echo_queue b), first_of Mic (mic_queue b)]"

text \<open>One turn of \<open>run_vad_ai\<close>: the new state with the barge-in it tries to send.\<close>

fun vad_turn :: "'f float_ops \<Rightarrow> 'f vad \<Rightarrow> 'f vad_message \<Rightarrow> ('f vad \<times> u64 option) option" where
  "vad_turn ops v (VadShutdown stop) = (if stop then None else Some (v, None))"
| "vad_turn ops v (Echo e) = Some (v\<lparr>latest_echo := Some e\<rparr>, None)"
| "vad_turn ops v (Mic f) =
     Some (v\<lparr>speech_active := speaking ops v f\<rparr>,
           if speaking ops v f \<and> \<not> speech_active v \<and> aligned_echo v f \<noteq> None
           then Some (mic_sequence f) else None)"

section \<open>The playback sink\<close>

record 'p sink =
  current :: "(u64 \<times> 'p list) option"
  next_sequence :: u64

definition new_sink :: "'p sink" where
  "new_sink = \<lparr>current = None, next_sequence = 0\<rparr>"

datatype 'p sink_message =
    SinkShutdown bool
  | Interrupt u64
  | StartUtterance u64 "'p list"
  | Tick

record 'p sink_inbox =
  sink_shutdown :: "bool option"
  barge_queue :: "u64 list"
  command_queue :: "(u64 \<times> 'p list) list"
  tick_due :: bool

definition sink_select :: "'p sink \<Rightarrow> 'p sink_inbox \<Rightarrow> 'p sink_message option" where
  "sink_select s b = biased
     [map_option SinkShutdown (sink_shutdown b), first_of Interrupt (barge_queue b),
      first_of (\<lambda>(i, fs). StartUtterance i fs) (command_queue b),
      if tick_due b \<and> current s \<noteq> None then Some Tick else None]"

datatype 'p sink_result =
    Continue "'p sink" "'p EchoReference option"
  | Stopped "actor_error + unit"

text \<open>
  One turn of \<open>run_playback_sink\<close>. The arguments are the answer of the proxy to a playback request, and
  whether the echo channel accepts the reference.
\<close>

fun sink_turn ::
  "('p \<Rightarrow> u64 \<Rightarrow> PlaybackReceipt handle_outcome) \<Rightarrow> bool \<Rightarrow> 'p sink \<Rightarrow> 'p sink_message \<Rightarrow> 'p sink_result"
where
  "sink_turn play accepted s (SinkShutdown stop) = (if stop then Stopped (Inr ()) else Continue s None)"
| "sink_turn play accepted s (Interrupt m) = Continue (s\<lparr>current := None\<rparr>) None"
| "sink_turn play accepted s (StartUtterance i fs) = Continue (s\<lparr>current := Some (i, fs)\<rparr>) None"
| "sink_turn play accepted s Tick =
     (case current s of
        Some (i, p # fs) \<Rightarrow>
          (case handle_play (play p (next_sequence s)) of
             Inl e \<Rightarrow> Stopped (Inl e)
           | Inr receipt \<Rightarrow>
               if \<not> accepted then Stopped (Inr ())
               else Continue (s\<lparr>current := Some (i, fs), next_sequence := next_sequence s + 1\<rparr>)
                      (Some \<lparr>echo_pcm = p, playback_sequence = receipt_sequence receipt,
                             echo_time_ns = presentation_time_ns receipt\<rparr>))
      | _ \<Rightarrow> Continue (s\<lparr>current := None\<rparr>) None)"

text \<open>The sink over a list of messages, with the echo references it sent.\<close>

fun sink_run ::
  "('p \<Rightarrow> u64 \<Rightarrow> PlaybackReceipt handle_outcome) \<Rightarrow> 'p sink \<Rightarrow> 'p sink_message list \<Rightarrow>
   'p sink_result \<times> 'p EchoReference list"
where
  "sink_run play s [] = (Continue s None, [])"
| "sink_run play s (x # xs) =
     (case sink_turn play True s x of
        Stopped r \<Rightarrow> (Stopped r, [])
      | Continue s' e \<Rightarrow>
          let (r, es) = sink_run play s' xs in (r, (case e of None \<Rightarrow> es | Some x \<Rightarrow> x # es)))"

section \<open>The demonstration utterance\<close>

definition FRAME_SAMPLES :: nat where
  "FRAME_SAMPLES = 160"

text \<open>The argument is the tone of the source at a sample index.\<close>

definition make_demo_utterance :: "(nat \<Rightarrow> 'f) \<Rightarrow> nat \<Rightarrow> 'f list list" where
  "make_demo_utterance tone milliseconds =
     map (\<lambda>frame. map (\<lambda>index. tone (frame * FRAME_SAMPLES + index)) [0..<FRAME_SAMPLES])
       [0..<milliseconds div 10]"

section \<open>Detector and sink together\<close>

text \<open>
  The full-duplex part of the wiring in \<open>main\<close>: the detector and the sink with the channels between
  them, of capacity 8 for microphone frames and for echo references, 1 for barge-ins and 2 for commands.
  Microphone frames, commands, clock ticks and the shutdown come from outside. A barge-in that finds its
  channel full is dropped. \<open>d_sending\<close> is the echo reference of a frame that has been played while the
  sink waits for room in the echo channel; \<open>d_played\<close> records every reference that was sent. The proxy
  answers a playback request with the receipt of the hardware, or it is gone and the sink stops.
\<close>

record 'f duplex =
  d_vad :: "'f vad"
  d_sink :: "'f list sink"
  d_mic :: "'f mic_frame list"
  d_echo :: "'f list EchoReference list"
  d_barge :: "u64 list"
  d_commands :: "(u64 \<times> 'f list list) list"
  d_tick :: bool
  d_shutdown :: bool
  vad_alive :: bool
  sink_alive :: bool
  d_sending :: "'f list EchoReference option"
  d_played :: "'f list EchoReference list"

definition duplex_start :: "'f duplex" where
  "duplex_start =
     \<lparr>d_vad = new_vad, d_sink = new_sink, d_mic = [], d_echo = [], d_barge = [], d_commands = [],
      d_tick = False, d_shutdown = False, vad_alive = True, sink_alive = True, d_sending = None, d_played = []\<rparr>"

definition vad_next :: "'f duplex \<Rightarrow> 'f vad_message option" where
  "vad_next s = vad_select
     \<lparr>vad_shutdown = (if d_shutdown s then Some True else None), echo_queue = d_echo s, mic_queue = d_mic s\<rparr>"

definition sink_next :: "'f duplex \<Rightarrow> 'f list sink_message option" where
  "sink_next s = sink_select (d_sink s)
     \<lparr>sink_shutdown = (if d_shutdown s then Some True else None), barge_queue = d_barge s,
      command_queue = d_commands s, tick_due = d_tick s\<rparr>"

fun vad_dequeue :: "'f vad_message \<Rightarrow> 'f duplex \<Rightarrow> 'f duplex" where
  "vad_dequeue (Echo _) s = s\<lparr>d_echo := tl (d_echo s)\<rparr>"
| "vad_dequeue (Mic _) s = s\<lparr>d_mic := tl (d_mic s)\<rparr>"
| "vad_dequeue (VadShutdown _) s = s"

fun sink_dequeue :: "'f list sink_message \<Rightarrow> 'f duplex \<Rightarrow> 'f duplex" where
  "sink_dequeue (Interrupt _) s = s\<lparr>d_barge := tl (d_barge s)\<rparr>"
| "sink_dequeue (StartUtterance _ _) s = s\<lparr>d_commands := tl (d_commands s)\<rparr>"
| "sink_dequeue Tick s = s\<lparr>d_tick := False\<rparr>"
| "sink_dequeue (SinkShutdown _) s = s"

text \<open>\<open>try_send\<close> of a barge-in on the channel of capacity one.\<close>

definition try_barge :: "u64 option \<Rightarrow> 'f duplex \<Rightarrow> 'f duplex" where
  "try_barge b s =
     (case b of Some m \<Rightarrow> if sink_alive s \<and> d_barge s = [] then s\<lparr>d_barge := [m]\<rparr> else s | None \<Rightarrow> s)"

inductive actor_step :: "'f float_ops \<Rightarrow> 'f duplex \<Rightarrow> 'f duplex \<Rightarrow> bool" for ops where
  vad_takes: "actor_step ops s (try_barge b (vad_dequeue m s)\<lparr>d_vad := v\<rparr>)"
    if "vad_alive s" "vad_next s = Some m" "vad_turn ops (d_vad s) m = Some (v, b)"
| vad_stops: "actor_step ops s (s\<lparr>vad_alive := False, d_echo := [], d_mic := []\<rparr>)"
    if "vad_alive s" "vad_next s = Some m" "vad_turn ops (d_vad s) m = None"
| sink_takes: "actor_step ops s ((sink_dequeue m s)\<lparr>d_sink := k\<rparr>)"
    if "sink_alive s" "d_sending s = None" "sink_next s = Some m"
      "sink_turn (\<lambda>p q. Answered (play_pcm t p q)) True (d_sink s) m = Continue k None"
| sink_plays: "actor_step ops s ((sink_dequeue m s)\<lparr>d_sink := k, d_sending := Some e\<rparr>)"
    if "sink_alive s" "d_sending s = None" "sink_next s = Some m"
      "sink_turn (\<lambda>p q. Answered (play_pcm t p q)) True (d_sink s) m = Continue k (Some e)"
| sink_sends: "actor_step ops s
      (s\<lparr>d_sending := None, d_echo := d_echo s @ [e], d_played := d_played s @ [e]\<rparr>)"
    if "sink_alive s" "d_sending s = Some e" "vad_alive s" "length (d_echo s) < 8"
| send_fails: "actor_step ops s (s\<lparr>d_sending := None, sink_alive := False, d_barge := [], d_commands := []\<rparr>)"
    if "sink_alive s" "d_sending s = Some e" "\<not> vad_alive s"
| sink_stops: "actor_step ops s (s\<lparr>sink_alive := False, d_barge := [], d_commands := []\<rparr>)"
    if "sink_alive s" "d_sending s = None" "sink_next s = Some m"
      "sink_turn play True (d_sink s) m = Stopped r"

inductive outside_step :: "'f duplex \<Rightarrow> 'f duplex \<Rightarrow> bool" where
  mic_arrives: "outside_step s (s\<lparr>d_mic := d_mic s @ [f]\<rparr>)"
    if "vad_alive s" "length (d_mic s) < 8"
| command_arrives: "outside_step s (s\<lparr>d_commands := d_commands s @ [(i, fs)]\<rparr>)"
    if "sink_alive s" "length (d_commands s) < 2"
| clock_ticks: "outside_step s (s\<lparr>d_tick := True\<rparr>)"
| shuts_down: "outside_step s (s\<lparr>d_shutdown := True\<rparr>)"

definition duplex_step :: "'f float_ops \<Rightarrow> 'f duplex \<Rightarrow> 'f duplex \<Rightarrow> bool" where
  "duplex_step ops s s' \<longleftrightarrow> actor_step ops s s' \<or> outside_step s s'"

section \<open>Choosing and playing\<close>

lemma first_of_simps [simp]: "first_of f [] = None" "first_of f (x # q) = Some (f x)"
  by (simp_all add: first_of_def)

lemma vad_next_cases:
  "vad_next s =
     (if d_shutdown s then Some (VadShutdown True)
      else case d_echo s of e # _ \<Rightarrow> Some (Echo e)
        | [] \<Rightarrow> (case d_mic s of f # _ \<Rightarrow> Some (Mic f) | [] \<Rightarrow> None))"
  by (simp add: vad_next_def vad_select_def split: list.split)

lemma sink_next_cases:
  "sink_next s =
     (if d_shutdown s then Some (SinkShutdown True)
      else case d_barge s of m # _ \<Rightarrow> Some (Interrupt m)
        | [] \<Rightarrow> (case d_commands s of (i, fs) # _ \<Rightarrow> Some (StartUtterance i fs)
            | [] \<Rightarrow> if d_tick s \<and> current (d_sink s) \<noteq> None then Some Tick else None))"
  by (auto simp: sink_next_def sink_select_def split: list.split)

text \<open>What a turn of the sink does to the counter: it moves exactly with the references sent.\<close>

lemma sink_turn_counts:
  assumes "sink_turn (\<lambda>p q. Answered (play_pcm t p q)) ok s m = Continue k e"
  shows "case e of None \<Rightarrow> next_sequence k = next_sequence s
    | Some x \<Rightarrow> m = Tick \<and> next_sequence k = next_sequence s + 1 \<and> playback_sequence x = next_sequence s"
  using assms by (cases m) (auto simp: play_pcm_def split: if_splits option.splits prod.splits list.splits)

section \<open>Invariant and progress\<close>

definition duplex_inv :: "'f duplex \<Rightarrow> bool" where
  "duplex_inv s \<longleftrightarrow>
     length (d_mic s) \<le> 8 \<and> length (d_echo s) \<le> 8 \<and> length (d_barge s) \<le> 1 \<and> length (d_commands s) \<le> 2 \<and>
     map playback_sequence (d_played s) = map of_nat [0..<length (d_played s)] \<and>
     (sink_alive s \<longrightarrow> next_sequence (d_sink s) =
        of_nat (length (d_played s) + (case d_sending s of None \<Rightarrow> 0 | Some _ \<Rightarrow> 1))) \<and>
     (\<forall>e. d_sending s = Some e \<longrightarrow> playback_sequence e = of_nat (length (d_played s))) \<and>
     (vad_alive s \<longrightarrow> (\<exists>l. d_played s = l @ d_echo s)) \<and>
     (\<not> vad_alive s \<longrightarrow> d_mic s = []) \<and> (\<not> sink_alive s \<longrightarrow> d_barge s = [] \<and> d_commands s = [])"

lemma duplex_start_inv: "duplex_inv duplex_start"
  by (simp add: duplex_inv_def duplex_start_def new_sink_def)

lemma duplex_step_inv:
  assumes inv: "duplex_inv s" and step: "duplex_step ops s s'"
  shows "duplex_inv s'"
proof -
  from step consider "actor_step ops s s'" | "outside_step s s'" by (auto simp: duplex_step_def)
  then show ?thesis
  proof cases
    case 1
    then show ?thesis
    proof cases
      case (vad_takes m v b)
      show ?thesis
        using inv vad_takes
        by (cases m) (auto simp: duplex_inv_def try_barge_def vad_next_cases
            split: if_splits list.splits option.splits)
    next
      case (vad_stops m)
      then show ?thesis using inv by (auto simp: duplex_inv_def)
    next
      case (sink_takes m t k)
      then show ?thesis
        using inv sink_turn_counts [OF sink_takes(5)] by (cases m) (auto simp: duplex_inv_def)
    next
      case (sink_plays m t k e)
      then show ?thesis
        using inv sink_turn_counts [OF sink_plays(5)] by (auto simp: duplex_inv_def)
    next
      case (sink_sends e)
      then show ?thesis using inv by (auto simp: duplex_inv_def)
    next
      case (send_fails e)
      then show ?thesis using inv by (auto simp: duplex_inv_def)
    next
      case (sink_stops m play r)
      then show ?thesis using inv by (auto simp: duplex_inv_def)
    qed
  next
    case 2
    then show ?thesis by cases (use inv in \<open>auto simp: duplex_inv_def\<close>)
  qed
qed

definition duplex_pending :: "'f duplex \<Rightarrow> bool" where
  "duplex_pending s \<longleftrightarrow>
     vad_alive s \<and> (d_echo s \<noteq> [] \<or> d_mic s \<noteq> []) \<or>
     sink_alive s \<and> (d_barge s \<noteq> [] \<or> d_commands s \<noteq> [] \<or> d_sending s \<noteq> None)"

definition duplex_work :: "'f duplex \<Rightarrow> nat" where
  "duplex_work s =
     2 * length (d_mic s) + length (d_echo s) + length (d_barge s) + length (d_commands s) +
     (if d_tick s then 3 else 0) + (if d_sending s = None then 0 else 2) +
     (if vad_alive s then 1 else 0) + (if sink_alive s then 1 else 0)"

lemma actor_step_works: "actor_step ops s s' \<Longrightarrow> duplex_work s' < duplex_work s"
proof (induction rule: actor_step.induct)
  case (vad_takes s m v b)
  then show ?case
    by (cases m) (auto simp: duplex_work_def try_barge_def vad_next_cases
        split: if_splits list.splits option.splits)
next
  case (sink_takes s m t k)
  then show ?case
    by (cases m) (auto simp: duplex_work_def sink_next_cases split: if_splits list.splits)
next
  case (sink_plays s m t k e)
  then show ?case
    using sink_turn_counts [OF sink_plays(4)]
    by (auto simp: duplex_work_def sink_next_cases split: if_splits list.splits)
qed (auto simp: duplex_work_def)

lemma actor_step_enabled:
  assumes "duplex_pending s"
  shows "\<exists>s'. actor_step ops s s'"
proof (cases "vad_alive s \<and> (d_echo s \<noteq> [] \<or> d_mic s \<noteq> [])")
  case True
  then have "vad_next s \<noteq> None" by (auto simp: vad_next_cases split: list.splits)
  then obtain m where m: "vad_next s = Some m" by blast
  show ?thesis
  proof (cases "vad_turn ops (d_vad s) m")
    case None
    from actor_step.vad_stops [OF _ m None] True show ?thesis by blast
  next
    case (Some x)
    then obtain v b where "vad_turn ops (d_vad s) m = Some (v, b)" by (cases x) simp
    from actor_step.vad_takes [OF _ m this] True show ?thesis by blast
  qed
next
  case False
  with assms have alive: "sink_alive s" by (auto simp: duplex_pending_def)
  show ?thesis
  proof (cases "d_sending s")
    case (Some e)
    show ?thesis
    proof (cases "vad_alive s")
      case True
      with False have "length (d_echo s) < 8" by simp
      from actor_step.sink_sends [OF alive Some True this] show ?thesis by blast
    next
      case False
      from actor_step.send_fails [OF alive Some False] show ?thesis by blast
    qed
  next
    case None
    with False assms have "d_barge s \<noteq> [] \<or> d_commands s \<noteq> []" by (auto simp: duplex_pending_def)
    then have "sink_next s \<noteq> None" by (auto simp: sink_next_cases split: list.splits prod.splits)
    then obtain m where m: "sink_next s = Some m" by blast
    show ?thesis
    proof (cases "sink_turn (\<lambda>p q. Answered (play_pcm 0 p q)) True (d_sink s) m")
      case (Continue k e)
      then show ?thesis
        using actor_step.sink_takes [OF alive None m] actor_step.sink_plays [OF alive None m]
        by (cases e) blast+
    next
      case (Stopped r)
      from actor_step.sink_stops [OF alive None m this] show ?thesis by blast
    qed
  qed
qed

interpretation duplex: draining_system duplex_start "duplex_step ops" duplex_inv "actor_step ops"
  duplex_pending duplex_work for ops :: "'f float_ops"
  by unfold_locales
    (auto simp: duplex_start_inv duplex_step_def actor_step_works actor_step_enabled
      intro: duplex_step_inv [unfolded duplex_step_def])

section \<open>Playing an utterance\<close>

definition sent_from :: "u64 \<Rightarrow> u64 \<Rightarrow> 'p list \<Rightarrow> 'p EchoReference list" where
  "sent_from t n ps =
     map (\<lambda>(j, p). \<lparr>echo_pcm = p, playback_sequence = n + of_nat j, echo_time_ns = t\<rparr>) (enumerate 0 ps)"

lemma sent_from_simps [simp]:
  "sent_from t n [] = []"
  "sent_from t n (p # ps) = \<lparr>echo_pcm = p, playback_sequence = n, echo_time_ns = t\<rparr> # sent_from t (n + 1) ps"
  by (simp_all add: sent_from_def enumerate_Suc_eq o_def case_prod_unfold add.assoc)

lemma sink_idle_ticks:
  "current s = None \<Longrightarrow> snd (sink_run play s (replicate n Tick)) = []"
  by (induction n arbitrary: s) (simp_all add: split_beta)

lemma sink_idle_interrupt:
  "current s = None \<Longrightarrow> snd (sink_run play s (replicate n Tick @ Interrupt m # replicate j Tick)) = []"
  by (induction n arbitrary: s) (simp_all add: split_beta sink_idle_ticks)

lemma sink_ticks:
  "current s = Some (i, fs) \<Longrightarrow>
   snd (sink_run (\<lambda>p q. Answered (play_pcm t p q)) s (replicate n Tick @ Interrupt m # replicate j Tick)) =
     sent_from t (next_sequence s) (take n fs)"
proof (induction n arbitrary: s fs)
  case 0
  then show ?case by (simp add: sink_idle_ticks split_beta)
next
  case (Suc n)
  show ?case
  proof (cases fs)
    case Nil
    with Suc.prems show ?thesis by (simp add: sink_idle_interrupt split_beta)
  next
    case (Cons p ps)
    then show ?thesis
      using Suc.prems Suc.IH [of "s\<lparr>current := Some (i, ps), next_sequence := next_sequence s + 1\<rparr>" ps]
      by (simp add: play_pcm_def split_beta)
  qed
qed

section \<open>Small facts\<close>

lemma unat_abs_diff:
  "unat (abs_diff a b) = (if unat a < unat b then unat b - unat a else unat a - unat b)"
  by (auto simp: abs_diff_def word_less_nat_alt word_le_nat_alt unat_sub)

lemma abs_diff_le:
  "abs_diff a b \<le> 50000000 \<longleftrightarrow> \<bar>int (unat a) - int (unat b)\<bar> \<le> 50000000"
proof -
  have "unat (50000000 :: u64) = 50000000" by simp
  then show ?thesis
    unfolding word_le_nat_alt unat_abs_diff by (split if_split) linarith
qed

section \<open>Properties\<close>

text \<open>C23: In every run of detector and sink, whatever the interleaving and the outside events, each channel
  stays within its capacity, the echo references number the played frames consecutively from zero, and
  the references not yet seen by the detector are the last ones sent, in order.\<close>

theorem duplex_invariant:
  assumes "rtranclp (duplex_step ops) duplex_start s"
  shows "length (d_mic s) \<le> 8 \<and> length (d_echo s) \<le> 8 \<and> length (d_barge s) \<le> 1 \<and>
    length (d_commands s) \<le> 2 \<and>
    map playback_sequence (d_played s) = map of_nat [0..<length (d_played s)] \<and>
    (vad_alive s \<longrightarrow> (\<exists>seen. d_played s = seen @ d_echo s))"
  using duplex.reachable_inv [OF assms] by (auto simp: duplex_inv_def)

text \<open>C24: The actors never block each other: from every reachable state the steps of detector and sink
  alone lead to a state in which every message queued for a running actor has been handled, and every
  such run is bounded by the amount of queued work.\<close>

theorem duplex_drains:
  assumes "rtranclp (duplex_step ops) duplex_start s"
  shows "(\<exists>s'. rtranclp (actor_step ops) s s' \<and> \<not> duplex_pending s') \<and>
    (\<forall>n s'. (actor_step ops ^^ n) s s' \<longrightarrow>
       n \<le> 2 * length (d_mic s) + length (d_echo s) + length (d_barge s) + length (d_commands s) + 7)"
proof (intro conjI allI impI)
  show "\<exists>s'. rtranclp (actor_step ops) s s' \<and> \<not> duplex_pending s'"
    by (rule duplex.reachable_drains [OF assms])
  fix n s'
  assume "(actor_step ops ^^ n) s s'"
  from duplex.reachable_bounded [OF assms this]
  show "n \<le> 2 * length (d_mic s) + length (d_echo s) + length (d_barge s) + length (d_commands s) + 7"
    by (auto simp: duplex_work_def split: if_splits)
qed

text \<open>C25: A barge-in wins over everything but a shutdown: while one is queued for a sink that is not in the
  middle of a frame, no step plays or sends a frame, whatever commands and ticks are waiting, and the
  only change of the sink is to drop the current utterance.\<close>

theorem barge_in_wins:
  assumes "d_barge s \<noteq> []" and "d_sending s = None" and "actor_step ops s s'"
  shows "d_sending s' = None \<and> d_played s' = d_played s \<and>
    (d_sink s' = d_sink s \<or> d_sink s' = (d_sink s)\<lparr>current := None\<rparr>)"
  using assms(3)
proof cases
  case (vad_takes m v b)
  then show ?thesis
    using assms by (cases m) (auto simp: try_barge_def split: option.splits if_splits)
next
  case (sink_takes m t k)
  then show ?thesis
    using assms by (auto simp: sink_next_cases split: if_splits list.splits)
next
  case (sink_plays m t k e)
  then show ?thesis
    using assms by (auto simp: sink_next_cases split: if_splits list.splits)
qed (use assms in auto)

text \<open>C27: The sink plays an utterance frame by frame and in order: starting an utterance and ticking
  \<open>n\<close> times sends exactly its first \<open>n\<close> frames to the echo channel, with consecutive numbers; an
  interrupt cuts it there, and later ticks play nothing of it.\<close>

theorem sink_plays_prefix:
  "snd (sink_run (\<lambda>p q. Answered (play_pcm t p q)) s
      (StartUtterance i fs # replicate n Tick @ Interrupt m # replicate j Tick)) =
     map (\<lambda>(x, p). \<lparr>echo_pcm = p, playback_sequence = next_sequence s + of_nat x, echo_time_ns = t\<rparr>)
       (enumerate 0 (take n fs))"
  by (simp add: sink_ticks sent_from_def split_beta)

text \<open>The detector interrupts playback exactly at the onset of speech over an echo: a microphone frame
  makes it send a barge-in when and only when the frame is speech, the frame before was not, and the
  newest echo reference was presented at most 50 ms before or after the capture of the frame.\<close>

lemma vad_barge_in_exact:
  "vad_turn ops v (Mic f) =
     Some (v\<lparr>speech_active := speaking ops v f\<rparr>,
       if speaking ops v f \<and> \<not> speech_active v \<and>
          (\<exists>e. latest_echo v = Some e \<and>
             \<bar>int (unat (mic_time_ns f)) - int (unat (echo_time_ns e))\<bar> \<le> 50000000)
       then Some (mic_sequence f) else None)"
  by (auto simp: aligned_echo_def abs_diff_le split: option.split)

text \<open>The demonstration utterance is one continuous tone: its frames have 160 samples each, there is
  one for every 10 ms, and put together they are the tone at consecutive sample indices.\<close>

lemma demo_utterance_contiguous:
  "concat (make_demo_utterance tone ms) = map tone [0..<160 * (ms div 10)] \<and>
   length (make_demo_utterance tone ms) = ms div 10 \<and>
   set (map length (make_demo_utterance tone ms)) \<subseteq> {160}"
  by (auto simp: make_demo_utterance_def FRAME_SAMPLES_def concat_frames)

section \<open>A sample run\<close>

text \<open>
  Samples of type \<^typ>\<open>int\<close>, and a run in which an utterance of two frames is started and its first
  frame is played at time 30.
\<close>

definition int_ops :: "int float_ops" where
  "int_ops = \<lparr>f_zero = 0, f_sum_start = 0, f_add = (+), f_sub = (-), f_mul = (*), f_div = (div), f_sqrt = id,
     f_gt = (>), f_of_usize = int, f_0_20 = 0, f_0_10 = 0\<rparr>"

definition sample_echo :: "int list EchoReference" where
  "sample_echo = \<lparr>echo_pcm = [1], playback_sequence = 0, echo_time_ns = 30\<rparr>"

definition sample_duplex :: "int duplex" where
  "sample_duplex = duplex_start\<lparr>d_sink := \<lparr>current = Some (7, [[2]]), next_sequence = 1\<rparr>,
     d_echo := [sample_echo], d_played := [sample_echo]\<rparr>"

lemma sample_reachable: "rtranclp (duplex_step int_ops) duplex_start sample_duplex"
proof -
  let ?step = "duplex_step int_ops"
  define s1 :: "int duplex" where "s1 = duplex_start\<lparr>d_commands := [(7, [[1], [2]])]\<rparr>"
  define s2 where "s2 = s1\<lparr>d_commands := [], d_sink := \<lparr>current = Some (7, [[1], [2]]), next_sequence = 0\<rparr>\<rparr>"
  define s3 where "s3 = s2\<lparr>d_tick := True\<rparr>"
  define s4 where "s4 = s3\<lparr>d_tick := False, d_sink := \<lparr>current = Some (7, [[2]]), next_sequence = 1\<rparr>,
      d_sending := Some sample_echo\<rparr>"
  note defs = duplex_start_def new_sink_def s1_def s2_def s3_def s4_def
  have a: "?step duplex_start s1"
    using outside_step.command_arrives [of duplex_start 7 "[[1], [2 :: int]]"]
    by (simp add: duplex_step_def defs)
  have b: "?step s1 s2"
    using actor_step.sink_takes [of s1 "StartUtterance 7 [[1], [2]]" 0]
    by (simp add: duplex_step_def sink_next_cases defs)
  have c: "?step s2 s3"
    using outside_step.clock_ticks [of s2] by (simp add: duplex_step_def s3_def)
  have d: "?step s3 s4"
    using actor_step.sink_plays [of s3 Tick 30]
    by (simp add: duplex_step_def sink_next_cases play_pcm_def sample_echo_def defs)
  have e: "?step s4 sample_duplex"
    using actor_step.sink_sends [of s4 sample_echo]
    by (simp add: duplex_step_def sample_duplex_def defs)
  show ?thesis
    by (rule r_into_rtranclp [of ?step, OF a, THEN rtranclp_trans] r_into_rtranclp [of ?step, OF b, THEN rtranclp_trans]
        r_into_rtranclp [of ?step, OF c, THEN rtranclp_trans] r_into_rtranclp [of ?step, OF d, THEN rtranclp_trans]
        r_into_rtranclp [of ?step, OF e])+
qed

theorem duplex_invariant_witness:
  "rtranclp (duplex_step int_ops) duplex_start sample_duplex \<and>
   map playback_sequence (d_played sample_duplex) = map of_nat [0..<length (d_played sample_duplex)] \<and>
   length (d_echo sample_duplex) = 1"
  using duplex_invariant [OF sample_reachable] sample_reachable
  by (simp add: sample_duplex_def)

theorem duplex_drains_witness:
  "duplex_pending sample_duplex \<and>
   (\<exists>s'. rtranclp (actor_step int_ops) sample_duplex s' \<and> \<not> duplex_pending s')"
  using duplex_drains [OF sample_reachable]
  by (simp add: sample_duplex_def duplex_pending_def duplex_start_def)

theorem barge_in_wins_witness:
  "\<exists>s'. actor_step int_ops (sample_duplex\<lparr>d_barge := [4], d_tick := True\<rparr>) s' \<and>
     d_played s' = [sample_echo] \<and> current (d_sink s') = None"
proof -
  let ?s = "sample_duplex\<lparr>d_barge := [4], d_tick := True\<rparr>"
  let ?t = "?s\<lparr>d_barge := [], d_sink := \<lparr>current = None, next_sequence = 1\<rparr>\<rparr>"
  have step: "actor_step int_ops ?s ?t"
    using actor_step.sink_takes [of ?s "Interrupt 4" 0]
    by (simp add: sink_next_cases sample_duplex_def duplex_start_def)
  have "d_played ?t = d_played ?s"
    using barge_in_wins [OF _ _ step] by (simp add: sample_duplex_def duplex_start_def)
  with step show ?thesis by (intro exI [of _ ?t]) (simp add: sample_duplex_def)
qed

end
