(* ===== verification/Command_Line.thy ===== *)
theory Command_Line
  imports Dorsche_Prelude
begin

text \<open>
  What the option parsers of the binaries share: the numbers of \<open>str::parse\<close>, the value after an
  option, and the errors of the parsing loop. \<open>Help\<close> stands for the exit with the usage text. Floating
  point options are read by the functions of the record \<open>float_text\<close>.
\<close>

section \<open>Numbers\<close>

definition digit_of :: "char \<Rightarrow> nat option" where
  "digit_of c = (let n = of_char c in if 48 \<le> n \<and> n \<le> (57 :: nat) then Some (n - 48) else None)"

fun digits :: "nat \<Rightarrow> string \<Rightarrow> nat option" where
  "digits acc [] = Some acc"
| "digits acc (c # cs) = (case digit_of c of None \<Rightarrow> None | Some d \<Rightarrow> digits (10 * acc + d) cs)"

definition magnitude :: "string \<Rightarrow> nat option" where
  "magnitude s = (if s = [] then None else digits 0 s)"

text \<open>An unsigned number below \<open>bound\<close>, and a signed one of at most \<open>bound\<close> below zero.\<close>

definition parse_unsigned :: "nat \<Rightarrow> string \<Rightarrow> nat option" where
  "parse_unsigned bound s =
     (case magnitude (case s of c # cs \<Rightarrow> if c = CHR ''+'' then cs else s | [] \<Rightarrow> []) of
        Some n \<Rightarrow> if n < bound then Some n else None
      | None \<Rightarrow> None)"

definition parse_signed :: "nat \<Rightarrow> string \<Rightarrow> int option" where
  "parse_signed bound s =
     (case s of
        [] \<Rightarrow> None
      | c # cs \<Rightarrow>
          if c = CHR ''-''
          then (case magnitude cs of
                  Some n \<Rightarrow> if n \<le> bound then Some (- int n) else None
                | None \<Rightarrow> None)
          else map_option int (parse_unsigned bound s))"

definition parse_u64 :: "string \<Rightarrow> u64 option" where
  "parse_u64 s = map_option of_nat (parse_unsigned (2 ^ 64) s)"

definition parse_u32 :: "string \<Rightarrow> u32 option" where
  "parse_u32 s = map_option of_nat (parse_unsigned (2 ^ 32) s)"

definition parse_u8 :: "string \<Rightarrow> u8 option" where
  "parse_u8 s = map_option of_nat (parse_unsigned (2 ^ 8) s)"

definition parse_i32 :: "string \<Rightarrow> i32 option" where
  "parse_i32 s = map_option of_int (parse_signed (2 ^ 31) s)"

record 'f float_text =
  parse_float :: "string \<Rightarrow> 'f option"
  is_finite :: "'f \<Rightarrow> bool"
  le_zero :: "'f \<Rightarrow> bool"
  gt_one :: "'f \<Rightarrow> bool"
  tone_440 :: 'f
  gain_0_35 :: 'f

text \<open>An instance in which every number is positive and within bounds.\<close>

definition plain_floats :: "nat float_text" where
  "plain_floats =
     \<lparr>parse_float = (\<lambda>_. None), is_finite = (\<lambda>_. True), le_zero = (\<lambda>_. False), gt_one = (\<lambda>_. False),
      tone_440 = 440, gain_0_35 = 1\<rparr>"

section \<open>Options\<close>

datatype cli_error =
    RequiresValue string
  | BadValue string
  | UnknownArgument string
  | Help
  | Refused string

section \<open>Printing and parsing\<close>

lemma digit_of_char: "n < 10 \<Longrightarrow> digit_of (char_of (48 + n)) = Some n"
  by (simp add: digit_of_def of_char_of)

lemma digits_append:
  "digits acc (s @ t) = (case digits acc s of None \<Rightarrow> None | Some n \<Rightarrow> digits n t)"
  by (induction s arbitrary: acc) (simp_all split: option.split)

lemma digits_decimal: "digits 0 (decimal n) = Some n"
proof (induction n rule: decimal.induct)
  case (1 n)
  show ?case
  proof (cases "n < 10")
    case True
    then show ?thesis by (simp add: decimal.simps digit_of_char)
  next
    case False
    with 1 have "digits 0 (decimal (n div 10)) = Some (n div 10)" by simp
    with False show ?thesis
      by (subst decimal.simps) (simp add: digits_append digit_of_char)
  qed
qed

lemma decimal_head: "\<exists>c cs. decimal n = c # cs \<and> c \<noteq> CHR ''+'' \<and> c \<noteq> CHR ''-''"
proof (induction n rule: decimal.induct)
  case (1 n)
  show ?case
  proof (cases "n < 10")
    case True
    have "char_of (48 + n) \<noteq> CHR ''+''" "char_of (48 + n) \<noteq> CHR ''-''"
      using True by (auto dest!: arg_cong [where f = "of_char :: char \<Rightarrow> nat"] simp: of_char_of)
    with True show ?thesis by (subst decimal.simps) simp
  next
    case False
    with 1 obtain c cs where "decimal (n div 10) = c # cs" "c \<noteq> CHR ''+''" "c \<noteq> CHR ''-''" by blast
    with False show ?thesis by (subst decimal.simps) simp
  qed
qed

lemma parse_unsigned_decimal: "parse_unsigned b (decimal n) = (if n < b then Some n else None)"
proof -
  obtain c cs where h: "decimal n = c # cs" "c \<noteq> CHR ''+''" using decimal_head [of n] by blast
  then have "magnitude (c # cs) = Some n" using digits_decimal [of n] by (simp add: magnitude_def)
  with h show ?thesis by (simp add: parse_unsigned_def)
qed

lemma parse_signed_decimal: "parse_signed b (decimal n) = (if n < b then Some (int n) else None)"
proof -
  obtain c cs where "decimal n = c # cs" "c \<noteq> CHR ''-''" using decimal_head [of n] by blast
  then show ?thesis
    using parse_unsigned_decimal [of b n] by (simp add: parse_signed_def)
qed

lemma parse_unat [simp]:
  "parse_u64 (decimal (unat x)) = Some x" "parse_u32 (decimal (unat y)) = Some y"
  "parse_u8 (decimal (unat z)) = Some z"
  by (simp_all add: parse_u64_def parse_u32_def parse_u8_def parse_unsigned_decimal)

lemma parse_i32_nonneg: "n < 2 ^ 31 \<Longrightarrow> parse_i32 (decimal n) = Some (of_nat n)"
  by (simp add: parse_i32_def parse_signed_decimal)

end
