(* ===== verification/Deadlines.thy ===== *)
theory Deadlines
  imports Effects
begin

text \<open>
  The two waiting loops that the Floss clients share. \<open>retry_until\<close> repeats a fallible action until it
  succeeds or fails at or after the deadline (\<open>connect_sco_uipc\<close> and \<open>connect_uipc\<close>); \<open>poll_until\<close>
  repeats a query until it answers true or the deadline has passed (\<open>wait_for_audio_state\<close>). Both pause
  between two attempts. The clock and the pause are arguments; a pause that moves the clock forward makes
  the loops return.
\<close>

section \<open>The two loops\<close>

partial_function (option) retry_until ::
  "('s \<Rightarrow> nat) \<Rightarrow> ('s \<Rightarrow> 's) \<Rightarrow> nat \<Rightarrow> ('s, 'e, 'a) act \<Rightarrow> ('s, 'e, 'a) act"
where
  "retry_until clock pause deadline m s =
     seq (attempt m) (\<lambda>r.
     case r of
       Inr x \<Rightarrow> pure x
     | Inl e \<Rightarrow> seq (inspect clock) (\<lambda>t.
         if t < deadline then seq (modify pause) (\<lambda>_. retry_until clock pause deadline m)
         else throw e)) s"

partial_function (option) poll_until ::
  "('s \<Rightarrow> nat) \<Rightarrow> ('s \<Rightarrow> 's) \<Rightarrow> nat \<Rightarrow> 'e \<Rightarrow> ('s, 'e, bool) act \<Rightarrow> ('s, 'e, unit) act"
where
  "poll_until clock pause deadline late m s =
     seq m (\<lambda>ok.
     if ok then pure ()
     else seq (inspect clock) (\<lambda>t.
       if t \<ge> deadline then throw late
       else seq (modify pause) (\<lambda>_. poll_until clock pause deadline late m))) s"

section \<open>Partial correctness\<close>

lemma triple_retry_until:
  fixes m :: "('s, 'e, 'a) act"
  assumes m: "triple I m Q (\<lambda>e s. I s \<and> E e s)" and pause: "\<And>s. I s \<Longrightarrow> I (pause s)"
  shows "triple I (retry_until clock pause deadline m) Q E"
proof -
  let ?post = "\<lambda>s (r, s'). I s \<longrightarrow> (case r of Inl e \<Rightarrow> E e s' | Inr x \<Rightarrow> Q x s')"
  have "?post s y" if "retry_until clock pause deadline m s = Some y" for s y
    using that
  proof (rule retry_until.raw_induct [where P = "\<lambda>c p d n s y. p = pause \<and> n = m \<longrightarrow> ?post s y",
        rotated, THEN mp])
    fix rec :: "('s \<Rightarrow> nat) \<Rightarrow> ('s \<Rightarrow> 's) \<Rightarrow> nat \<Rightarrow> ('s, 'e, 'a) act \<Rightarrow> ('s, 'e, 'a) act"
      and c p d n s y
    assume IH: "\<And>c p d n s y. rec c p d n s = Some y \<Longrightarrow> p = pause \<and> n = m \<longrightarrow> ?post s y"
      and run: "seq (attempt n) (\<lambda>r. case r of Inr x \<Rightarrow> pure x
        | Inl e \<Rightarrow> seq (inspect c) (\<lambda>t. if t < d then seq (modify p) (\<lambda>_. rec c p d n) else throw e)) s
        = Some y"
    show "p = pause \<and> n = m \<longrightarrow> ?post s y"
    proof
      assume pn: "p = pause \<and> n = m"
      have "triple I (rec c p d n) Q E"
        unfolding triple_def using IH [of c p d n] pn by fastforce
      then have again: "triple (\<lambda>s. I s \<and> E e s) (seq (inspect c) (\<lambda>t.
          if t < d then seq (modify p) (\<lambda>_. rec c p d n) else throw e)) Q E" for e
        using pn pause
        by (intro triple_seq [OF triple_inspect [where Q = "\<lambda>_ s. I s \<and> E e s"]] triple_if triple_throw
            triple_seq [OF triple_modify [where Q = "\<lambda>_. I"]]) auto
      have "triple I (seq (attempt n) (\<lambda>r. case r of Inr x \<Rightarrow> pure x
        | Inl e \<Rightarrow> seq (inspect c) (\<lambda>t. if t < d then seq (modify p) (\<lambda>_. rec c p d n) else throw e))) Q E"
        by (rule triple_seq [OF triple_attempt [where Q = "\<lambda>r s. case r of Inl e \<Rightarrow> I s \<and> E e s | Inr x \<Rightarrow> Q x s"]])
          (use m pn again in \<open>auto intro!: triple_case_sum triple_pure\<close>)
      then show "?post s y"
        using run by (cases y) (auto dest: tripleD)
    qed
  qed simp
  then show ?thesis by (fastforce simp: triple_def)
qed

lemma triple_poll_until:
  fixes m :: "('s, 'e, bool) act"
  assumes m: "triple I m (\<lambda>ok s. if ok then Q () s else I s) E" and pause: "\<And>s. I s \<Longrightarrow> I (pause s)"
    and late: "\<And>s. I s \<Longrightarrow> E late s"
  shows "triple I (poll_until clock pause deadline late m) Q E"
proof -
  let ?post = "\<lambda>s (r, s'). I s \<longrightarrow> (case r of Inl e \<Rightarrow> E e s' | Inr x \<Rightarrow> Q x s')"
  have "?post s y" if "poll_until clock pause deadline late m s = Some y" for s y
    using that
  proof (rule poll_until.raw_induct [where P = "\<lambda>c p d l n s y. p = pause \<and> l = late \<and> n = m \<longrightarrow> ?post s y",
        rotated, THEN mp])
    fix rec :: "('s \<Rightarrow> nat) \<Rightarrow> ('s \<Rightarrow> 's) \<Rightarrow> nat \<Rightarrow> 'e \<Rightarrow> ('s, 'e, bool) act \<Rightarrow> ('s, 'e, unit) act"
      and c p d l n s y
    assume IH: "\<And>c p d l n s y. rec c p d l n s = Some y \<Longrightarrow> p = pause \<and> l = late \<and> n = m \<longrightarrow> ?post s y"
      and run: "seq n (\<lambda>ok. if ok then pure () else seq (inspect c) (\<lambda>t.
        if t \<ge> d then throw l else seq (modify p) (\<lambda>_. rec c p d l n))) s = Some y"
    show "p = pause \<and> l = late \<and> n = m \<longrightarrow> ?post s y"
    proof
      assume pn: "p = pause \<and> l = late \<and> n = m"
      have "triple I (rec c p d l n) Q E"
        unfolding triple_def using IH [of c p d l n] pn by fastforce
      then have "triple I (seq (inspect c) (\<lambda>t.
          if t \<ge> d then throw l else seq (modify p) (\<lambda>_. rec c p d l n))) Q E"
        using pn pause late
        by (intro triple_seq [OF triple_inspect [where Q = "\<lambda>_. I"]] triple_if triple_throw
            triple_seq [OF triple_modify [where Q = "\<lambda>_. I"]]) auto
      then have "triple I (seq n (\<lambda>ok. if ok then pure () else seq (inspect c) (\<lambda>t.
          if t \<ge> d then throw l else seq (modify p) (\<lambda>_. rec c p d l n)))) Q E"
        using m pn by (intro triple_seq [where R = "\<lambda>ok s. if ok then Q () s else I s"])
          (auto intro!: triple_if triple_pure)
      then show "?post s y"
        using run by (cases y) (auto dest: tripleD)
    qed
  qed simp
  then show ?thesis by (fastforce simp: triple_def)
qed

section \<open>Termination\<close>

text \<open>A clock that the action does not turn back and that every pause moves forward.\<close>

definition advances :: "('s \<Rightarrow> nat) \<Rightarrow> ('s \<Rightarrow> 's) \<Rightarrow> ('s, 'e, 'a) act \<Rightarrow> bool" where
  "advances clock pause m \<longleftrightarrow>
     (\<forall>s r s'. m s = Some (r, s') \<longrightarrow> clock s \<le> clock s') \<and> (\<forall>s. clock s < clock (pause s))"

lemma retry_until_returns:
  assumes "advances clock pause m" and "returns (\<lambda>_. True) m"
  shows "returns (\<lambda>_. True) (retry_until clock pause deadline m)"
proof -
  have "retry_until clock pause deadline m s \<noteq> None" for s
  proof (induction "deadline - clock s" arbitrary: s rule: less_induct)
    case less
    obtain r t where m: "m s = Some (r, t)" using assms(2) by (fastforce simp: returns_def)
    with assms(1) have "clock s \<le> clock t" and "clock t < clock (pause t)" by (auto simp: advances_def)
    then have "retry_until clock pause deadline m (pause t) \<noteq> None" if "clock t < deadline"
      by (intro less) (use that in simp)
    then show ?case
      by (subst retry_until.simps) (auto simp: act_defs m split: sum.split)
  qed
  then show ?thesis by (simp add: returns_def)
qed

lemma poll_until_returns:
  assumes "advances clock pause m" and "returns (\<lambda>_. True) m"
  shows "returns (\<lambda>_. True) (poll_until clock pause deadline late m)"
proof -
  have "poll_until clock pause deadline late m s \<noteq> None" for s
  proof (induction "deadline - clock s" arbitrary: s rule: less_induct)
    case less
    obtain r t where m: "m s = Some (r, t)" using assms(2) by (fastforce simp: returns_def)
    with assms(1) have "clock s \<le> clock t" and "clock t < clock (pause t)" by (auto simp: advances_def)
    then have "poll_until clock pause deadline late m (pause t) \<noteq> None" if "\<not> deadline \<le> clock t"
      by (intro less) (use that in simp)
    then show ?case
      by (subst poll_until.simps) (auto simp: act_defs m split: sum.split)
  qed
  then show ?thesis by (simp add: returns_def)
qed

end
