(* ===== verification/Hfp_Smoke.thy ===== *)
theory Hfp_Smoke
  imports Command_Line Deadlines
begin

text \<open>
  The hands-free voice test of \<open>src/bin/floss_hfp_smoke.rs\<close>: its options, the capture statistics, the
  tone and loopback exercises with the delay line, and the main program with its clean-up.

  The Floss daemon, the data socket, the file system and the clock are the record \<open>sco_service\<close>, with the
  state \<open>'w\<close> of the outside world; \<open>sco_log\<close> records the D-Bus requests and \<open>sco_sent\<close> the bytes written
  to the socket. The two halves of an exercise run concurrently and share only the channel of captured
  frames, whose contents do not depend on their interleaving; the model runs the capture first and hands
  its frames to the playback. The \<open>f32\<close> and \<open>f64\<close> arithmetic on samples are arguments: \<open>tone\<close> is the sample at
  an index, \<open>gain\<close> the attenuated sample, \<open>add_square\<close> the accumulation of the sum of squares.
\<close>

section \<open>Codecs and options\<close>

datatype Codec = Cvsd | Msbc

definition codec_parse :: "string \<Rightarrow> Codec option" where
  "codec_parse s = (if s = ''cvsd'' then Some Cvsd else if s = ''msbc'' then Some Msbc else None)"

fun sample_rate :: "Codec \<Rightarrow> nat" where
  "sample_rate Cvsd = 8000"
| "sample_rate Msbc = 16000"

fun expected_bit :: "Codec \<Rightarrow> u8" where
  "expected_bit Cvsd = 1"
| "expected_bit Msbc = 2"

fun disabled_codecs :: "Codec \<Rightarrow> i32" where
  "disabled_codecs Cvsd = 6"
| "disabled_codecs Msbc = 5"

record 'f hfp_args =
  address :: string
  seconds :: u64
  frequency_hz :: 'f
  loopback :: bool
  loopback_gain :: 'f
  loopback_delay_seconds :: u64
  capture_path :: "string option"
  codec :: Codec

definition hfp_defaults :: "'f float_text \<Rightarrow> 'f hfp_args" where
  "hfp_defaults fl =
     \<lparr>address = '''', seconds = 5, frequency_hz = tone_440 fl, loopback = False,
      loopback_gain = gain_0_35 fl, loopback_delay_seconds = 0, capture_path = None, codec = Cvsd\<rparr>"

text \<open>The options that take a value, applied to it; \<^const>\<open>None\<close> for any other argument.\<close>

definition hfp_option :: "'f float_text \<Rightarrow> string \<Rightarrow> (string \<Rightarrow> 'f hfp_args \<Rightarrow> 'f hfp_args option) option" where
  "hfp_option fl arg =
     (if arg = ''--address'' then Some (\<lambda>v p. Some (p\<lparr>address := v\<rparr>))
      else if arg = ''--seconds'' then Some (\<lambda>v p. map_option (\<lambda>n. p\<lparr>seconds := n\<rparr>) (parse_u64 v))
      else if arg = ''--frequency'' then
        Some (\<lambda>v p. map_option (\<lambda>x. p\<lparr>frequency_hz := x\<rparr>) (parse_float fl v))
      else if arg = ''--loopback-gain'' then
        Some (\<lambda>v p. map_option (\<lambda>x. p\<lparr>loopback_gain := x\<rparr>) (parse_float fl v))
      else if arg = ''--loopback-delay-seconds'' then
        Some (\<lambda>v p. map_option (\<lambda>n. p\<lparr>loopback_delay_seconds := n\<rparr>) (parse_u64 v))
      else if arg = ''--capture'' then Some (\<lambda>v p. Some (p\<lparr>capture_path := Some v\<rparr>))
      else if arg = ''--codec'' then Some (\<lambda>v p. map_option (\<lambda>c. p\<lparr>codec := c\<rparr>) (codec_parse v))
      else None)"

fun hfp_options :: "'f float_text \<Rightarrow> 'f hfp_args \<Rightarrow> string list \<Rightarrow> cli_error + 'f hfp_args" where
  "hfp_options fl p [] = Inr p"
| "hfp_options fl p (arg # rest) =
     (if arg = ''--loopback'' then hfp_options fl (p\<lparr>loopback := True\<rparr>) rest
      else if arg = ''-h'' \<or> arg = ''--help'' then Inl Help
      else case hfp_option fl arg of
        None \<Rightarrow> Inl (UnknownArgument arg)
      | Some apply_value \<Rightarrow>
          (case rest of
             [] \<Rightarrow> Inl (RequiresValue arg)
           | v # rest' \<Rightarrow>
               (case apply_value v p of
                  None \<Rightarrow> Inl (BadValue arg)
                | Some p' \<Rightarrow> hfp_options fl p' rest')))"

definition hfp_parse :: "'f float_text \<Rightarrow> string list \<Rightarrow> cli_error + 'f hfp_args" where
  "hfp_parse fl args =
     and_then (hfp_options fl (hfp_defaults fl) args) (\<lambda>p.
     ensure (address p \<noteq> []) (Refused ''--address is required'') (
     ensure (\<not> (seconds p = 0 \<or> \<not> is_finite fl (frequency_hz p) \<or> le_zero fl (frequency_hz p)))
       (Refused ''duration and frequency must be positive'') (
     ensure (\<not> (\<not> is_finite fl (loopback_gain p) \<or> le_zero fl (loopback_gain p) \<or>
                 gt_one fl (loopback_gain p)))
       (Refused ''--loopback-gain must be in (0.0, 1.0]'') (
     ensure (\<not> loopback_delay_seconds p > 60)
       (Refused ''--loopback-delay-seconds must not exceed 60'') (
     ensure (\<not> (loopback_delay_seconds p \<noteq> 0 \<and> \<not> loopback p))
       (Refused ''--loopback-delay-seconds requires --loopback'') (Inr p))))))"

section \<open>Samples and statistics\<close>

text \<open>\<open>chunks_exact(2)\<close> read as little-endian samples; a last odd byte is left over.\<close>

fun samples_of :: "u8 list \<Rightarrow> i16 list" where
  "samples_of (a # b # bs) = from_le_bytes [a, b] # samples_of bs"
| "samples_of _ = []"

definition saturating_abs :: "i16 \<Rightarrow> i16" where
  "saturating_abs v = (if v = 0x8000 then 0x7FFF else if sint v < 0 then - v else v)"

definition max_i16 :: "i16 \<Rightarrow> i16 \<Rightarrow> i16" where
  "max_i16 a b = (if sint a \<le> sint b then b else a)"

record 'd CaptureStats =
  stat_bytes :: u64
  stat_samples :: u64
  sum_squares :: 'd
  peak :: i16

definition no_stats :: "'d \<Rightarrow> 'd CaptureStats" where
  "no_stats zero = \<lparr>stat_bytes = 0, stat_samples = 0, sum_squares = zero, peak = 0\<rparr>"

definition account_sample :: "('d \<Rightarrow> i16 \<Rightarrow> 'd) \<Rightarrow> 'd CaptureStats \<Rightarrow> i16 \<Rightarrow> 'd CaptureStats" where
  "account_sample add_square st v =
     st\<lparr>stat_samples := stat_samples st + 1, sum_squares := add_square (sum_squares st) v,
        peak := max_i16 (peak st) (saturating_abs v)\<rparr>"

definition account :: "('d \<Rightarrow> i16 \<Rightarrow> 'd) \<Rightarrow> 'd CaptureStats \<Rightarrow> u8 list \<Rightarrow> 'd CaptureStats" where
  "account add_square st pcm =
     foldl (account_sample add_square) (st\<lparr>stat_bytes := stat_bytes st + of_nat (length pcm)\<rparr>)
       (samples_of pcm)"

section \<open>The outside world\<close>

text \<open>
  \<open>read_or_timer\<close> is the select between a read of the socket and a sleep until the given time:
  \<^const>\<open>None\<close> when the timer wins. \<open>send_or_timer\<close> is the select between the send of a frame to the
  playback and the capture deadline: \<^const>\<open>None\<close> when the timer wins, otherwise whether the send was
  accepted. \<open>listener_status\<close> is \<^const>\<open>None\<close> when the wait times out. \<open>test_expires\<close> tells whether the
  time limit on the whole exercise cuts this run.
\<close>

record 'w sco_service =
  connect_bus :: "'w \<Rightarrow> (nat + unit) \<times> 'w"
  set_hfp_active_device :: "string \<Rightarrow> 'w \<Rightarrow> (nat + unit) \<times> 'w"
  start_sco_call :: "string \<Rightarrow> bool \<Rightarrow> i32 \<Rightarrow> 'w \<Rightarrow> (nat + bool) \<times> 'w"
  get_hfp_audio_final_codecs :: "string \<Rightarrow> 'w \<Rightarrow> (nat + u8) \<times> 'w"
  stop_sco_call :: "string \<Rightarrow> 'w \<Rightarrow> (nat + unit) \<times> 'w"
  new_listener :: "'w \<Rightarrow> (nat + unit) \<times> 'w"
  listener_status :: "'w \<Rightarrow> (nat + u8) option \<times> 'w"
  connect_sco :: "string \<Rightarrow> 'w \<Rightarrow> (nat + unit) \<times> 'w"
  sco_clock :: "'w \<Rightarrow> nat"
  sco_sleep :: "nat \<Rightarrow> 'w \<Rightarrow> 'w"
  sco_write :: "u8 list \<Rightarrow> 'w \<Rightarrow> (nat + unit) \<times> 'w"
  sco_shutdown :: "'w \<Rightarrow> (nat + unit) \<times> 'w"
  read_or_timer :: "nat \<Rightarrow> 'w \<Rightarrow> (nat + u8 list) option \<times> 'w"
  send_or_timer :: "nat \<Rightarrow> u8 list \<Rightarrow> 'w \<Rightarrow> bool option \<times> 'w"
  test_expires :: "nat \<Rightarrow> 'w \<Rightarrow> bool \<times> 'w"
  write_file :: "string \<Rightarrow> u8 list \<Rightarrow> 'w \<Rightarrow> (nat + unit) \<times> 'w"

datatype sco_call = SetHfpActiveDevice | StartScoCall | GetHfpAudioFinalCodecs | StopScoCall

datatype hfp_error =
    BadOptions cli_error
  | BusFailed nat
  | RequestFailed sco_call nat
  | StartRejected
  | ListenerPairFailed nat
  | ListenerTimedOut
  | ListenerFailed nat
  | WrongCodec u8 u8
  | DataSocketFailed nat
  | ReadFailed nat
  | WriteFailed nat
  | ShutdownFailed nat
  | SenderMissing
  | TestTimedOut
  | NoMicrophonePcm
  | OnlyZeroPcm
  | CaptureFileFailed nat
  | UnexpectedStopStatus u8
  | CleanupFailed hfp_error
  | CleanupAlsoFailed hfp_error hfp_error

record 'w sco_io =
  sco_world :: 'w
  sco_log :: "(sco_call \<times> bool) list"
  sco_sent :: "u8 list"

definition outside ::
  "(nat \<Rightarrow> hfp_error) \<Rightarrow> ('w \<Rightarrow> (nat + 'a) \<times> 'w) \<Rightarrow> ('w sco_io, hfp_error, 'a) act"
where
  "outside err f = perform (\<lambda>io. let (r, w) = f (sco_world io) in (map_err err r, io\<lparr>sco_world := w\<rparr>))"

definition race :: "('w \<Rightarrow> 'a \<times> 'w) \<Rightarrow> ('w sco_io, hfp_error, 'a) act" where
  "race f = perform (\<lambda>io. let (x, w) = f (sco_world io) in (Inr x, io\<lparr>sco_world := w\<rparr>))"

definition request ::
  "sco_call \<Rightarrow> ('w \<Rightarrow> (nat + 'a) \<times> 'w) \<Rightarrow> ('a \<Rightarrow> bool) \<Rightarrow> ('w sco_io, hfp_error, 'a) act"
where
  "request c f accepted = perform (\<lambda>io.
     let (r, w) = f (sco_world io) in
     (map_err (RequestFailed c) r,
      io\<lparr>sco_world := w, sco_log := sco_log io @ [(c, case r of Inl _ \<Rightarrow> False | Inr x \<Rightarrow> accepted x)]\<rparr>))"

definition write_all :: "'w sco_service \<Rightarrow> u8 list \<Rightarrow> ('w sco_io, hfp_error, unit) act" where
  "write_all svc bs = perform (\<lambda>io.
     let (r, w) = sco_write svc bs (sco_world io) in
     (map_err WriteFailed r,
      io\<lparr>sco_world := w, sco_sent := (if is_ok r then sco_sent io @ bs else sco_sent io)\<rparr>))"

definition hfp_now :: "'w sco_service \<Rightarrow> ('w sco_io, hfp_error, nat) act" where
  "hfp_now svc = inspect (\<lambda>io. sco_clock svc (sco_world io))"

definition listener_pair :: "'w sco_service \<Rightarrow> ('w sco_io, hfp_error, unit) act" where
  "listener_pair svc = outside ListenerPairFailed (new_listener svc)"

definition wait_for_listener :: "'w sco_service \<Rightarrow> ('w sco_io, hfp_error, u8) act" where
  "wait_for_listener svc =
     seq (race (listener_status svc)) (\<lambda>status.
     case status of
       None \<Rightarrow> throw ListenerTimedOut
     | Some r \<Rightarrow> from_result (map_err ListenerFailed r))"

definition SCO_DATA_PATH :: string where
  "SCO_DATA_PATH = ''/run/bluetooth/audio/.sco_data''"

definition connect_sco_uipc :: "'w sco_service \<Rightarrow> ('w sco_io, hfp_error, unit) act" where
  "connect_sco_uipc svc =
     seq (hfp_now svc) (\<lambda>t.
     retry_until (\<lambda>io. sco_clock svc (sco_world io))
       (\<lambda>io. io\<lparr>sco_world := sco_sleep svc 20000000 (sco_world io)\<rparr>) (t + 3000000000)
       (outside DataSocketFailed (connect_sco svc SCO_DATA_PATH)))"

section \<open>The tone exercise\<close>

definition tone_frame :: "(nat \<Rightarrow> i16) \<Rightarrow> nat \<Rightarrow> nat \<Rightarrow> u8 list" where
  "tone_frame tone n start = concat (map (\<lambda>index. to_le_bytes (tone (start + index))) [0..<n])"

fun play_tone ::
  "'w sco_service \<Rightarrow> (nat \<Rightarrow> i16) \<Rightarrow> nat \<Rightarrow> nat \<Rightarrow> nat \<Rightarrow> u64 \<Rightarrow> ('w sco_io, hfp_error, u64) act"
where
  "play_tone svc tone n start 0 played = seq (outside ShutdownFailed (sco_shutdown svc)) (\<lambda>_. pure played)"
| "play_tone svc tone n start (Suc ticks) played =
     (let pcm = tone_frame tone n start in
      seq (write_all svc pcm) (\<lambda>_. play_tone svc tone n (start + n) ticks (played + of_nat (length pcm))))"

record 'd capture =
  tx_open :: bool
  stats :: "'d CaptureStats"
  captured_pcm :: "u8 list"
  forwarded :: "u8 list list"

definition record_read :: "('d \<Rightarrow> i16 \<Rightarrow> 'd) \<Rightarrow> u8 list \<Rightarrow> 'd capture \<Rightarrow> 'd capture" where
  "record_read add_square bs c =
     c\<lparr>stats := account add_square (stats c) bs, captured_pcm := captured_pcm c @ bs\<rparr>"

partial_function (option) capture_tone ::
  "'w sco_service \<Rightarrow> ('d \<Rightarrow> i16 \<Rightarrow> 'd) \<Rightarrow> nat \<Rightarrow> 'd capture \<Rightarrow> ('w sco_io, hfp_error, 'd capture) act"
where
  "capture_tone svc add_square deadline c io =
     seq (race (read_or_timer svc deadline)) (\<lambda>ev.
     case ev of
       None \<Rightarrow> pure c
     | Some r \<Rightarrow> seq (from_result (map_err ReadFailed r)) (\<lambda>bs.
         if bs = [] then pure c
         else capture_tone svc add_square deadline (record_read add_square bs c))) io"

definition exercise_full_duplex ::
  "'w sco_service \<Rightarrow> (nat \<Rightarrow> i16) \<Rightarrow> 'd \<Rightarrow> ('d \<Rightarrow> i16 \<Rightarrow> 'd) \<Rightarrow> 'f hfp_args \<Rightarrow>
   ('w sco_io, hfp_error, u64 \<times> 'd CaptureStats \<times> u8 list) act"
where
  "exercise_full_duplex svc tone zero add_square args =
     seq (hfp_now svc) (\<lambda>t.
     seq (play_tone svc tone (sample_rate (codec args) div 100) 0 (unat (seconds args) * 1000 div 10) 0)
       (\<lambda>played.
     seq (capture_tone svc add_square (t + unat (seconds args) * 1000000000)
            \<lparr>tx_open = False, stats = no_stats zero, captured_pcm = [], forwarded = []\<rparr>) (\<lambda>c.
     pure (played, stats c, captured_pcm c))))"

section \<open>The loopback exercise\<close>

text \<open>
  The capture half. While the sender is there the frames are recorded and sent on; after the capture
  deadline the sender is dropped, and the socket is only read until the drain deadline.
\<close>

definition phase_deadline :: "'d capture \<Rightarrow> nat \<Rightarrow> nat \<Rightarrow> nat" where
  "phase_deadline c capture_deadline drain_deadline = (if tx_open c then capture_deadline else drain_deadline)"

partial_function (option) capture_loopback ::
  "'w sco_service \<Rightarrow> ('d \<Rightarrow> i16 \<Rightarrow> 'd) \<Rightarrow> nat \<Rightarrow> nat \<Rightarrow> 'd capture \<Rightarrow> ('w sco_io, hfp_error, 'd capture) act"
where
  "capture_loopback svc add_square capture_deadline drain_deadline c io =
     seq (race (read_or_timer svc (phase_deadline c capture_deadline drain_deadline))) (\<lambda>ev.
     case ev of
       None \<Rightarrow>
         if tx_open c \<and> phase_deadline c capture_deadline drain_deadline < drain_deadline
         then capture_loopback svc add_square capture_deadline drain_deadline (c\<lparr>tx_open := False\<rparr>)
         else pure (c\<lparr>tx_open := False\<rparr>)
     | Some r \<Rightarrow> seq (from_result (map_err ReadFailed r)) (\<lambda>bs.
         if bs = [] then pure c
         else seq (hfp_now svc) (\<lambda>t.
           if capture_deadline \<le> t
           then capture_loopback svc add_square capture_deadline drain_deadline (c\<lparr>tx_open := False\<rparr>)
           else if \<not> tx_open c then throw SenderMissing
           else seq (race (send_or_timer svc capture_deadline bs)) (\<lambda>sent.
             case sent of
               None \<Rightarrow> capture_loopback svc add_square capture_deadline drain_deadline
                 ((record_read add_square bs c)\<lparr>tx_open := False\<rparr>)
             | Some accepted \<Rightarrow>
                 if \<not> accepted then pure (record_read add_square bs c)
                 else capture_loopback svc add_square capture_deadline drain_deadline
                   ((record_read add_square bs c)\<lparr>forwarded := forwarded c @ [bs]\<rparr>))))) io"

text \<open>The playback half: attenuation, the delay line, and its drain.\<close>

fun attenuate :: "(i16 \<Rightarrow> i16) \<Rightarrow> u8 list \<Rightarrow> u8 list" where
  "attenuate gain (a # b # bs) = to_le_bytes (gain (from_le_bytes [a, b])) @ attenuate gain bs"
| "attenuate gain bs = bs"

definition next_cursor :: "nat \<Rightarrow> nat \<Rightarrow> nat" where
  "next_cursor n cursor = (if cursor + 1 = n then 0 else cursor + 1)"

fun delay_swap :: "u8 list \<Rightarrow> nat \<Rightarrow> u8 list \<Rightarrow> (u8 list \<times> nat) \<times> u8 list" where
  "delay_swap line cursor [] = ((line, cursor), [])"
| "delay_swap line cursor (b # bs) =
     (let (d, out) = delay_swap (line[cursor := b]) (next_cursor (length line) cursor) bs
      in (d, line ! cursor # out))"

fun delay_read :: "u8 list \<Rightarrow> nat \<Rightarrow> nat \<Rightarrow> nat \<times> u8 list" where
  "delay_read line cursor 0 = (cursor, [])"
| "delay_read line cursor (Suc n) =
     (let (c, out) = delay_read line (next_cursor (length line) cursor) n in (c, line ! cursor # out))"

definition frame_bytes :: "Codec \<Rightarrow> nat" where
  "frame_bytes k = sample_rate k div 100 * 2"

definition delay_bytes :: "Codec \<Rightarrow> u64 \<Rightarrow> nat" where
  "delay_bytes k delay = sample_rate k * 2 * unat delay"

fun echo_frames ::
  "'w sco_service \<Rightarrow> (i16 \<Rightarrow> i16) \<Rightarrow> u8 list \<times> nat \<Rightarrow> u64 \<Rightarrow> u8 list list \<Rightarrow>
   ('w sco_io, hfp_error, (u8 list \<times> nat) \<times> u64) act"
where
  "echo_frames svc gain d played [] = pure (d, played)"
| "echo_frames svc gain d played (f # fs) =
     (let frame = attenuate gain f;
          (d', out) = (if fst d = [] then (d, frame) else delay_swap (fst d) (snd d) frame)
      in seq (write_all svc out) (\<lambda>_. echo_frames svc gain d' (played + of_nat (length out)) fs))"

function drain_line ::
  "'w sco_service \<Rightarrow> Codec \<Rightarrow> u8 list \<Rightarrow> nat \<Rightarrow> nat \<Rightarrow> u64 \<Rightarrow> ('w sco_io, hfp_error, u64) act"
where
  "drain_line svc k line cursor remaining played =
     (if remaining = 0 then pure played
      else let n = min remaining (frame_bytes k);
               (cursor', out) = delay_read line cursor n
           in seq (write_all svc out) (\<lambda>_. drain_line svc k line cursor' (remaining - n) (played + of_nat n)))"
  by pat_completeness auto
termination
proof (relation "measure (\<lambda>(svc, k, line, cursor, remaining, played). remaining)")
  fix svc k line cursor remaining played n x cursor' out u
  assume "remaining \<noteq> 0" and "n = min remaining (frame_bytes k)"
  moreover have "0 < frame_bytes k" by (cases k) (simp_all add: frame_bytes_def)
  ultimately show "((svc, k, line, cursor', remaining - n, played + of_nat n),
      svc, k, line, cursor, remaining, played) \<in> measure (\<lambda>(svc, k, line, cursor, remaining, played). remaining)"
    by simp
qed simp

declare drain_line.simps [simp del]

definition playback_loopback ::
  "'w sco_service \<Rightarrow> (i16 \<Rightarrow> i16) \<Rightarrow> Codec \<Rightarrow> u64 \<Rightarrow> u8 list list \<Rightarrow> ('w sco_io, hfp_error, u64) act"
where
  "playback_loopback svc gain k delay frames =
     seq (echo_frames svc gain (replicate (delay_bytes k delay) 0, 0) 0 frames) (\<lambda>((line, cursor), played).
     seq (if line = [] then pure played else drain_line svc k line cursor (length line) played) (\<lambda>played.
     seq (outside ShutdownFailed (sco_shutdown svc)) (\<lambda>_. pure played)))"

definition exercise_loopback ::
  "'w sco_service \<Rightarrow> ('f \<Rightarrow> i16 \<Rightarrow> i16) \<Rightarrow> 'd \<Rightarrow> ('d \<Rightarrow> i16 \<Rightarrow> 'd) \<Rightarrow> 'f hfp_args \<Rightarrow>
   ('w sco_io, hfp_error, u64 \<times> 'd CaptureStats \<times> u8 list) act"
where
  "exercise_loopback svc gain zero add_square args =
     seq (hfp_now svc) (\<lambda>t.
     let capture_deadline = t + unat (seconds args) * 1000000000;
         drain_deadline = capture_deadline + unat (loopback_delay_seconds args) * 1000000000 in
     seq (capture_loopback svc add_square capture_deadline drain_deadline
            \<lparr>tx_open = True, stats = no_stats zero, captured_pcm = [], forwarded = []\<rparr>) (\<lambda>c.
     seq (playback_loopback svc (gain (loopback_gain args)) (codec args) (loopback_delay_seconds args)
            (forwarded c)) (\<lambda>played.
     pure (played, stats c, captured_pcm c))))"

section \<open>The main program\<close>

definition stop_sco :: "'w sco_service \<Rightarrow> string \<Rightarrow> ('w sco_io, hfp_error, u8) act" where
  "stop_sco svc addr =
     seq (listener_pair svc) (\<lambda>_.
     seq (request StopScoCall (stop_sco_call svc addr) (\<lambda>_. True)) (\<lambda>_.
     wait_for_listener svc))"

definition hfp_test ::
  "'w sco_service \<Rightarrow> (nat \<Rightarrow> i16) \<Rightarrow> ('f \<Rightarrow> i16 \<Rightarrow> i16) \<Rightarrow> 'd \<Rightarrow> ('d \<Rightarrow> i16 \<Rightarrow> 'd) \<Rightarrow> 'f hfp_args \<Rightarrow>
   ('w sco_io, hfp_error, unit) act"
where
  "hfp_test svc tone gain zero add_square args =
     seq (wait_for_listener svc) (\<lambda>bit.
     seq (request GetHfpAudioFinalCodecs (get_hfp_audio_final_codecs svc (address args)) (\<lambda>_. True)) (\<lambda>reported.
     seq (require (\<not> (bit \<noteq> expected_bit (codec args) \<or> reported \<noteq> expected_bit (codec args)))
            (WrongCodec bit reported)) (\<lambda>_.
     seq (connect_sco_uipc svc) (\<lambda>_.
     seq (race (test_expires svc (unat (seconds args + loopback_delay_seconds args + 5)))) (\<lambda>expired.
     seq (require (\<not> expired) TestTimedOut) (\<lambda>_.
     seq (if loopback args then exercise_loopback svc gain zero add_square args
          else exercise_full_duplex svc tone zero add_square args) (\<lambda>(played, st, pcm).
     seq (require (stat_bytes st \<noteq> 0) NoMicrophonePcm) (\<lambda>_.
     seq (require (\<not> (stat_samples st = 0 \<or> peak st = 0)) OnlyZeroPcm) (\<lambda>_.
     case capture_path args of
       None \<Rightarrow> pure ()
     | Some path \<Rightarrow> outside CaptureFileFailed (write_file svc path pcm))))))))))"

definition conclude :: "hfp_error + unit \<Rightarrow> hfp_error + u8 \<Rightarrow> hfp_error + unit" where
  "conclude test_result stop_result =
     (case (test_result, stop_result) of
        (Inr _, Inr status) \<Rightarrow> if status = 0 then Inr () else Inl (UnexpectedStopStatus status)
      | (Inr _, Inl stop_error) \<Rightarrow> Inl (CleanupFailed stop_error)
      | (Inl test_error, Inr _) \<Rightarrow> Inl test_error
      | (Inl test_error, Inl stop_error) \<Rightarrow> Inl (CleanupAlsoFailed test_error stop_error))"

definition hfp_main ::
  "'w sco_service \<Rightarrow> 'f float_text \<Rightarrow> ('f \<Rightarrow> nat \<Rightarrow> nat \<Rightarrow> i16) \<Rightarrow> ('f \<Rightarrow> i16 \<Rightarrow> i16) \<Rightarrow> 'd \<Rightarrow>
   ('d \<Rightarrow> i16 \<Rightarrow> 'd) \<Rightarrow> string list \<Rightarrow> ('w sco_io, hfp_error, unit) act"
where
  "hfp_main svc fl tone gain zero add_square argv =
     seq (from_result (map_err BadOptions (hfp_parse fl argv))) (\<lambda>args.
     seq (outside BusFailed (connect_bus svc)) (\<lambda>_.
     seq (request SetHfpActiveDevice (set_hfp_active_device svc (address args)) (\<lambda>_. True)) (\<lambda>_.
     seq (listener_pair svc) (\<lambda>_.
     seq (request StartScoCall
            (start_sco_call svc (address args) False (disabled_codecs (codec args))) (\<lambda>ok. ok)) (\<lambda>ok.
     seq (require ok StartRejected) (\<lambda>_.
     seq (attempt (hfp_test svc (tone (frequency_hz args) (sample_rate (codec args))) gain zero add_square args))
       (\<lambda>test_result.
     seq (attempt (stop_sco svc (address args))) (\<lambda>stop_result.
     from_result (conclude test_result stop_result)))))))))"

section \<open>The delay line is a queue\<close>

lemma rotate_split: "c < length line \<Longrightarrow> rotate c line = line ! c # drop (Suc c) line @ take c line"
  by (simp add: rotate_drop_take Cons_nth_drop_Suc)

lemma rotate_le: "n \<le> length xs \<Longrightarrow> rotate n xs = drop n xs @ take n xs"
  by (cases "n = length xs") (auto simp: rotate_drop_take)

lemma rotate_next: "c < length line \<Longrightarrow> rotate (next_cursor (length line) c) line = rotate (Suc c) line"
  by (cases "Suc c = length line") (simp_all add: next_cursor_def rotate_le del: rotate_Suc)

lemma next_cursor_less: "c < n \<Longrightarrow> next_cursor n c < n"
  by (auto simp: next_cursor_def)

lemma rotate_swap:
  assumes "c < length line"
  shows "rotate (next_cursor (length line) c) (line[c := b]) = drop (Suc c) line @ take c line @ [b]"
proof -
  have "rotate (next_cursor (length line) c) (line[c := b]) = rotate (Suc c) (line[c := b])"
    using rotate_next [of c "line[c := b]"] assms by simp
  also have "\<dots> = rotate1 (rotate c (line[c := b]))" by (simp add: rotate_def)
  also have "\<dots> = drop (Suc c) line @ take c line @ [b]"
    using assms by (simp add: rotate_split)
  finally show ?thesis .
qed

definition delay_ok :: "u8 list \<times> nat \<Rightarrow> bool" where
  "delay_ok d \<longleftrightarrow> fst d = [] \<or> snd d < length (fst d)"

lemma delay_swap_queue:
  "c < length line \<Longrightarrow> delay_swap line c bs = (d, out) \<Longrightarrow>
   out @ rotate (snd d) (fst d) = rotate c line @ bs \<and> delay_ok d \<and> length (fst d) = length line \<and>
   length out = length bs"
proof (induction bs arbitrary: line c d out)
  case (Cons b bs)
  obtain d' out' where rest: "delay_swap (line[c := b]) (next_cursor (length line) c) bs = (d', out')"
    by fastforce
  with Cons.prems have d: "d = d'" "out = line ! c # out'" by simp_all
  from Cons.IH [OF _ rest] Cons.prems(1) next_cursor_less [OF Cons.prems(1)]
  have "out' @ rotate (snd d') (fst d') = (drop (Suc c) line @ take c line @ [b]) @ bs \<and> delay_ok d' \<and>
    length (fst d') = length line \<and> length out' = length bs"
    by (simp add: rotate_swap)
  with d Cons.prems(1) show ?case by (simp add: rotate_split)
qed (auto simp: delay_ok_def)

lemma delay_read_queue:
  "c < length line \<Longrightarrow> n \<le> length line \<Longrightarrow> delay_read line c n = (c', out) \<Longrightarrow>
   out = take n (rotate c line) \<and> rotate c' line = rotate (c + n) line \<and> c' < length line"
proof (induction n arbitrary: c out)
  case (Suc n)
  obtain c2 out' where rest: "delay_read line (next_cursor (length line) c) n = (c2, out')"
    by fastforce
  with Suc.prems have d: "c' = c2" "out = line ! c # out'" by simp_all
  have next_rot: "rotate (next_cursor (length line) c + n) line = rotate (c + Suc n) line"
  proof -
    have "rotate (next_cursor (length line) c + n) line = rotate n (rotate (next_cursor (length line) c) line)"
      by (simp add: rotate_rotate add.commute)
    also have "\<dots> = rotate (n + Suc c) line"
      by (simp only: rotate_next [OF Suc.prems(1)] rotate_rotate)
    finally show ?thesis by (simp only: add.commute add_Suc add_Suc_right)
  qed
  from Suc.IH [OF next_cursor_less [OF Suc.prems(1)] _ rest [folded d(1)]] Suc.prems d(1)
  have "out' = take n (rotate (Suc c) line) \<and> rotate c2 line = rotate (c + Suc n) line \<and> c2 < length line"
    by (simp add: rotate_next next_rot)
  moreover have "rotate (Suc c) line = drop (Suc c) line @ take c line @ [line ! c]"
    using rotate_swap [OF Suc.prems(1), of "line ! c"] rotate_next [OF Suc.prems(1)] by simp
  ultimately show ?case
    using d Suc.prems by (simp add: rotate_split)
qed simp

section \<open>What the playback writes\<close>

lemma triple_write_all:
  "triple (\<lambda>io. sco_sent io = w) (write_all svc bs) (\<lambda>_ io. sco_sent io = w @ bs) (\<lambda>_ io. sco_sent io = w)"
  unfolding write_all_def
  by (rule triple_perform) (auto simp: Let_def map_err_def split: prod.splits sum.splits)

lemma triple_outside_sent:
  "triple (\<lambda>io. sco_sent io = w) (outside err f) (\<lambda>_ io. sco_sent io = w) (\<lambda>_ io. sco_sent io = w)"
  unfolding outside_def
  by (rule triple_perform) (auto simp: Let_def split: prod.splits sum.splits)

text \<open>
  The bytes sent, the contents of the delay line and the input still to come always make up the same
  text \<open>T\<close>; the counter \<open>played\<close> follows the bytes sent.
\<close>

definition echoing :: "u8 list \<Rightarrow> nat \<Rightarrow> u8 list \<Rightarrow> u64 \<Rightarrow> 'w sco_io \<Rightarrow> bool" where
  "echoing T b q played io \<longleftrightarrow>
     sco_sent io @ q = T \<and> (of_nat (length (sco_sent io)) :: u64) = of_nat b + played"

lemma triple_write_echo:
  assumes "out @ q' = q"
  shows "triple (echoing T b q played) (write_all svc out)
    (\<lambda>_. echoing T b q' (played + of_nat (length out))) (\<lambda>_ io. \<exists>rest. sco_sent io @ rest = T)"
  unfolding triple_def
proof (intro allI impI)
  fix io r io'
  assume inv: "echoing T b q played io" and run: "write_all svc out io = Some (r, io')"
  from tripleD [OF triple_write_all refl run] inv assms
  show "case r of Inl e \<Rightarrow> \<exists>rest. sco_sent io' @ rest = T
    | Inr x \<Rightarrow> echoing T b q' (played + of_nat (length out)) io'"
    by (auto simp: echoing_def algebra_simps split: sum.splits)
qed

lemma triple_echo_frames:
  "delay_ok d \<Longrightarrow>
   triple (echoing T b (rotate (snd d) (fst d) @ concat (map (attenuate gain) fs)) played)
     (echo_frames svc gain d played fs)
     (\<lambda>(d', played') io. delay_ok d' \<and> length (fst d') = length (fst d) \<and>
        echoing T b (rotate (snd d') (fst d')) played' io)
     (\<lambda>_ io. \<exists>rest. sco_sent io @ rest = T)"
proof (induction fs arbitrary: d played)
  case Nil
  then show ?case by (auto intro!: triple_pure)
next
  case (Cons f fs)
  let ?frame = "attenuate gain f"
  obtain d' out where step: "(if fst d = [] then (d, ?frame) else delay_swap (fst d) (snd d) ?frame) = (d', out)"
    by fastforce
  then have d': "out @ rotate (snd d') (fst d') = rotate (snd d) (fst d) @ ?frame"
      "delay_ok d'" "length (fst d') = length (fst d)"
    using Cons.prems delay_swap_queue [of "snd d" "fst d" ?frame d' out]
    by (auto simp: delay_ok_def split: if_splits)
  have "triple (echoing T b (rotate (snd d) (fst d) @ concat (map (attenuate gain) (f # fs))) played)
      (write_all svc out)
      (\<lambda>_. echoing T b (rotate (snd d') (fst d') @ concat (map (attenuate gain) fs)) (played + of_nat (length out)))
      (\<lambda>_ io. \<exists>rest. sco_sent io @ rest = T)"
    by (rule triple_write_echo) (simp only: concat.simps list.map append_assoc [symmetric] d'(1))
  moreover have "echo_frames svc gain d played (f # fs) =
      seq (write_all svc out) (\<lambda>_. echo_frames svc gain d' (played + of_nat (length out)) fs)"
    by (simp only: echo_frames.simps Let_def step split)
  ultimately show ?case
    using triple_seq [OF _ Cons.IH [OF d'(2)]] by (simp only: d'(3))
qed

lemma triple_drain_line:
  "cursor < length line \<Longrightarrow> remaining \<le> length line \<Longrightarrow>
   triple (echoing T b (take remaining (rotate cursor line)) played)
     (drain_line svc k line cursor remaining played)
     (\<lambda>played'. echoing T b [] played') (\<lambda>_ io. \<exists>rest. sco_sent io @ rest = T)"
proof (induction svc k line cursor remaining played rule: drain_line.induct)
  case (1 svc k line cursor remaining played)
  show ?case
  proof (cases "remaining = 0")
    case True
    then show ?thesis by (subst drain_line.simps) (auto intro!: triple_pure)
  next
    case False
    let ?n = "min remaining (frame_bytes k)"
    obtain c' out where r: "delay_read line cursor ?n = (c', out)" by fastforce
    have q: "out = take ?n (rotate cursor line)" "rotate c' line = rotate (cursor + ?n) line" "c' < length line"
      using delay_read_queue [OF 1(2) _ r] 1(3) by simp_all
    let ?X = "rotate cursor line"
    have "rotate c' line = drop ?n ?X @ take ?n ?X"
    proof -
      have "rotate c' line = rotate ?n ?X" using q(2) by (simp add: rotate_rotate add.commute)
      then show ?thesis using 1(3) by (simp add: rotate_le)
    qed
    then have "take (remaining - ?n) (rotate c' line) = take (remaining - ?n) (drop ?n ?X)"
      using 1(3) by simp
    then have split: "out @ take (remaining - ?n) (rotate c' line) = take remaining ?X"
      using q(1) take_add [of ?n "remaining - ?n" ?X] by simp
    have len: "length out = ?n" using q(1) 1(3) by simp
    have IH: "triple (echoing T b (take (remaining - ?n) (rotate c' line)) (played + of_nat ?n))
       (drain_line svc k line c' (remaining - ?n) (played + of_nat ?n))
       (\<lambda>played'. echoing T b [] played') (\<lambda>_ io. \<exists>rest. sco_sent io @ rest = T)"
      by (rule "1.IH" [OF False refl r [symmetric]]) (use q(3) 1(3) in simp_all)
    have unfold: "drain_line svc k line cursor remaining played =
        seq (write_all svc out) (\<lambda>_. drain_line svc k line c' (remaining - ?n) (played + of_nat ?n))"
      using False by (subst drain_line.simps) (simp add: Let_def r)
    show ?thesis
      unfolding unfold by (rule triple_seq [OF triple_write_echo [OF split, unfolded len] IH])
  qed
qed

lemma triple_playback_loopback:
  fixes frames :: "u8 list list"
  assumes "T = w @ replicate (delay_bytes k delay) 0 @ concat (map (attenuate gain) frames)"
  shows "triple (\<lambda>io. sco_sent io = w) (playback_loopback svc gain k delay frames)
    (\<lambda>played io. echoing T (length w) [] played io) (\<lambda>_ io. \<exists>rest. sco_sent io @ rest = T)"
proof -
  let ?d = "(replicate (delay_bytes k delay) (0 :: u8), 0 :: nat)"
  have echo: "triple (\<lambda>io. sco_sent io = w) (echo_frames svc gain ?d 0 frames)
     (\<lambda>x io. delay_ok (fst x) \<and> echoing T (length w) (rotate (snd (fst x)) (fst (fst x))) (snd x) io)
     (\<lambda>_ io. \<exists>rest. sco_sent io @ rest = T)"
    by (rule triple_conseq [OF triple_echo_frames [where T = T and b = "length w"]])
      (auto simp: delay_ok_def echoing_def assms)
  have drain: "triple (\<lambda>io. delay_ok d' \<and> echoing T (length w) (rotate (snd d') (fst d')) p io)
      (if fst d' = [] then pure p else drain_line svc k (fst d') (snd d') (length (fst d')) p)
      (\<lambda>played. echoing T (length w) [] played) (\<lambda>_ io. \<exists>rest. sco_sent io @ rest = T)" for d' p
  proof (cases "fst d' = []")
    case False
    show ?thesis
    proof (cases "delay_ok d'")
      case True
      with False triple_drain_line [of "snd d'" "fst d'" "length (fst d')" T "length w" p svc k]
      show ?thesis by (simp add: delay_ok_def)
    qed (simp add: triple_def)
  qed (auto intro!: triple_pure)
  have close: "triple (echoing T (length w) [] p) (outside ShutdownFailed (sco_shutdown svc))
      (\<lambda>_. echoing T (length w) [] p) (\<lambda>_ io. \<exists>rest. sco_sent io @ rest = T)" for p
    unfolding outside_def
    by (rule triple_perform) (auto simp: echoing_def split: prod.splits sum.splits)
  show ?thesis
    unfolding playback_loopback_def case_prod_unfold
    by (rule triple_seq [OF echo], rule triple_seq [OF drain], rule triple_seq [OF close], rule triple_pure)
qed

lemma returns_writes [simp]:
  "returns P (write_all svc bs)" "returns P (outside err f)" "returns P (race g)" "returns P (request c h a)"
  "returns P (hfp_now svc)"
  by (simp_all add: write_all_def outside_def race_def request_def hfp_now_def)

lemma returns_echo_frames: "returns (\<lambda>_. True) (echo_frames svc gain d played fs)"
  by (induction fs arbitrary: d played)
    (auto simp: Let_def split: prod.split intro!: returns_seq_any)

lemma returns_drain_line: "returns (\<lambda>_. True) (drain_line svc k line cursor remaining played)"
proof (induction svc k line cursor remaining played rule: drain_line.induct)
  case (1 svc k line cursor remaining played)
  obtain c' out where r: "delay_read line cursor (min remaining (frame_bytes k)) = (c', out)" by fastforce
  show ?case
  proof (cases "remaining = 0")
    case False
    from "1.IH" [OF this refl r [symmetric]] False show ?thesis
      by (subst drain_line.simps) (auto simp: Let_def r intro!: returns_seq_any)
  qed (subst drain_line.simps, simp)
qed

lemma returns_playback_loopback: "returns (\<lambda>_. True) (playback_loopback svc gain k delay frames)"
  unfolding playback_loopback_def case_prod_unfold
  by (intro returns_seq_any returns_if returns_echo_frames returns_drain_line returns_simps returns_writes)

lemma length_attenuate [simp]: "length (attenuate gain bs) = length bs"
  by (induction gain bs rule: attenuate.induct) simp_all

lemma attenuate_lengths: "length (concat (map (attenuate gain) fs)) = length (concat fs)"
  by (simp add: length_concat o_def)

section \<open>Properties\<close>

text \<open>C33: The loopback is an exact delay: the playback always returns, and when nothing fails it has written
  the silence of the delay followed by every captured frame, attenuated, in order and to the last byte,
  and reports that number of bytes; when a write fails, what was written is a prefix of that.\<close>

theorem loopback_delay_exact:
  "\<exists>r io'. playback_loopback svc gain k delay frames io = Some (r, io') \<and>
     (case r of
        Inr played \<Rightarrow>
          sco_sent io' = sco_sent io @ replicate (sample_rate k * 2 * unat delay) 0 @ concat (map (attenuate gain) frames) \<and>
          played = of_nat (sample_rate k * 2 * unat delay + length (concat frames))
      | Inl e \<Rightarrow>
          \<exists>rest. sco_sent io' @ rest =
            sco_sent io @ replicate (sample_rate k * 2 * unat delay) 0 @ concat (map (attenuate gain) frames))"
proof -
  let ?T = "sco_sent io @ replicate (delay_bytes k delay) 0 @ concat (map (attenuate gain) frames)"
  obtain r io' where run: "playback_loopback svc gain k delay frames io = Some (r, io')"
    using returnsD [OF returns_playback_loopback] by blast
  from tripleD [OF triple_playback_loopback [OF refl] refl run] run
  show ?thesis
    by (intro exI [of _ r] exI [of _ io'])
      (auto simp: delay_bytes_def echoing_def attenuate_lengths algebra_simps split: sum.splits)
qed

section \<open>The capture loops\<close>

text \<open>
  What the loop relies on: the clock does not run backwards while a select waits, and a timer that wins
  does not win before its time.
\<close>

definition timers_ok :: "'w sco_service \<Rightarrow> bool" where
  "timers_ok svc \<longleftrightarrow>
     (\<forall>d w x w'. read_or_timer svc d w = (x, w') \<longrightarrow>
        sco_clock svc w \<le> sco_clock svc w' \<and> (x = None \<longrightarrow> d \<le> sco_clock svc w')) \<and>
     (\<forall>d b w x w'. send_or_timer svc d b w = (x, w') \<longrightarrow>
        sco_clock svc w \<le> sco_clock svc w' \<and> (x = None \<longrightarrow> d \<le> sco_clock svc w'))"

text \<open>The requests that start and stop the call.\<close>

definition call_log :: "'w sco_io \<Rightarrow> (sco_call \<times> bool) list" where
  "call_log io = filter (\<lambda>(c, _). c = StartScoCall \<or> c = StopScoCall) (sco_log io)"

lemma call_log_update [simp]: "call_log (io\<lparr>sco_world := w\<rparr>) = call_log io"
  "call_log (io\<lparr>sco_world := w, sco_sent := b\<rparr>) = call_log io"
  by (simp_all add: call_log_def)

definition recorded :: "'d capture \<Rightarrow> bool" where
  "recorded c \<longleftrightarrow>
     (\<exists>rest. captured_pcm c = concat (forwarded c) @ rest \<and> (tx_open c \<longrightarrow> rest = [])) \<and>
     stat_bytes (stats c) = of_nat (length (captured_pcm c))"

definition capture_inv ::
  "'w sco_service \<Rightarrow> nat \<Rightarrow> (sco_call \<times> bool) list \<Rightarrow> 'd capture \<Rightarrow> 'w sco_io \<Rightarrow> bool"
where
  "capture_inv svc deadline l c io \<longleftrightarrow>
     call_log io = l \<and> recorded c \<and>
     (timers_ok svc \<longrightarrow> \<not> tx_open c \<longrightarrow> deadline \<le> sco_clock svc (sco_world io))"

definition capture_post :: "(sco_call \<times> bool) list \<Rightarrow> 'd capture \<Rightarrow> 'w sco_io \<Rightarrow> bool" where
  "capture_post l c io \<longleftrightarrow> call_log io = l \<and>
     (\<exists>rest. captured_pcm c = concat (forwarded c) @ rest) \<and>
     stat_bytes (stats c) = of_nat (length (captured_pcm c))"

definition capture_fail ::
  "'w sco_service \<Rightarrow> (sco_call \<times> bool) list \<Rightarrow> hfp_error \<Rightarrow> 'w sco_io \<Rightarrow> bool"
where
  "capture_fail svc l e io \<longleftrightarrow> call_log io = l \<and> (timers_ok svc \<longrightarrow> e \<noteq> SenderMissing)"

lemma triple_race:
  "(\<And>io x w. P io \<Longrightarrow> f (sco_world io) = (x, w) \<Longrightarrow> Q x (io\<lparr>sco_world := w\<rparr>)) \<Longrightarrow> triple P (race f) Q E"
  unfolding race_def by (rule triple_perform) (auto split: prod.splits)

lemma account_bytes: "stat_bytes (account add_square st bs) = stat_bytes st + of_nat (length bs)"
proof -
  have "stat_bytes (foldl (account_sample add_square) t vs) = stat_bytes t" for t vs
    by (induction vs arbitrary: t) (simp_all add: account_sample_def)
  then show ?thesis by (simp add: account_def)
qed

lemma capture_inv_closed:
  "capture_inv svc d l c io \<Longrightarrow> (timers_ok svc \<Longrightarrow> d \<le> sco_clock svc (sco_world io)) \<Longrightarrow>
   capture_inv svc d l (c\<lparr>tx_open := False\<rparr>) io"
  by (auto simp: capture_inv_def recorded_def)

lemma capture_inv_post: "capture_inv svc d l c io \<Longrightarrow> capture_post l c io"
  by (auto simp: capture_inv_def capture_post_def recorded_def)

lemma triple_capture_body:
  assumes rec: "\<And>c. triple (capture_inv svc cd l c) (rec c) (capture_post l) (capture_fail svc l)"
  shows "triple (capture_inv svc cd l c)
    (seq (race (read_or_timer svc (phase_deadline c cd dd))) (\<lambda>ev.
     case ev of
       None \<Rightarrow>
         if tx_open c \<and> phase_deadline c cd dd < dd then rec (c\<lparr>tx_open := False\<rparr>)
         else pure (c\<lparr>tx_open := False\<rparr>)
     | Some r \<Rightarrow> seq (from_result (map_err ReadFailed r)) (\<lambda>bs.
         if bs = [] then pure c
         else seq (hfp_now svc) (\<lambda>t.
           if cd \<le> t then rec (c\<lparr>tx_open := False\<rparr>)
           else if \<not> tx_open c then throw SenderMissing
           else seq (race (send_or_timer svc cd bs)) (\<lambda>sent.
             case sent of
               None \<Rightarrow> rec ((record_read add_square bs c)\<lparr>tx_open := False\<rparr>)
             | Some accepted \<Rightarrow>
                 if \<not> accepted then pure (record_read add_square bs c)
                 else rec ((record_read add_square bs c)\<lparr>forwarded := forwarded c @ [bs]\<rparr>))))))
    (capture_post l) (capture_fail svc l)"
proof -
  let ?clock = "\<lambda>io. sco_clock svc (sco_world io)"
  have read: "triple (capture_inv svc cd l c) (race (read_or_timer svc (phase_deadline c cd dd)))
      (\<lambda>ev io. capture_inv svc cd l c io \<and> (ev = None \<longrightarrow> timers_ok svc \<longrightarrow> phase_deadline c cd dd \<le> ?clock io))
      (capture_fail svc l)"
    by (rule triple_race) (fastforce simp: capture_inv_def timers_ok_def)
  have now: "triple (capture_inv svc cd l c) (hfp_now svc)
      (\<lambda>t io. capture_inv svc cd l c io \<and> ?clock io = t) (capture_fail svc l)"
    unfolding hfp_now_def by (rule triple_inspect) simp
  have send: "triple (\<lambda>io. capture_inv svc cd l c io \<and> tx_open c) (race (send_or_timer svc cd bs))
      (\<lambda>sent io. case sent of
         None \<Rightarrow> capture_inv svc cd l ((record_read add_square bs c)\<lparr>tx_open := False\<rparr>) io
       | Some accepted \<Rightarrow>
           capture_post l (record_read add_square bs c) io \<and>
           capture_inv svc cd l ((record_read add_square bs c)\<lparr>forwarded := forwarded c @ [bs]\<rparr>) io)
      (capture_fail svc l)" for bs
    by (rule triple_race)
      (fastforce simp: capture_inv_def capture_post_def recorded_def record_read_def account_bytes timers_ok_def
        split: option.split)
  have close: "triple P (rec (c\<lparr>tx_open := False\<rparr>)) (capture_post l) (capture_fail svc l)"
    if "\<And>io. P io \<Longrightarrow> capture_inv svc cd l c io \<and> (timers_ok svc \<longrightarrow> cd \<le> ?clock io)" for P
    by (rule triple_conseq [OF rec]) (use that in \<open>auto intro: capture_inv_closed\<close>)
  have sent: "triple (\<lambda>io. capture_inv svc cd l c io \<and> tx_open c)
      (seq (race (send_or_timer svc cd bs)) (\<lambda>sent.
         case sent of
           None \<Rightarrow> rec ((record_read add_square bs c)\<lparr>tx_open := False\<rparr>)
         | Some accepted \<Rightarrow>
             if \<not> accepted then pure (record_read add_square bs c)
             else rec ((record_read add_square bs c)\<lparr>forwarded := forwarded c @ [bs]\<rparr>)))
      (capture_post l) (capture_fail svc l)" for bs
    by (rule triple_seq [OF send], rule triple_case_option)
      (auto intro!: triple_if triple_pure triple_conseq [OF rec])
  have heard: "triple (capture_inv svc cd l c)
      (seq (hfp_now svc) (\<lambda>t.
         if cd \<le> t then rec (c\<lparr>tx_open := False\<rparr>)
         else if \<not> tx_open c then throw SenderMissing
         else seq (race (send_or_timer svc cd bs)) (\<lambda>sent.
           case sent of
             None \<Rightarrow> rec ((record_read add_square bs c)\<lparr>tx_open := False\<rparr>)
           | Some accepted \<Rightarrow>
               if \<not> accepted then pure (record_read add_square bs c)
               else rec ((record_read add_square bs c)\<lparr>forwarded := forwarded c @ [bs]\<rparr>))))
      (capture_post l) (capture_fail svc l)" for bs
    by (rule triple_seq [OF now], intro triple_if close triple_throw triple_conseq [OF sent])
      (auto simp: capture_inv_def capture_fail_def)
  show ?thesis
  proof (rule triple_seq [OF read], rule triple_case_option, goal_cases)
    case 1
    show ?case
      by (intro triple_if close triple_pure)
        (auto simp: 1 phase_deadline_def capture_inv_def capture_post_def recorded_def)
  next
    case (2 ev r)
    show ?case
    proof (rule triple_seq [where R = "\<lambda>_. capture_inv svc cd l c"])
      show "triple (\<lambda>io. capture_inv svc cd l c io \<and>
          (ev = None \<longrightarrow> timers_ok svc \<longrightarrow> phase_deadline c cd dd \<le> ?clock io))
          (from_result (map_err ReadFailed r)) (\<lambda>_. capture_inv svc cd l c) (capture_fail svc l)"
        by (rule triple_from_result) (auto simp: capture_fail_def capture_inv_def map_err_Inl_iff)
    qed (rule triple_if, rule triple_pure, erule capture_inv_post, rule heard)
  qed
qed

lemma triple_capture_loopback:
  fixes svc :: "'w sco_service" and add_square :: "'d \<Rightarrow> i16 \<Rightarrow> 'd"
  shows "triple (capture_inv svc cd l c) (capture_loopback svc add_square cd dd c)
    (capture_post l) (capture_fail svc l)"
proof -
  let ?post = "\<lambda>svc cd c io (y :: (hfp_error + 'd capture) \<times> 'w sco_io). capture_inv svc cd l c io \<longrightarrow>
    (case fst y of Inl e \<Rightarrow> capture_fail svc l e (snd y) | Inr x \<Rightarrow> capture_post l x (snd y))"
  have "?post svc cd c io y" if "capture_loopback svc add_square cd dd c io = Some y" for c io y
    using that
  proof (rule capture_loopback.raw_induct [where P = "\<lambda>svc a cd dd c io y. ?post svc cd c io y", rotated], goal_cases)
    case (1 rec svc a cd dd c io y)
    have "triple (capture_inv svc cd l c) (rec svc a cd dd c) (capture_post l) (capture_fail svc l)" for c
      by (rule triple_by_run) (rule 1(1))
    from tripleD [OF triple_capture_body [of svc cd l "rec svc a cd dd", OF this], of c io dd a "fst y" "snd y"] 1(2)
    show ?case by simp
  qed
  then show ?thesis by (rule triple_by_run)
qed

section \<open>The call is always stopped\<close>

text \<open>Everything between the start and the stop request leaves these two alone.\<close>

definition keeps_calls :: "(sco_call \<times> bool) list \<Rightarrow> ('w sco_io, hfp_error, 'a) act \<Rightarrow> bool" where
  "keeps_calls l m \<longleftrightarrow> triple (\<lambda>io. call_log io = l) m (\<lambda>_ io. call_log io = l) (\<lambda>_ io. call_log io = l)"

named_theorems keeps_rules "actions that neither start nor stop the call"

lemma keeps_basic [keeps_rules]:
  "keeps_calls l (pure x)" "keeps_calls l (throw e)" "keeps_calls l (require b e)"
  "keeps_calls l (from_result r)" "keeps_calls l (hfp_now svc)" "keeps_calls l (outside err f)"
  "keeps_calls l (race g)" "keeps_calls l (write_all svc bs)"
  by (auto simp: keeps_calls_def hfp_now_def outside_def race_def write_all_def Let_def
      intro!: triple_pure triple_throw triple_require triple_from_result triple_inspect triple_perform
      split: prod.splits sum.splits)

lemma keeps_request [keeps_rules]:
  "c \<noteq> StartScoCall \<Longrightarrow> c \<noteq> StopScoCall \<Longrightarrow> keeps_calls l (request c f ok)"
  by (auto simp: keeps_calls_def request_def call_log_def Let_def intro!: triple_perform
      split: prod.splits sum.splits)

lemma keeps_seq [keeps_rules]:
  "keeps_calls l m \<Longrightarrow> (\<And>x. keeps_calls l (k x)) \<Longrightarrow> keeps_calls l (seq m k)"
  unfolding keeps_calls_def by (rule triple_seq)

lemma keeps_if [keeps_rules]:
  "keeps_calls l m \<Longrightarrow> keeps_calls l n \<Longrightarrow> keeps_calls l (if b then m else n)"
  by simp

lemma keeps_option [keeps_rules]:
  "keeps_calls l m \<Longrightarrow> (\<And>x. keeps_calls l (n x)) \<Longrightarrow> keeps_calls l (case r of None \<Rightarrow> m | Some x \<Rightarrow> n x)"
  by (cases r) simp_all

lemma keeps_play_tone [keeps_rules]: "keeps_calls l (play_tone svc tone n start ticks played)"
  by (induction ticks arbitrary: start played) (auto simp: Let_def intro!: keeps_rules)

lemma keeps_echo_frames [keeps_rules]: "keeps_calls l (echo_frames svc gain d played fs)"
  by (induction fs arbitrary: d played) (auto simp: Let_def intro!: keeps_rules split: prod.split)

lemma keeps_drain_line [keeps_rules]: "keeps_calls l (drain_line svc k line cursor remaining played)"
proof (induction svc k line cursor remaining played rule: drain_line.induct)
  case (1 svc k line cursor remaining played)
  then show ?case
    by (subst drain_line.simps) (auto simp: Let_def intro!: keeps_rules split: prod.split)
qed

lemma keeps_capture_tone [keeps_rules]:
  fixes svc :: "'w sco_service" and add_square :: "'d \<Rightarrow> i16 \<Rightarrow> 'd"
  shows "keeps_calls l (capture_tone svc add_square deadline c)"
proof -
  let ?post = "\<lambda>io (y :: (hfp_error + 'd capture) \<times> 'w sco_io). call_log io = l \<longrightarrow>
    (case fst y of Inl e \<Rightarrow> call_log (snd y) = l | Inr x \<Rightarrow> call_log (snd y) = l)"
  have "?post io y" if "capture_tone svc add_square deadline c io = Some y" for c io y
    using that
  proof (rule capture_tone.raw_induct [where P = "\<lambda>svc a d c io y. ?post io y", rotated], goal_cases)
    case (1 rec svc a d c io y)
    have "keeps_calls l (rec svc a d c)" for c
      unfolding keeps_calls_def by (rule triple_by_run) (rule 1(1))
    then have "keeps_calls l (seq (race (read_or_timer svc d)) (\<lambda>ev. case ev of None \<Rightarrow> pure c
        | Some r \<Rightarrow> seq (from_result (map_err ReadFailed r)) (\<lambda>bs.
            if bs = [] then pure c else rec svc a d (record_read a bs c))))"
      by (intro keeps_rules)
    from tripleD [OF this [unfolded keeps_calls_def], of io "fst y" "snd y"] 1(2) show ?case by simp
  qed
  then show ?thesis unfolding keeps_calls_def by (rule triple_by_run)
qed

lemma keeps_capture_loopback:
  assumes "recorded c" and "tx_open c"
  shows "keeps_calls l (capture_loopback svc add_square cd dd c)"
  unfolding keeps_calls_def
  by (rule triple_conseq [OF triple_capture_loopback [of svc cd l]])
    (use assms in \<open>auto simp: capture_inv_def capture_post_def capture_fail_def\<close>)

lemma keeps_connect_sco [keeps_rules]: "keeps_calls l (connect_sco_uipc svc)"
proof -
  have "keeps_calls l (retry_until clock (\<lambda>io. io\<lparr>sco_world := f (sco_world io)\<rparr>) d (outside e g))" for clock f d e g
    unfolding keeps_calls_def
    by (rule triple_conseq [OF triple_retry_until [where I = "\<lambda>io. call_log io = l" and Q = "\<lambda>_ io. call_log io = l" and E = "\<lambda>_ io. call_log io = l"]])
      (use keeps_basic(6) [of l e g] in \<open>auto simp: keeps_calls_def\<close>)
  then show ?thesis
    unfolding connect_sco_uipc_def by (intro keeps_seq keeps_basic)
qed

lemma keeps_test [keeps_rules]: "keeps_calls l (hfp_test svc tone gain zero add_square args)"
proof -
  have "recorded \<lparr>tx_open = True, stats = no_stats zero, captured_pcm = [], forwarded = []\<rparr>"
    by (simp add: recorded_def no_stats_def)
  then show ?thesis
    unfolding hfp_test_def wait_for_listener_def exercise_loopback_def exercise_full_duplex_def
      playback_loopback_def case_prod_unfold Let_def
    by (intro keeps_rules keeps_capture_loopback) simp_all
qed

lemma triple_start_request:
  "triple (\<lambda>io. call_log io = l) (request StartScoCall f (\<lambda>ok. ok))
     (\<lambda>ok io. call_log io = l @ [(StartScoCall, ok)]) (\<lambda>_ io. call_log io = l @ [(StartScoCall, False)])"
  unfolding request_def
  by (rule triple_perform) (auto simp: call_log_def Let_def map_err_def split: prod.splits sum.splits)

definition stop_post :: "(sco_call \<times> bool) list \<Rightarrow> hfp_error + u8 \<Rightarrow> 'w sco_io \<Rightarrow> bool" where
  "stop_post l res io \<longleftrightarrow>
     (\<exists>n. res = Inl (ListenerPairFailed n)) \<and> call_log io = l \<or>
     (\<exists>b. call_log io = l @ [(StopScoCall, b)] \<and> (is_ok res \<longrightarrow> b))"

lemma triple_stop_sco:
  "triple (\<lambda>io. call_log io = l) (attempt (stop_sco svc addr)) (stop_post l) E"
proof (rule triple_attempt)
  have pair: "triple (\<lambda>io. call_log io = l) (listener_pair svc)
      (\<lambda>_ io. call_log io = l) (\<lambda>e. stop_post l (Inl e))"
    unfolding listener_pair_def outside_def
    by (rule triple_perform) (auto simp: stop_post_def Let_def map_err_def split: prod.splits sum.splits)
  have stop: "triple (\<lambda>io. call_log io = l) (request StopScoCall f (\<lambda>_. True))
      (\<lambda>_ io. call_log io = l @ [(StopScoCall, True)]) (\<lambda>e. stop_post l (Inl e))"
    for f :: "'a \<Rightarrow> (nat + unit) \<times> 'a"
    unfolding request_def
    by (rule triple_perform)
      (auto simp: stop_post_def call_log_def Let_def map_err_def split: prod.splits sum.splits)
  have wait: "keeps_calls k (wait_for_listener svc)" for k
    unfolding wait_for_listener_def by (intro keeps_rules)
  show "triple (\<lambda>io. call_log io = l) (stop_sco svc addr) (\<lambda>x. stop_post l (Inr x)) (\<lambda>e. stop_post l (Inl e))"
    unfolding stop_sco_def
    by (rule triple_seq [OF pair], rule triple_seq [OF stop],
        rule triple_conseq [OF wait [unfolded keeps_calls_def]]) (auto simp: stop_post_def)
qed

text \<open>How the requests and the result of the program fit together.\<close>

definition call_outcome :: "hfp_error + unit \<Rightarrow> (sco_call \<times> bool) list \<Rightarrow> bool" where
  "call_outcome r calls \<longleftrightarrow>
     \<not> is_ok r \<and> (calls = [] \<or> calls = [(StartScoCall, False)]) \<or>
     calls = [(StartScoCall, True), (StopScoCall, True)] \<or>
     \<not> is_ok r \<and> calls = [(StartScoCall, True), (StopScoCall, False)] \<or>
     (\<exists>n e. r = Inl (CleanupFailed (ListenerPairFailed n)) \<or> r = Inl (CleanupAlsoFailed e (ListenerPairFailed n))) \<and>
       calls = [(StartScoCall, True)]"

lemma triple_main:
  "triple (\<lambda>io. call_log io = []) (hfp_main svc fl tone gain zero add_square argv)
     (\<lambda>x io. call_outcome (Inr x) (call_log io)) (\<lambda>e io. call_outcome (Inl e) (call_log io))"
proof -
  let ?none = "\<lambda>io. call_log io = []" and ?on = "\<lambda>io. call_log io = [(StartScoCall, True)]"
  let ?E = "\<lambda>e io. call_outcome (Inl e) (call_log io)"
  have keep: "triple ?none m (\<lambda>_. ?none) ?E" if "keeps_calls [] m" for m :: "('a sco_io, hfp_error, 'x) act"
    by (rule triple_conseq [OF that [unfolded keeps_calls_def]]) (auto simp: call_outcome_def)
  have start: "triple ?none (request StartScoCall f (\<lambda>ok. ok))
      (\<lambda>ok io. call_log io = [(StartScoCall, ok)]) ?E" for f
    by (rule triple_conseq [OF triple_start_request [of "[]"]]) (auto simp: call_outcome_def)
  have accepted: "triple (\<lambda>io. call_log io = [(StartScoCall, ok)]) (require ok StartRejected) (\<lambda>_. ?on) ?E" for ok
    by (rule triple_require) (auto simp: call_outcome_def)
  have test: "triple ?on (attempt (hfp_test svc t gain zero add_square args)) (\<lambda>_. ?on) ?E" for t args
    by (rule triple_attempt) (use keeps_test [of "[(StartScoCall, True)]"] in \<open>simp add: keeps_calls_def\<close>)
  have finish: "triple (stop_post [(StartScoCall, True)] stop_result) (from_result (conclude test_result stop_result))
      (\<lambda>x io. call_outcome (Inr x) (call_log io)) ?E" for test_result stop_result
    by (rule triple_from_result)
      (auto simp: stop_post_def conclude_def call_outcome_def split: sum.splits if_splits)
  show ?thesis
    unfolding hfp_main_def
    by (rule triple_seq [OF keep], rule keeps_rules, rule triple_seq [OF keep], rule keeps_rules,
        rule triple_seq [OF keep], rule keeps_request, simp, simp,
        rule triple_seq [OF keep], simp add: listener_pair_def keeps_rules,
        rule triple_seq [OF start], rule triple_seq [OF accepted], rule triple_seq [OF test],
        rule triple_seq [OF triple_stop_sco], rule finish)
qed


text \<open>
  A Floss daemon that accepts every request; its world is a clock. One frame of one sample arrives in the
  first second, and a call of one second echoes it without a delay.
\<close>

definition good_sco :: "nat sco_service" where
  "good_sco =
     \<lparr>connect_bus = (\<lambda>w. (Inr (), w)), set_hfp_active_device = (\<lambda>_ w. (Inr (), w)),
      start_sco_call = (\<lambda>_ _ _ w. (Inr True, w)), get_hfp_audio_final_codecs = (\<lambda>_ w. (Inr 1, w)),
      stop_sco_call = (\<lambda>_ w. (Inr (), w)), new_listener = (\<lambda>w. (Inr (), w)),
      listener_status = (\<lambda>w. (Some (Inr (if w = 0 then 1 else 0)), w)), connect_sco = (\<lambda>_ w. (Inr (), w)),
      sco_clock = (\<lambda>w. w), sco_sleep = (\<lambda>n w. w + n), sco_write = (\<lambda>_ w. (Inr (), w)),
      sco_shutdown = (\<lambda>w. (Inr (), w)),
      read_or_timer = (\<lambda>d w. if w = 0 then (Some (Inr [5, 0]), 1) else (None, max d w)),
      send_or_timer = (\<lambda>d _ w. if w < d then (Some True, w) else (None, w)),
      test_expires = (\<lambda>_ w. (False, w)), write_file = (\<lambda>_ _ w. (Inr (), w))\<rparr>"

definition loopback_argv :: "string list" where
  "loopback_argv = [''--address'', ''00:11:22:33:44:55'', ''--loopback'', ''--seconds'', decimal (unat (1 :: u64))]"

lemma good_args:
  "hfp_parse plain_floats loopback_argv =
     Inr \<lparr>address = ''00:11:22:33:44:55'', seconds = 1, frequency_hz = 440, loopback = True,
       loopback_gain = 1, loopback_delay_seconds = 0, capture_path = None, codec = Cvsd\<rparr>"
  by (simp add: hfp_parse_def loopback_argv_def hfp_defaults_def hfp_option_def plain_floats_def parse_unat del: unat_1 unsigned_1)

lemma to_le_bytes_i16: "to_le_bytes (v :: i16) = [of_nat (unat v mod 256), of_nat (unat v div 256 mod 256)]"
proof -
  have "nat_le 2 n = [of_nat (n mod 256), of_nat (n div 256 mod 256)]" for n
    by (simp add: numeral_2_eq_2)
  then show ?thesis by (simp add: to_le_bytes_def)
qed

lemma good_run:
  "\<exists>io'. hfp_main good_sco plain_floats (\<lambda>_ _ _. 0) (\<lambda>_ v. v) 0 (\<lambda>d v. d + nat \<bar>sint v\<bar>) loopback_argv
     \<lparr>sco_world = 0, sco_log = [], sco_sent = []\<rparr> = Some (Inr (), io') \<and> sco_sent io' = [5, 0]"
  by (simp add: hfp_main_def good_args act_defs good_sco_def outside_def request_def listener_pair_def
      hfp_test_def wait_for_listener_def race_def connect_sco_uipc_def hfp_now_def retry_until.simps
      exercise_loopback_def capture_loopback.simps phase_deadline_def record_read_def no_stats_def
      account_def account_sample_def playback_loopback_def delay_bytes_def write_all_def stop_sco_def
      conclude_def max_i16_def saturating_abs_def from_le_bytes_def
      to_le_bytes_i16)


text \<open>The capture half of the loopback never uses its sender after dropping it, so the \<open>expect\<close> in it
  cannot fail; when it ends, what it recorded is what it handed to the playback, in order, apart from a
  last part that was recorded but no longer sent, and the statistics count exactly the recorded bytes.\<close>

lemma loopback_capture_forwards:
  assumes "timers_ok svc"
    and "capture_loopback svc add_square capture_deadline drain_deadline
      \<lparr>tx_open = True, stats = no_stats zero, captured_pcm = [], forwarded = []\<rparr> io = Some (r, io')"
  shows "case r of
      Inl e \<Rightarrow> e \<noteq> SenderMissing
    | Inr c \<Rightarrow> (\<exists>rest. captured_pcm c = concat (forwarded c) @ rest) \<and>
        stat_bytes (stats c) = of_nat (length (captured_pcm c))"
proof -
  have "capture_inv svc capture_deadline (call_log io)
      \<lparr>tx_open = True, stats = no_stats zero, captured_pcm = [], forwarded = []\<rparr> io"
    by (simp add: capture_inv_def recorded_def no_stats_def)
  from tripleD [OF triple_capture_loopback this assms(2)] assms(1) show ?thesis
    by (auto simp: capture_post_def capture_fail_def split: sum.splits)
qed

text \<open>A sample that is split over two reads is lost: neither the statistics nor the attenuation see it,
  although the same two bytes in one read are one sample, and an attenuation to silence silences it.\<close>

lemma odd_reads_lose_samples:
  "stat_samples (account add_square (account add_square st [a]) [b]) = stat_samples st \<and>
   stat_samples (account add_square st [a, b]) = stat_samples st + 1 \<and>
   concat (map (attenuate (\<lambda>_. 0)) [[a], [b]]) = [a, b] \<and> concat (map (attenuate (\<lambda>_. 0)) [[a, b]]) = [0, 0]"
  by (simp add: account_def account_sample_def to_le_bytes_i16)

text \<open>The options that describe given arguments, in the order of the usage text.\<close>

definition hfp_render :: "('f \<Rightarrow> string) \<Rightarrow> 'f hfp_args \<Rightarrow> string list" where
  "hfp_render show_float p =
     [''--address'', address p, ''--seconds'', decimal (unat (seconds p)),
      ''--codec'', case codec p of Cvsd \<Rightarrow> ''cvsd'' | Msbc \<Rightarrow> ''msbc'',
      ''--frequency'', show_float (frequency_hz p), ''--loopback-gain'', show_float (loopback_gain p),
      ''--loopback-delay-seconds'', decimal (unat (loopback_delay_seconds p))] @
     (if loopback p then [''--loopback''] else []) @
     (case capture_path p of None \<Rightarrow> [] | Some f \<Rightarrow> [''--capture'', f])"

lemma hfp_options_render:
  assumes "\<And>x. parse_float fl (show_float x) = Some x"
  shows "hfp_options fl (hfp_defaults fl) (hfp_render show_float p) = Inr p"
  by (cases p; cases "codec p"; cases "capture_path p")
    (simp_all add: hfp_render_def hfp_option_def hfp_defaults_def assms codec_parse_def)

text \<open>C35: Printing and parsing the options of the voice test are inverse: the options printed for any
  arguments parse to exactly these arguments if they keep the documented limits, and are refused
  otherwise.\<close>

theorem hfp_options_roundtrip:
  assumes "\<And>x. parse_float fl (show_float x) = Some x"
  shows "(hfp_parse fl (hfp_render show_float p) = Inr p) =
     (address p \<noteq> [] \<and> 0 < unat (seconds p) \<and>
      is_finite fl (frequency_hz p) \<and> \<not> le_zero fl (frequency_hz p) \<and>
      is_finite fl (loopback_gain p) \<and> \<not> le_zero fl (loopback_gain p) \<and> \<not> gt_one fl (loopback_gain p) \<and>
      unat (loopback_delay_seconds p) \<le> 60 \<and> (loopback p \<or> loopback_delay_seconds p = 0))"
  by (auto simp: hfp_parse_def hfp_options_render [OF assms] result_simps word_less_nat_alt unat_gt_0)

theorem hfp_options_roundtrip_witness:
  "hfp_parse (plain_floats\<lparr>parse_float := (\<lambda>s. Some (length s))\<rparr>) (hfp_render (\<lambda>n. replicate n CHR ''1'')
      \<lparr>address = ''AA'', seconds = 20, frequency_hz = 440, loopback = True, loopback_gain = 1,
       loopback_delay_seconds = 10, capture_path = Some ''mic.raw'', codec = Msbc\<rparr>) =
     Inr \<lparr>address = ''AA'', seconds = 20, frequency_hz = 440, loopback = True, loopback_gain = 1,
       loopback_delay_seconds = 10, capture_path = Some ''mic.raw'', codec = Msbc\<rparr>"
  by (subst hfp_options_roundtrip) (simp_all add: plain_floats_def)

end
