(* ===== verification/Pipewire_Adapter.thy ===== *)
theory Pipewire_Adapter
  imports Media_Ring Floss_Control Command_Line
begin

text \<open>
  The PipeWire adapter of \<open>src/wireless/pipewire.rs\<close> and its program \<open>src/bin/dorsche_pipewire.rs\<close>: the two
  real-time callbacks that move PCM between PipeWire buffers and the media ring, the two pumps between
  the ring and the Floss socket, and the program around them.

  PipeWire is not part of the repository: what a callback sees of it is the buffer it dequeued, a list of
  data blocks with their chunk fields. The loops of the pumps and the callbacks are modelled by the round, with
  the results of the socket, of the eventfd and of the clock as arguments; \<open>run_source\<close> interleaves them.
\<close>

section \<open>The adapter\<close>

definition pw_bytes_per_frame :: "PcmConfiguration \<Rightarrow> usize option" where
  "pw_bytes_per_frame pcm =
     (case checked_mul (ucast (bits_per_sample pcm div 8) :: usize) (ucast (channels pcm)) of
        None \<Rightarrow> None
      | Some stride \<Rightarrow> if stride > 0 then Some stride else None)"

datatype AudioFormat = S16LE | S24LE | S32LE

text \<open>\<open>format_pod\<close> up to the serialisation by the PipeWire library; \<^const>\<open>None\<close> is \<open>unreachable!\<close>.\<close>

definition pw_format :: "PcmConfiguration \<Rightarrow> (AudioFormat \<times> u32 \<times> u32) option" where
  "pw_format pcm =
     map_option (\<lambda>f. (f, sample_rate_hz pcm, ucast (channels pcm)))
       (if bits_per_sample pcm = 16 then Some S16LE
        else if bits_per_sample pcm = 24 then Some S24LE
        else if bits_per_sample pcm = 32 then Some S32LE else None)"

text \<open>The descriptor of one PCM interval.\<close>

definition pcm_descriptor :: "PcmConfiguration \<Rightarrow> u64 \<Rightarrow> u64 \<Rightarrow> FrameDescriptor" where
  "pcm_descriptor pcm sequence time_ns =
     (frame_descriptor_new PcmPayload sequence)
       \<lparr>fd_sample_rate_hz := sample_rate_hz pcm, fd_channels := ucast (channels pcm),
        fd_bits_per_sample := ucast (bits_per_sample pcm), fd_capture_time_ns := time_ns\<rparr>"

record spa_data =
  spa_bytes :: "u8 list option"
  chunk_offset :: u32
  chunk_stride :: i32
  chunk_size :: u32

text \<open>
  The process callback of the source. The buffer of PipeWire is \<^const>\<open>None\<close> when none is queued, and a
  list of its data blocks otherwise; only the first one is used. The lease is dropped at the end of the
  match, whatever became of the frame.
\<close>

definition matches_pcm :: "PcmConfiguration \<Rightarrow> FrameDescriptor \<Rightarrow> bool" where
  "matches_pcm pcm d \<longleftrightarrow>
     \<not> (fd_payload_kind d \<noteq> payload_kind_code PcmPayload \<or> fd_sample_rate_hz d \<noteq> sample_rate_hz pcm \<or>
        fd_channels d \<noteq> ucast (channels pcm) \<or> fd_bits_per_sample d \<noteq> ucast (bits_per_sample pcm))"

definition source_copy ::
  "PcmConfiguration \<Rightarrow> u8 list option \<Rightarrow> shm \<Rightarrow> (u8 list option \<times> nat) \<times> shm"
where
  "source_copy pcm dest m =
     (case try_acquire m of
        Inr (Some l) \<Rightarrow>
          (case (dest, lease_payload m l) of
             (Some bytes, Inr payload) \<Rightarrow>
               if \<not> matches_pcm pcm (fl_descriptor l) then ((dest, 0), drop_lease m l)
               else let n = min (length bytes) (length payload)
                    in ((Some (take n payload @ drop n bytes), n), drop_lease m l)
           | _ \<Rightarrow> ((dest, 0), drop_lease m l))
      | _ \<Rightarrow> ((dest, 0), m))"

definition source_process ::
  "PcmConfiguration \<Rightarrow> usize \<Rightarrow> spa_data list option \<Rightarrow> shm \<Rightarrow> spa_data list option \<times> shm"
where
  "source_process pcm stride buffer m =
     (case buffer of
        Some (d # ds) \<Rightarrow>
          let ((bytes, n), m') = source_copy pcm (spa_bytes d) m
          in (Some (\<lparr>spa_bytes = bytes, chunk_offset = 0, chunk_stride = ucast stride, chunk_size = of_nat n\<rparr> # ds), m')
      | _ \<Rightarrow> (buffer, m))"

text \<open>The process callback of the sink, with the outcome of the eventfd write and the time of the frame.\<close>

definition sink_process ::
  "PcmConfiguration \<Rightarrow> write_outcome \<Rightarrow> u64 \<Rightarrow> spa_data list option \<Rightarrow> u64 \<times> shm \<Rightarrow> u64 \<times> shm"
where
  "sink_process pcm w time_ns buffer st =
     (let (sequence, m) = st in
      case buffer of
        Some (d # ds) \<Rightarrow>
          (case spa_bytes d of
             None \<Rightarrow> st
           | Some source \<Rightarrow>
               (case checked_add (ucast (chunk_offset d) :: usize) (ucast (chunk_size d)) of
                  None \<Rightarrow> st
                | Some e \<Rightarrow>
                    if \<not> unat e \<le> length source then st
                    else case try_reserve m of
                      Inr (None, m1) \<Rightarrow> (sequence, m1)
                    | Inr (Some l, m1) \<Rightarrow>
                        (case capacity m1 of
                           Inl _ \<Rightarrow> (sequence, m1)
                         | Inr c \<Rightarrow>
                             if unat (chunk_size d) > c then (sequence, m1)
                             else let payload = take (unat (chunk_size d)) (drop (unat (chunk_offset d)) source) in
                             case fill_payload m1 l payload of
                               Inl _ \<Rightarrow> (sequence, m1)
                             | Inr m2 \<Rightarrow>
                                 (case commit w m2 l (pcm_descriptor pcm sequence time_ns) (length payload) of
                                    (Inr _, m3) \<Rightarrow> (sequence + 1, m3)
                                  | (Inl _, m3) \<Rightarrow> (sequence, m3)))
                    | Inl _ \<Rightarrow> st))
      | _ \<Rightarrow> st)"

section \<open>The pumps\<close>

datatype pump_error =
    RingOverrun
  | PeerReadFailed nat
  | NotPcm
  | HostWriteFailed nat
  | PumpRing ring_error

text \<open>
  One round of \<open>pump_peer_to_ring\<close>: the result of \<open>read_exact\<close> on the payload slice, the outcome of the
  eventfd write and the time of the frame are arguments. The result is the next sequence number.
\<close>

definition pump_peer_to_ring ::
  "PcmConfiguration \<Rightarrow> nat + u8 list \<Rightarrow> write_outcome \<Rightarrow> u64 \<Rightarrow> u64 \<times> shm \<Rightarrow> (pump_error + u64) \<times> shm"
where
  "pump_peer_to_ring pcm peer w time_ns st =
     (let (sequence, m) = st in
      case try_reserve m of
        Inl e \<Rightarrow> (Inl (PumpRing e), m)
      | Inr (None, m1) \<Rightarrow> (Inl RingOverrun, m1)
      | Inr (Some l, m1) \<Rightarrow>
          (case peer of
             Inl e \<Rightarrow> (Inl (PeerReadFailed e), m1)
           | Inr bytes \<Rightarrow>
               (case fill_payload m1 l bytes of
                  Inl e \<Rightarrow> (Inl (PumpRing e), m1)
                | Inr m2 \<Rightarrow>
                    (case commit w m2 l (pcm_descriptor pcm sequence time_ns) (length bytes) of
                       (Inl e, m3) \<Rightarrow> (Inl (PumpRing e), m3)
                     | (Inr _, m3) \<Rightarrow> (Inr (sequence + 1), m3)))))"

text \<open>
  One round of \<open>pump_ring_to_host\<close>: the bytes it wrote to the host socket, \<^const>\<open>None\<close> when the ring was
  empty and it waited. The lease is dropped at the end of the round, also when it fails.
\<close>

definition pump_ring_to_host :: "(u8 list \<Rightarrow> nat option) \<Rightarrow> shm \<Rightarrow> (pump_error + u8 list option) \<times> shm" where
  "pump_ring_to_host write_host m =
     (case try_acquire m of
        Inl e \<Rightarrow> (Inl (PumpRing e), m)
      | Inr None \<Rightarrow> (Inr None, m)
      | Inr (Some l) \<Rightarrow>
          (if fd_payload_kind (fl_descriptor l) \<noteq> payload_kind_code PcmPayload then (Inl NotPcm, drop_lease m l)
           else case lease_payload m l of
             Inl e \<Rightarrow> (Inl (PumpRing e), drop_lease m l)
           | Inr payload \<Rightarrow>
               (case write_host payload of
                  Some e \<Rightarrow> (Inl (HostWriteFailed e), drop_lease m l)
                | None \<Rightarrow> (Inr (Some payload), drop_lease m l))))"

section \<open>The pump and the callback together\<close>

text \<open>
  A run of the source: rounds of the pump and callbacks of PipeWire in any order. The pump stops at its
  first error (its sequence number is then \<^const>\<open>None\<close>); the callbacks go on. The run collects the bytes
  that the pump published and those that PipeWire got.
\<close>

datatype source_event =
    Peer "nat + u8 list" write_outcome u64
  | Callback "spa_data list option"

definition published :: "nat + u8 list \<Rightarrow> pump_error + u64 \<Rightarrow> u8 list" where
  "published peer res =
     (case (peer, res) of
        (Inr bytes, Inr _) \<Rightarrow> bytes
      | (Inr bytes, Inl (PumpRing (SignalFailed _))) \<Rightarrow> bytes
      | _ \<Rightarrow> [])"

definition delivered :: "spa_data list option \<Rightarrow> u8 list" where
  "delivered buffer =
     (case buffer of
        Some (d # _) \<Rightarrow> (case spa_bytes d of Some bytes \<Rightarrow> take (unat (chunk_size d)) bytes | None \<Rightarrow> [])
      | _ \<Rightarrow> [])"

fun run_source ::
  "PcmConfiguration \<Rightarrow> usize \<Rightarrow> source_event list \<Rightarrow> u64 option \<times> shm \<Rightarrow> u8 list \<times> u8 list \<times> shm"
where
  "run_source pcm stride [] (pump, m) = ([], [], m)"
| "run_source pcm stride (Peer peer w time_ns # es) (None, m) = run_source pcm stride es (None, m)"
| "run_source pcm stride (Peer peer w time_ns # es) (Some sequence, m) =
     (let (res, m') = pump_peer_to_ring pcm peer w time_ns (sequence, m);
          (ins, outs, m'') = run_source pcm stride es (case res of Inr s \<Rightarrow> Some s | Inl _ \<Rightarrow> None, m')
      in (published peer res @ ins, outs, m''))"
| "run_source pcm stride (Callback buffer # es) (pump, m) =
     (let (buffer', m') = source_process pcm stride buffer m;
          (ins, outs, m'') = run_source pcm stride es (pump, m')
      in (ins, delivered buffer' @ outs, m''))"

section \<open>One round\<close>

lemma ring_reprD:
  assumes "ring_repr n c m q"
  obtains t where "ring_rel m t q" and "unat (slot_count (decode_header m)) = unat n"
    and "unat (payload_capacity (decode_header m)) = unat c" and "length q \<le> unat n"
  using assms ring.bounded [OF assms] by (auto simp: ring_repr_def)

lemma pump_round:
  assumes r: "ring_repr n c m q" and fit: "length bytes \<le> unat c"
  shows "\<exists>res m'. pump_peer_to_ring pcm (Inr bytes) w time_ns (sequence, m) = (res, m') \<and>
    (if length q < unat n
     then ring_repr n c m' (q @ [(stamp (pcm_descriptor pcm sequence time_ns) (length bytes), bytes)]) \<and>
       published (Inr bytes) res = bytes \<and>
       res = (case signal_eventfd w of Inl e \<Rightarrow> Inl (PumpRing e) | Inr _ \<Rightarrow> Inr (sequence + 1))
     else ring_repr n c m' q \<and> res = Inl RingOverrun)"
proof -
  obtain t where rel: "ring_rel m t q" and n: "unat (slot_count (decode_header m)) = unat n"
    and c: "unat (payload_capacity (decode_header m)) = unat c" and le: "length q \<le> unat n"
    using r by (rule ring_reprD)
  show ?thesis
  proof (cases "length q < unat n")
    case True
    obtain l m1 m' where "try_reserve m = Inr (Some l, m)" "fill_payload m l bytes = Inr m1"
      "commit w m1 l (pcm_descriptor pcm sequence time_ns) (length bytes) = (signal_eventfd w, m')"
      "ring_rel m' t (q @ [(stamp (pcm_descriptor pcm sequence time_ns) (length bytes), bytes)])"
      "decode_header m' = (decode_header m)\<lparr>head := of_nat (t + length q + 1)\<rparr>"
      by (rule reserve_fill_commit [OF rel, of bytes w "pcm_descriptor pcm sequence time_ns"])
        (use True n c fit ring_repr_fits [OF r] in simp_all)
    with r True show ?thesis
      by (cases w) (auto simp: pump_peer_to_ring_def published_def signal_eventfd_def ring_repr_def)
  next
    case False
    with le have full: "length q = unat (slot_count (decode_header m))" using n by simp
    with r False push_full(2) [OF rel full] show ?thesis
      by (auto simp: pump_peer_to_ring_def try_reserve_full [OF rel full] ring_repr_def)
  qed
qed

lemma pump_read_fails:
  assumes r: "ring_repr n c m q"
  shows "\<exists>e m'. pump_peer_to_ring pcm (Inl x) w time_ns (sequence, m) = (Inl e, m') \<and> ring_repr n c m' q"
proof -
  obtain t where rel: "ring_rel m t q" and n: "unat (slot_count (decode_header m)) = unat n"
    and c: "unat (payload_capacity (decode_header m)) = unat c" and le: "length q \<le> unat n"
    using r by (rule ring_reprD)
  show ?thesis
  proof (cases "length q < unat n")
    case True
    then show ?thesis
      using r n try_reserve_room [OF rel] by (simp add: pump_peer_to_ring_def)
  next
    case False
    with le n have full: "length q = unat (slot_count (decode_header m))" by simp
    with r push_full(2) [OF rel full] show ?thesis
      by (auto simp: pump_peer_to_ring_def try_reserve_full [OF rel full] ring_repr_def)
  qed
qed

lemma callback_round:
  assumes r: "ring_repr n c m q" and own: "\<forall>f \<in> set q. matches_pcm pcm (fst f) \<and> length (snd f) \<le> length bytes"
    and d: "spa_bytes d = Some bytes" "length bytes < 2 ^ 32"
  shows "\<exists>buffer' m'. source_process pcm stride (Some (d # ds)) m = (buffer', m') \<and>
    ring_repr n c m' (tl q) \<and> delivered buffer' = (case q of [] \<Rightarrow> [] | f # _ \<Rightarrow> snd f)"
proof -
  obtain t where rel: "ring_rel m t q"
    using r by (rule ring_reprD)
  show ?thesis
  proof (cases q)
    case Nil
    then show ?thesis
      using r acquire_empty rel by (simp add: source_process_def source_copy_def delivered_def d)
  next
    case (Cons f q')
    have f: "matches_pcm pcm (fst f)" "length (snd f) \<le> length bytes" using own Cons by auto
    then have "unat (of_nat (length (snd f)) :: u32) = length (snd f)"
      using d(2) by (simp add: unat_of_nat)
    then show ?thesis
      using acquire_first [OF rel [unfolded Cons]] r f Cons
      by (auto simp: source_process_def source_copy_def delivered_def d ring_repr_def Let_def)
  qed
qed

text \<open>
  What the run relies on: \<open>read_exact\<close> fills at most the slice it was given, and the blocks of PipeWire
  are mapped and hold a whole interval.
\<close>

fun event_fits :: "u32 \<Rightarrow> source_event \<Rightarrow> bool" where
  "event_fits c (Peer (Inr bytes) _ _) = (length bytes \<le> unat c)"
| "event_fits c (Peer (Inl _) _ _) = True"
| "event_fits c (Callback (Some (d # _))) =
     (case spa_bytes d of None \<Rightarrow> False | Some bytes \<Rightarrow> unat c \<le> length bytes \<and> length bytes < 2 ^ 32)"
| "event_fits c (Callback _) = True"

definition own_frames :: "PcmConfiguration \<Rightarrow> u32 \<Rightarrow> frame list \<Rightarrow> bool" where
  "own_frames pcm c q \<longleftrightarrow> (\<forall>f \<in> set q. matches_pcm pcm (fst f) \<and> length (snd f) \<le> unat c)"

lemma own_frames_simps [simp]:
  "own_frames pcm c []"
  "own_frames pcm c (q @ [(stamp (pcm_descriptor pcm s t) n, bytes)]) \<longleftrightarrow>
     own_frames pcm c q \<and> length bytes \<le> unat c"
  by (auto simp: own_frames_def matches_pcm_def stamp_def pcm_descriptor_def frame_descriptor_new_def)

lemma own_frames_tl: "own_frames pcm c q \<Longrightarrow> own_frames pcm c (tl q)"
  by (cases q) (simp_all add: own_frames_def)

lemma run_source_exact:
  assumes "ring_repr n c m q" and "own_frames pcm c q" and "list_all (event_fits c) es"
    and "run_source pcm stride es (pump, m) = (ins, outs, m')"
  shows "\<exists>q'. ring_repr n c m' q' \<and> concat (map snd q) @ ins = outs @ concat (map snd q')"
  using assms
proof (induction es arbitrary: m q pump ins outs m')
  case Nil
  then show ?case by auto
next
  case (Cons e es)
  show ?case
  proof (cases e)
    case (Peer peer w time_ns)
    show ?thesis
    proof (cases pump)
      case None
      then show ?thesis using Cons Peer by simp
    next
      case (Some sequence)
      obtain res m1 where round: "pump_peer_to_ring pcm peer w time_ns (sequence, m) = (res, m1)" by fastforce
      obtain ins1 outs1 m2 where rest:
          "run_source pcm stride es (case res of Inr s \<Rightarrow> Some s | Inl _ \<Rightarrow> None, m1) = (ins1, outs1, m2)"
        by (metis prod_cases3)
      have out: "ins = published peer res @ ins1" "outs = outs1" "m' = m2"
        using Cons.prems(4) Peer Some round rest by simp_all
      have "\<exists>q1. ring_repr n c m1 q1 \<and> own_frames pcm c q1 \<and>
          concat (map snd q1) = concat (map snd q) @ published peer res"
      proof (cases peer)
        case (Inl x)
        then show ?thesis
          using pump_read_fails [OF Cons.prems(1), of pcm x w time_ns sequence] round Cons.prems(2)
          by (auto simp: published_def)
      next
        case (Inr bytes)
        then have fit: "length bytes \<le> unat c" using Cons.prems(3) Peer by simp
        show ?thesis
          using pump_round [OF Cons.prems(1) fit, of pcm w time_ns sequence] round Cons.prems(2) Inr fit
          by (cases "length q < unat n") (fastforce simp: published_def)+
      qed
      then obtain q1 where q1: "ring_repr n c m1 q1" "own_frames pcm c q1"
        "concat (map snd q1) = concat (map snd q) @ published peer res" by blast
      from Cons.IH [OF q1(1,2) _ rest] Cons.prems(3) q1(3) out show ?thesis by auto
    qed
  next
    case (Callback buffer)
    obtain b1 m1 where round: "source_process pcm stride buffer m = (b1, m1)" by fastforce
    obtain ins1 outs1 m2 where rest: "run_source pcm stride es (pump, m1) = (ins1, outs1, m2)"
      by (metis prod_cases3)
    have out: "ins = ins1" "outs = delivered b1 @ outs1" "m' = m2"
      using Cons.prems(4) Callback round rest by simp_all
    have "\<exists>q1. ring_repr n c m1 q1 \<and> own_frames pcm c q1 \<and>
        concat (map snd q) = delivered b1 @ concat (map snd q1)"
    proof (cases "\<exists>d ds. buffer = Some (d # ds)")
      case True
      then obtain d ds bytes where b: "buffer = Some (d # ds)" and d: "spa_bytes d = Some bytes"
        "unat c \<le> length bytes" "length bytes < 2 ^ 32"
        using Cons.prems(3) Callback by (auto split: option.splits)
      have "\<forall>f \<in> set q. matches_pcm pcm (fst f) \<and> length (snd f) \<le> length bytes"
        using Cons.prems(2) d(2) by (auto simp: own_frames_def)
      from callback_round [OF Cons.prems(1) this d(1,3), of stride ds] round b
      show ?thesis
        using own_frames_tl [OF Cons.prems(2)] by (cases q) auto
    next
      case False
      then have "b1 = buffer" "m1 = m" "delivered buffer = []"
        using round by (auto simp: source_process_def delivered_def split: option.splits list.splits)
      then show ?thesis using Cons.prems(1,2) by auto
    qed
    then obtain q1 where q1: "ring_repr n c m1 q1" "own_frames pcm c q1"
      "concat (map snd q) = delivered b1 @ concat (map snd q1)" by blast
    from Cons.IH [OF q1(1,2) _ rest] Cons.prems(3) q1(3) out show ?thesis by auto
  qed
qed

text \<open>What PipeWire hears is what the peer sent: on a new ring of 16 slots, whatever the order of pump
  rounds and callbacks, the bytes delivered to PipeWire followed by those still queued are exactly the
  bytes that the pump read and published, none lost, repeated or reordered, also after the pump has stopped
  with an error, and at most 16 intervals are queued.\<close>

lemma source_stream_exact:
  assumes "ring_create os a 16 c = Inr m" and "list_all (event_fits c) es"
    and "run_source pcm stride es (Some 0, m) = (ins, outs, m')"
  shows "\<exists>t q. ring_rel m' t q \<and> ins = outs @ concat (map snd q) \<and> length q \<le> 16"
proof -
  have "ring_repr 16 c m []"
    using assms(1) fresh_ring_empty [of 16 c]
    by (auto simp: ring_create_Inr_iff ring_repr_def decode_fresh_ring initial_header_def)
  from run_source_exact [OF this _ assms(2,3)] obtain q where q: "ring_repr 16 c m' q"
    "ins = outs @ concat (map snd q)" by auto
  with ring.bounded [OF q(1)] show ?thesis by (auto simp: ring_repr_def)
qed

section \<open>The program\<close>

record pw_args =
  pw_adapter :: u32
  pw_group_id :: i32
  pw_direction :: StreamDirection
  pw_node_name :: string
  pw_probe :: bool

record pw_parsed =
  pp_adapter :: u32
  pp_group_id :: i32
  pp_direction :: "StreamDirection option"
  pp_node_name :: "string option"
  pp_probe :: bool

definition pw_option :: "string \<Rightarrow> (string \<Rightarrow> pw_parsed \<Rightarrow> pw_parsed option) option" where
  "pw_option arg =
     (if arg = ''--adapter'' then Some (\<lambda>v p. map_option (\<lambda>n. p\<lparr>pp_adapter := n\<rparr>) (parse_u32 v))
      else if arg = ''--group'' then Some (\<lambda>v p. map_option (\<lambda>n. p\<lparr>pp_group_id := n\<rparr>) (parse_i32 v))
      else if arg = ''--direction'' then
        Some (\<lambda>v p. if v = ''source'' then Some (p\<lparr>pp_direction := Some Source\<rparr>)
                    else if v = ''sink'' then Some (p\<lparr>pp_direction := Some Sink\<rparr>) else None)
      else if arg = ''--node-name'' then Some (\<lambda>v p. Some (p\<lparr>pp_node_name := Some v\<rparr>))
      else None)"

fun pw_options :: "pw_parsed \<Rightarrow> string list \<Rightarrow> cli_error + pw_parsed" where
  "pw_options p [] = Inr p"
| "pw_options p (arg # rest) =
     (if arg = ''--probe'' then pw_options (p\<lparr>pp_probe := True\<rparr>) rest
      else if arg = ''-h'' \<or> arg = ''--help'' then Inl Help
      else case pw_option arg of
        None \<Rightarrow> Inl (UnknownArgument arg)
      | Some apply_value \<Rightarrow>
          (case rest of
             [] \<Rightarrow> Inl (RequiresValue arg)
           | v # rest' \<Rightarrow>
               (case apply_value v p of
                  None \<Rightarrow> Inl (BadValue arg)
                | Some p' \<Rightarrow> pw_options p' rest')))"

definition pw_parse :: "string list \<Rightarrow> cli_error + pw_args" where
  "pw_parse argv =
     and_then (pw_options \<lparr>pp_adapter = 0, pp_group_id = - 1, pp_direction = None, pp_node_name = None,
                 pp_probe = False\<rparr> argv) (\<lambda>p.
     ensure (pp_probe p \<or> 0 \<le> sint (pp_group_id p))
       (Refused ''--group is required and must be non-negative'') (
     and_then (if pp_probe p then Inr Source
               else ok_or (pp_direction p) (Refused ''--direction is required'')) (\<lambda>d.
     Inr \<lparr>pw_adapter = pp_adapter p, pw_group_id = pp_group_id p, pw_direction = d,
          pw_node_name = (case pp_node_name p of Some n \<Rightarrow> n | None \<Rightarrow> ''dorsche.le_audio''),
          pw_probe = pp_probe p\<rparr>)))"

datatype pw_error =
    PwOptions cli_error
  | PwProbeFailed nat
  | PwBusFailed nat
  | PwFloss floss_error
  | PwNoPcmConfig
  | PwTypes types_error
  | PwRing ring_error
  | PwPump pump_error
  | PwSignal nat

text \<open>
  The main program. Arguments stand for the PipeWire probe, the connection to D-Bus, the system calls of
  the ring, the address of its mapping, and for how the pump or the signal handler ended.
\<close>

definition pw_main ::
  "('w, 'v) floss_service \<Rightarrow> (nat + unit) \<Rightarrow> (nat + unit) \<Rightarrow> os \<Rightarrow> nat \<Rightarrow> (shm \<Rightarrow> pw_error + unit) \<Rightarrow>
   string list \<Rightarrow> ('w io, pw_error, unit) act"
where
  "pw_main svc probed bus os addr ended argv =
     seq (from_result (map_err PwOptions (pw_parse argv))) (\<lambda>args.
     if pw_probe args
     then seq (from_result (map_err PwTypes (pcm_validate stereo_48k))) (\<lambda>_.
          from_result (map_err PwProbeFailed probed))
     else
     seq (from_result (map_err PwBusFailed bus)) (\<lambda>_.
     seq (with_error PwFloss (start_software_unicast svc (with_connection (pw_adapter args)) (pw_group_id args)
            (case pw_direction args of Source \<Rightarrow> INPUT | Sink \<Rightarrow> OUTPUT))) (\<lambda>p.
     seq (from_result (map_err PwFloss (take_stream p))) (\<lambda>(st, p).
     seq (from_result (ok_or (case pw_direction args of Source \<Rightarrow> peer_pcm p | Sink \<Rightarrow> host_pcm p) PwNoPcmConfig)) (\<lambda>pcm.
     seq (from_result (map_err PwTypes (bytes_per_interval pcm))) (\<lambda>bytes.
     seq (from_result (map_err PwRing (ring_create os addr 16 (ucast bytes)))) (\<lambda>m.
     seq (attempt (floss_stop svc (with_connection (pw_adapter args)) p)) (\<lambda>stop_result.
     seq (from_result (ended m)) (\<lambda>_.
     from_result (map_err PwFloss stop_result))))))))))"

text \<open>When the ring cannot be created the program exits with the microphone stream running: it has
  started the stream and returns the error of the ring without asking Floss to stop it.\<close>

lemma pw_ring_failure_leaves_stream:
  "\<exists>io'. pw_main good_service (Inr ()) (Inr ()) (\<lambda>c. if c = MemfdCreate then Some 24 else None) 4096 (\<lambda>_. Inr ())
      [''--group'', decimal 3, ''--direction'', ''source''] idle_io =
      Some (Inl (PwRing (OsError MemfdCreate 24)), io') \<and> open_is False True io'"
proof -
  have args: "pw_parse [''--group'', decimal 3, ''--direction'', ''source''] =
      Inr \<lparr>pw_adapter = 0, pw_group_id = 3, pw_direction = Source, pw_node_name = ''dorsche.le_audio'',
           pw_probe = False\<rparr>"
    by (simp add: pw_parse_def pw_option_def parse_i32_nonneg)
  have ring: "ring_create (\<lambda>c. if c = MemfdCreate then Some 24 else None) 4096 16 1920 =
      Inl (OsError MemfdCreate 24)"
    by (simp add: ring_create_def create_memfd_def os_run_def checked_add_def checked_mul_def align_up_def
        CACHE_LINE_def)
  show ?thesis
    using good_config
    by (simp add: pw_main_def args floss_exec INPUT_def idle_io_def good_service_def take_stream_def
        stereo_48k_bytes ring open_is_def dir_open_def)
qed

end
