(* ===== verification/Pcm_Buffer.thy ===== *)
theory Pcm_Buffer
  imports Dorsche_Prelude
begin

text \<open>
  PCM in byte buffers, as the test programs handle it: copying a sample into every channel of a frame
  (\<open>write_sample\<close> in \<open>src/bin/floss_le_audio_smoke.rs\<close>, the loop of \<open>write_test_tone\<close> in
  \<open>src/bin/floss_audio_smoke.rs\<close>) and cutting a buffer into pieces (\<open>chunks\<close> and \<open>chunks_exact\<close>).
\<close>

section \<open>Filling a buffer\<close>

text \<open>Copying into a slice of a buffer; \<^const>\<open>None\<close> is the panic of a range out of bounds.\<close>

definition copy_at :: "u8 list \<Rightarrow> nat \<Rightarrow> u8 list \<Rightarrow> u8 list option" where
  "copy_at buffer offset bs =
     (if offset + length bs \<le> length buffer
      then Some (take offset buffer @ bs @ drop (offset + length bs) buffer) else None)"

text \<open>
  One sample, encoded as \<open>sample\<close>, into every channel of a frame, and the frames of an interval one after
  the other: \<open>enc\<close> gives the encoding of the sample at an index.
\<close>

definition copy_frame :: "nat \<Rightarrow> nat \<Rightarrow> u8 list \<Rightarrow> nat \<Rightarrow> u8 list \<Rightarrow> u8 list option" where
  "copy_frame chans width buffer frame sample =
     foldl (\<lambda>b channel. Option.bind b (\<lambda>buffer. copy_at buffer ((frame * chans + channel) * width) sample))
       (Some buffer) [0..<chans]"

definition fill_frames :: "nat \<Rightarrow> nat \<Rightarrow> (nat \<Rightarrow> u8 list) \<Rightarrow> nat \<Rightarrow> nat \<Rightarrow> u8 list \<Rightarrow> u8 list option" where
  "fill_frames chans width enc start frames buffer =
     foldl (\<lambda>b frame. Option.bind b (\<lambda>buffer. copy_frame chans width buffer frame (enc (start + frame))))
       (Some buffer) [0..<frames]"

section \<open>Cutting a buffer\<close>

function chunks_exact :: "nat \<Rightarrow> 'a list \<Rightarrow> 'a list list" where
  "chunks_exact n xs = (if n = 0 \<or> length xs < n then [] else take n xs # chunks_exact n (drop n xs))"
  by pat_completeness auto
termination by (relation "measure (\<lambda>(n, xs). length xs)") auto

declare chunks_exact.simps [simp del]

function chunks :: "nat \<Rightarrow> 'a list \<Rightarrow> 'a list list" where
  "chunks n xs = (if n = 0 \<or> xs = [] then [] else take n xs # chunks n (drop n xs))"
  by pat_completeness auto
termination by (relation "measure (\<lambda>(n, xs). length xs)") auto

declare chunks.simps [simp del]

section \<open>Lemmas\<close>

lemma copy_at_end:
  "length pre = offset \<Longrightarrow> length bs \<le> length rest \<Longrightarrow>
   copy_at (pre @ rest) offset bs = Some (pre @ bs @ drop (length bs) rest)"
  by (simp add: copy_at_def)

lemma copy_frame_end:
  assumes e: "length e = width" and "length pre = frame * chans * width" and "chans * width \<le> length rest"
  shows "copy_frame chans width (pre @ rest) frame e =
    Some (pre @ concat (replicate chans e) @ drop (chans * width) rest)"
proof -
  have "foldl (\<lambda>b channel. Option.bind b (\<lambda>buffer. copy_at buffer ((frame * chans + channel) * width) e))
      (Some (pre @ rest)) [0..<k] = Some (pre @ concat (replicate k e) @ drop (k * width) rest)"
    if "k \<le> chans" for k
    using that
  proof (induction k)
    case (Suc k)
    have "k * width + width \<le> chans * width"
      using Suc.prems mult_le_mono1 [of "Suc k" chans width] by simp
    then have "copy_at ((pre @ concat (replicate k e)) @ drop (k * width) rest) ((frame * chans + k) * width) e =
        Some ((pre @ concat (replicate k e)) @ e @ drop (length e) (drop (k * width) rest))"
      using assms(2,3) e by (intro copy_at_end) (simp_all add: length_concat sum_list_replicate algebra_simps)
    moreover have "concat (replicate k e) @ e = concat (replicate (Suc k) e)"
      by (simp flip: replicate_append_same)
    ultimately show ?case
      using Suc e by (simp add: drop_drop add.commute replicate_append_same [symmetric])
  qed simp
  from this [of chans] show ?thesis by (simp add: copy_frame_def)
qed

lemma fill_frames_exact:
  assumes len: "\<And>i. length (enc i) = width" and "length buffer = frames * chans * width"
  shows "fill_frames chans width enc start frames buffer =
    Some (concat (map (\<lambda>i. concat (replicate chans (enc (start + i)))) [0..<frames]))"
proof -
  let ?enc = "\<lambda>i. concat (replicate chans (enc (start + i)))"
  have n: "length (?enc i) = chans * width" for i
    by (simp add: length_concat sum_list_replicate len)
  have "foldl (\<lambda>b frame. Option.bind b (\<lambda>buffer. copy_frame chans width buffer frame (enc (start + frame))))
      (Some buffer) [0..<k] = Some (concat (map ?enc [0..<k]) @ drop (k * (chans * width)) buffer)"
    if "k \<le> frames" for k
    using that
  proof (induction k)
    case (Suc k)
    have "k * (chans * width) + chans * width \<le> length buffer"
      using Suc.prems assms(2) mult_le_mono1 [of "Suc k" frames "chans * width"] by (simp add: mult.assoc)
    then have "copy_frame chans width (concat (map ?enc [0..<k]) @ drop (k * (chans * width)) buffer) k (enc (start + k)) =
        Some (concat (map ?enc [0..<k]) @ ?enc k @ drop (chans * width) (drop (k * (chans * width)) buffer))"
      using n by (intro copy_frame_end [OF len]) (simp_all add: length_concat o_def sum_list_triv mult.assoc)
    with Suc show ?case by (simp add: drop_drop add.commute)
  qed simp
  from this [of frames] show ?thesis
    using assms(2) by (simp add: fill_frames_def mult.assoc)
qed

lemma chunks_exact_concat:
  "0 < n \<Longrightarrow> \<forall>x \<in> set xs. length x = n \<Longrightarrow> chunks_exact n (concat xs) = xs"
proof (induction xs)
  case Nil
  then show ?case by (subst chunks_exact.simps) simp
next
  case (Cons x xs)
  then show ?case by (subst chunks_exact.simps) simp
qed

lemma length_chunks_exact: "0 < n \<Longrightarrow> length (chunks_exact n xs) = length xs div n"
proof (induction n xs rule: chunks_exact.induct)
  case (1 n xs)
  then show ?case
    by (subst chunks_exact.simps) (simp add: le_div_geq)
qed

lemma concat_chunks: "0 < n \<Longrightarrow> concat (chunks n xs) = xs"
proof (induction n xs rule: chunks.induct)
  case (1 n xs)
  then show ?case by (subst chunks.simps) simp
qed

lemma take_chunks: "0 < n \<Longrightarrow> concat (take k (chunks n xs)) = take (k * n) xs"
proof (induction n xs arbitrary: k rule: chunks.induct)
  case (1 n xs)
  show ?case
  proof (cases k)
    case (Suc j)
    with 1 show ?thesis by (subst chunks.simps) (simp add: take_add)
  qed simp
qed

end
