(* ===== verification/Le_Audio_Smoke.thy ===== *)
theory Le_Audio_Smoke
  imports Pipewire_Adapter Pcm_Buffer
begin

text \<open>
  The LE Audio test of \<open>src/bin/floss_le_audio_smoke.rs\<close>: its options, the PCM samples it writes and reads,
  the tone, the capture through a media ring, and the program around them.

  The \<open>f64\<close> arithmetic is an argument: \<open>quantize\<close> gives the integer of the tone at a sample index, and
  samples are decoded to the integer that the source then scales. The socket, the capture file and the
  eventfd appear by the outcomes of the calls on them, one per interval.
\<close>

section \<open>Options\<close>

datatype Mode = Output | Input | Duplex

record 'f le_args =
  le_adapter :: u32
  le_group_id :: i32
  le_seconds :: u64
  le_frequency_hz :: 'f
  le_mode :: Mode
  le_capture :: "string option"

definition le_option :: "'f float_text \<Rightarrow> string \<Rightarrow> (string \<Rightarrow> 'f le_args \<Rightarrow> 'f le_args option) option" where
  "le_option fl arg =
     (if arg = ''--adapter'' then Some (\<lambda>v p. map_option (\<lambda>n. p\<lparr>le_adapter := n\<rparr>) (parse_u32 v))
      else if arg = ''--group'' then Some (\<lambda>v p. map_option (\<lambda>n. p\<lparr>le_group_id := n\<rparr>) (parse_i32 v))
      else if arg = ''--seconds'' then Some (\<lambda>v p. map_option (\<lambda>n. p\<lparr>le_seconds := n\<rparr>) (parse_u64 v))
      else if arg = ''--frequency'' then
        Some (\<lambda>v p. map_option (\<lambda>x. p\<lparr>le_frequency_hz := x\<rparr>) (parse_float fl v))
      else if arg = ''--mode'' then
        Some (\<lambda>v p. if v = ''output'' then Some (p\<lparr>le_mode := Output\<rparr>)
                    else if v = ''input'' then Some (p\<lparr>le_mode := Input\<rparr>)
                    else if v = ''duplex'' then Some (p\<lparr>le_mode := Duplex\<rparr>) else None)
      else if arg = ''--capture'' then Some (\<lambda>v p. Some (p\<lparr>le_capture := Some v\<rparr>))
      else None)"

fun le_options :: "'f float_text \<Rightarrow> 'f le_args \<Rightarrow> string list \<Rightarrow> cli_error + 'f le_args" where
  "le_options fl p [] = Inr p"
| "le_options fl p (arg # rest) =
     (if arg = ''-h'' \<or> arg = ''--help'' then Inl Help
      else case le_option fl arg of
        None \<Rightarrow> Inl (UnknownArgument arg)
      | Some apply_value \<Rightarrow>
          (case rest of
             [] \<Rightarrow> Inl (RequiresValue arg)
           | v # rest' \<Rightarrow>
               (case apply_value v p of
                  None \<Rightarrow> Inl (BadValue arg)
                | Some p' \<Rightarrow> le_options fl p' rest')))"

definition le_parse :: "'f float_text \<Rightarrow> string list \<Rightarrow> cli_error + 'f le_args" where
  "le_parse fl argv =
     and_then (le_options fl \<lparr>le_adapter = 0, le_group_id = - 1, le_seconds = 10,
                 le_frequency_hz = tone_440 fl, le_mode = Duplex, le_capture = None\<rparr> argv) (\<lambda>p.
     ensure (0 \<le> sint (le_group_id p)) (Refused ''--group is required and must be non-negative'') (
     ensure (le_seconds p > 0) (Refused ''--seconds must be positive'') (
     ensure (is_finite fl (le_frequency_hz p) \<and> \<not> le_zero fl (le_frequency_hz p))
       (Refused ''--frequency must be positive'') (Inr p))))"

fun le_directions :: "Mode \<Rightarrow> FlossLeDirections" where
  "le_directions Output = OUTPUT"
| "le_directions Input = INPUT"
| "le_directions Duplex = FULL_DUPLEX"

section \<open>Samples\<close>

text \<open>
  \<open>write_sample\<close> on the integer of the sample: the conversion from \<open>f64\<close> is the argument
  \<open>quantize\<close> of the tone below.
\<close>

definition write_sample :: "nat \<Rightarrow> nat \<Rightarrow> u8 list \<Rightarrow> nat \<Rightarrow> u64 \<Rightarrow> u8 list option" where
  "write_sample chans bits buffer frame integer =
     copy_frame chans (bits div 8) buffer frame (take (bits div 8) (to_le_bytes integer))"

text \<open>One interval of \<open>write_tone\<close>: the samples \<open>quantize start\<close>, \<open>quantize (start + 1)\<close>, and so on.\<close>

definition tone_interval :: "nat \<Rightarrow> nat \<Rightarrow> (nat \<Rightarrow> u64) \<Rightarrow> nat \<Rightarrow> nat \<Rightarrow> u8 list \<Rightarrow> u8 list option" where
  "tone_interval chans bits quantize start frames buffer =
     foldl (\<lambda>b frame. Option.bind b (\<lambda>buffer. write_sample chans bits buffer frame (quantize (start + frame))))
       (Some buffer) [0..<frames]"

datatype le_error =
    LeOptions cli_error
  | LeBusFailed nat
  | LeFloss floss_error
  | LeTypes types_error
  | UnwrapNone
  | IndexPanic
  | ToneWriteFailed nat
  | ToneShutdownFailed nat
  | CaptureRing ring_error
  | CaptureRingOverrun
  | PeerPcmReadFailed nat
  | FrameNotVisible
  | CaptureFileFailed nat
  | UnsupportedPcmWidth nat

definition decode_sample :: "nat \<Rightarrow> u8 list \<Rightarrow> le_error + int" where
  "decode_sample bits s =
     (if bits = 16 then Inr (sint (from_le_bytes [s ! 0, s ! 1] :: 16 word))
      else if bits = 24 then
        Inr (sint (from_le_bytes [s ! 0, s ! 1, s ! 2, if and (s ! 2) 0x80 = 0 then 0 else 0xFF] :: 32 word))
      else if bits = 32 then Inr (sint (from_le_bytes [s ! 0, s ! 1, s ! 2, s ! 3] :: 32 word))
      else Inl (UnsupportedPcmWidth bits))"

definition decode_samples :: "u8 list \<Rightarrow> nat \<Rightarrow> (le_error + int) list" where
  "decode_samples bytes bits = map (decode_sample bits) (chunks_exact (bits div 8) bytes)"

section \<open>Playing the tone\<close>

text \<open>
  \<open>write_tone\<close> on the outcomes of the writes (\<^const>\<open>None\<close> is success): the bytes written so far and the
  result. The buffer is reused from one interval to the next.
\<close>

fun tone_intervals ::
  "PcmConfiguration \<Rightarrow> (nat \<Rightarrow> u64) \<Rightarrow> nat \<Rightarrow> nat \<Rightarrow> u8 list \<Rightarrow> nat option list \<Rightarrow> u8 list \<times> (le_error + unit)"
where
  "tone_intervals pcm quantize frames start buffer [] = ([], Inr ())"
| "tone_intervals pcm quantize frames start buffer (w # ws) =
     (case tone_interval (unat (channels pcm)) (unat (bits_per_sample pcm)) quantize start frames buffer of
        None \<Rightarrow> ([], Inl IndexPanic)
      | Some buffer' \<Rightarrow>
          (case w of
             Some e \<Rightarrow> ([], Inl (ToneWriteFailed e))
           | None \<Rightarrow>
               let (out, r) = tone_intervals pcm quantize frames (start + frames) buffer' ws
               in (buffer' @ out, r)))"

definition write_tone ::
  "PcmConfiguration \<Rightarrow> (nat \<Rightarrow> u64) \<Rightarrow> u64 \<Rightarrow> (nat \<Rightarrow> nat option) \<Rightarrow> nat + unit \<Rightarrow> u8 list \<times> (le_error + u64)"
where
  "write_tone pcm quantize secs writes closed =
     (case bytes_per_interval pcm of
        Inl e \<Rightarrow> ([], Inl (LeTypes e))
      | Inr bytes \<Rightarrow>
          let frames = unat bytes div unat (channels pcm) div (unat (bits_per_sample pcm) div 8);
              intervals = secs * 1000000 div ucast (data_interval_us pcm);
              (out, r) = tone_intervals pcm quantize frames 0 (replicate (unat bytes) 0)
                (map writes [0..<unat intervals])
          in (out, and_then r (\<lambda>_. and_then (map_err ToneShutdownFailed closed) (\<lambda>_. Inr (intervals * bytes)))))"

section \<open>Capturing the peer\<close>

text \<open>
  The state of \<open>capture_peer\<close>: the ring, the capture file, and the statistics. One interval has the outcome
  of the read, of the eventfd write and of the write to the file (\<^const>\<open>None\<close> is success), and the
  time of the frame. The lease is dropped at the end of the interval.
\<close>

record 'd le_capture =
  le_ring :: shm
  le_file :: "u8 list"
  le_stats :: 'd
  le_samples :: u64

record le_interval =
  peer_read :: "nat + u8 list"
  ring_signal :: write_outcome
  file_write :: "nat option"
  frame_time :: u64

fun account_samples :: "('d \<Rightarrow> int \<Rightarrow> 'd) \<Rightarrow> (le_error + int) list \<Rightarrow> 'd \<times> u64 \<Rightarrow> le_error + 'd \<times> u64" where
  "account_samples f [] st = Inr st"
| "account_samples f (s # ss) (d, n) = and_then s (\<lambda>v. account_samples f ss (f d v, n + 1))"

definition capture_interval ::
  "PcmConfiguration \<Rightarrow> bool \<Rightarrow> ('d \<Rightarrow> int \<Rightarrow> 'd) \<Rightarrow> u64 \<Rightarrow> le_interval \<Rightarrow> 'd le_capture \<Rightarrow> le_error + 'd le_capture"
where
  "capture_interval pcm has_file f sequence iv st =
     and_then (map_err CaptureRing (try_reserve (le_ring st))) (\<lambda>(slot, m).
     and_then (ok_or slot CaptureRingOverrun) (\<lambda>l.
     and_then (map_err PeerPcmReadFailed (peer_read iv)) (\<lambda>bytes.
     and_then (map_err CaptureRing (fill_payload m l bytes)) (\<lambda>m1.
     let (r, m2) = commit (ring_signal iv) m1 l (pcm_descriptor pcm sequence (frame_time iv)) (length bytes) in
     and_then (map_err CaptureRing r) (\<lambda>_.
     and_then (map_err CaptureRing (try_acquire m2)) (\<lambda>acquired.
     and_then (ok_or acquired FrameNotVisible) (\<lambda>lease.
     and_then (map_err CaptureRing (lease_payload m2 lease)) (\<lambda>payload.
     and_then (if has_file then (case file_write iv of Some e \<Rightarrow> Inl (CaptureFileFailed e) | None \<Rightarrow> Inr ())
               else Inr ()) (\<lambda>_.
     and_then (account_samples f (decode_samples payload (unat (bits_per_sample pcm))) (le_stats st, le_samples st))
       (\<lambda>(d, n).
     Inr \<lparr>le_ring = drop_lease m2 lease, le_file = (if has_file then le_file st @ payload else le_file st),
          le_stats = d, le_samples = n\<rparr>))))))))))"

fun capture_intervals ::
  "PcmConfiguration \<Rightarrow> bool \<Rightarrow> ('d \<Rightarrow> int \<Rightarrow> 'd) \<Rightarrow> u64 \<Rightarrow> le_interval list \<Rightarrow> 'd le_capture \<Rightarrow> le_error + 'd le_capture"
where
  "capture_intervals pcm has_file f sequence [] st = Inr st"
| "capture_intervals pcm has_file f sequence (iv # ivs) st =
     and_then (capture_interval pcm has_file f sequence iv st) (\<lambda>st'.
     capture_intervals pcm has_file f (sequence + 1) ivs st')"

definition capture_peer ::
  "os \<Rightarrow> nat \<Rightarrow> PcmConfiguration \<Rightarrow> u64 \<Rightarrow> bool \<Rightarrow> nat + unit \<Rightarrow> 'd \<Rightarrow> ('d \<Rightarrow> int \<Rightarrow> 'd) \<Rightarrow> (nat \<Rightarrow> le_interval) \<Rightarrow>
   le_error + u64 \<times> 'd le_capture"
where
  "capture_peer os addr pcm secs has_file created zero f events =
     and_then (map_err LeTypes (bytes_per_interval pcm)) (\<lambda>bytes.
     let intervals = secs * 1000000 div ucast (data_interval_us pcm) in
     and_then (map_err CaptureRing (ring_create os addr 8 (ucast bytes))) (\<lambda>m.
     and_then (if has_file then map_err CaptureFileFailed created else Inr ()) (\<lambda>_.
     and_then (capture_intervals pcm has_file f 0 (map events [0..<unat intervals])
                \<lparr>le_ring = m, le_file = [], le_stats = zero, le_samples = 0\<rparr>) (\<lambda>st.
     Inr (intervals * bytes, st)))))"

section \<open>The main program\<close>

text \<open>
  The two halves appear by their results. In the duplex mode the failure of a half leaves the whole
  program, before the data path is stopped.
\<close>

definition le_main ::
  "('w, 'v) floss_service \<Rightarrow> nat + unit \<Rightarrow> 'f float_text \<Rightarrow> (PcmConfiguration \<Rightarrow> 'f le_args \<Rightarrow> le_error + u64) \<Rightarrow>
   (PcmConfiguration \<Rightarrow> 'f le_args \<Rightarrow> le_error + u64) \<Rightarrow> string list \<Rightarrow> ('w io, le_error, unit) act"
where
  "le_main svc bus fl tone_half capture_half argv =
     seq (from_result (map_err LeOptions (le_parse fl argv))) (\<lambda>args.
     seq (from_result (map_err LeBusFailed bus)) (\<lambda>_.
     seq (with_error LeFloss (group_status svc (with_connection (le_adapter args)) (le_group_id args))) (\<lambda>_.
     seq (with_error LeFloss (start_software_unicast svc (with_connection (le_adapter args)) (le_group_id args)
            (le_directions (le_mode args)))) (\<lambda>p.
     seq (from_result (map_err LeFloss (take_stream p))) (\<lambda>(st, p).
     seq (case le_mode args of
            Output \<Rightarrow> seq (from_result (ok_or (host_pcm p) UnwrapNone)) (\<lambda>pcm. pure (tone_half pcm args))
          | Input \<Rightarrow> seq (from_result (ok_or (peer_pcm p) UnwrapNone)) (\<lambda>pcm. pure (capture_half pcm args))
          | Duplex \<Rightarrow>
              seq (from_result (ok_or (host_pcm p) UnwrapNone)) (\<lambda>host.
              seq (from_result (ok_or (peer_pcm p) UnwrapNone)) (\<lambda>peer.
              seq (from_result (tone_half host args)) (\<lambda>played.
              seq (from_result (capture_half peer args)) (\<lambda>captured.
              pure (Inr (played + captured))))))) (\<lambda>io_result.
     seq (attempt (floss_stop svc (with_connection (le_adapter args)) p)) (\<lambda>stop_result.
     seq (from_result io_result) (\<lambda>_.
     seq (from_result (map_err LeFloss stop_result)) (\<lambda>_. pure ())))))))))"

section \<open>Samples survive the buffer\<close>

lemma tone_interval_exact:
  assumes "width = bits div 8" and "width \<le> 8" and "length buffer = frames * chans * width"
  shows "tone_interval chans bits quantize start frames buffer =
    Some (concat (map (\<lambda>i. concat (replicate chans (take width (to_le_bytes (quantize (start + i)))))) [0..<frames]))"
proof -
  have "tone_interval chans bits quantize start frames buffer =
      fill_frames chans width (\<lambda>i. take width (to_le_bytes (quantize i))) start frames buffer"
    by (simp add: tone_interval_def fill_frames_def write_sample_def assms(1))
  also have "\<dots> = Some (concat (map (\<lambda>i. concat (replicate chans (take width (to_le_bytes (quantize (start + i)))))) [0..<frames]))"
    by (rule fill_frames_exact) (use assms(2,3) in simp_all)
  finally show ?thesis .
qed

lemma take_nat_le: "k \<le> n \<Longrightarrow> take k (nat_le n v) = nat_le k v"
proof (induction n arbitrary: k v)
  case (Suc n)
  then show ?case by (cases k) simp_all
qed simp

lemma sint_word_of_int:
  assumes "- (2 ^ (LENGTH('a) - 1)) \<le> v" and "v < 2 ^ (LENGTH('a) - 1)"
  shows "sint (word_of_int v :: 'a::len word) = v"
  using assms by (simp add: signed_of_int signed_take_bit_int_eq_self)

lemma sign_bit: "and (b :: u8) 0x80 = 0 \<longleftrightarrow> unat b < 128"
proof -
  have "and b 0x80 = 0 \<longleftrightarrow> \<not> bit b 7"
    using and_exp_eq_0_iff_not_bit [of b 7] by simp
  also have "\<dots> \<longleftrightarrow> even (unat b div 128)"
  proof -
    have "bit (unat b) 7 \<longleftrightarrow> bit b 7" by (simp add: bit_unsigned_iff)
    then have "bit b 7 \<longleftrightarrow> odd (unat b div 128)" by (simp add: bit_iff_odd [of "unat b"])
    then show ?thesis by blast
  qed
  also have "\<dots> \<longleftrightarrow> unat b < 128"
  proof -
    have "unat b div 128 = 0 \<or> unat b div 128 = 1"
      using unat_u8_less [of b] by linarith
    then show ?thesis by (auto simp: div_eq_0_iff)
  qed
  finally show ?thesis .
qed

lemma of_nat_low_bits:
  assumes "LENGTH('a) \<le> 64" and "int n = v mod 2 ^ 64"
  shows "(of_nat n :: 'a::len word) = word_of_int v"
proof -
  have "(2 :: int) ^ LENGTH('a) dvd 2 ^ 64" using assms(1) by (rule le_imp_power_dvd)
  then have "take_bit LENGTH('a) (v mod 2 ^ 64) = take_bit LENGTH('a) v"
    by (simp only: take_bit_eq_mod mod_mod_cancel)
  then have "(word_of_int (v mod 2 ^ 64) :: 'a word) = word_of_int v"
    by (simp only: word_of_int_eq_iff)
  then show ?thesis using assms(2) by (metis of_int_of_nat_eq)
qed

lemma from_le_bytes_low:
  assumes "LENGTH('a) = 8 * k" and "k \<le> 8" and "int n = v mod 2 ^ 64"
  shows "(from_le_bytes (nat_le k n) :: 'a::len word) = word_of_int v"
proof -
  have "(256 :: nat) ^ k = 2 ^ LENGTH('a)" by (simp add: assms(1) power_mult)
  then have "(from_le_bytes (nat_le k n) :: 'a word) = of_nat (n mod 2 ^ LENGTH('a))"
    by (simp add: from_le_bytes_def le_nat_nat_le)
  also have "\<dots> = of_nat n" by (simp add: word_of_nat_eq_iff take_bit_eq_mod)
  also have "\<dots> = word_of_int v" by (rule of_nat_low_bits) (use assms in simp_all)
  finally show ?thesis .
qed

lemma top_byte:
  fixes x y z :: nat
  assumes "x < 256" and "y < 256"
  shows "x + 256 * (y + 256 * z) < 8388608 \<longleftrightarrow> z < 128"
proof (cases "z < 128")
  case True
  then have "y + 256 * z \<le> 32767" using assms(2) by simp
  then have "x + 256 * (y + 256 * z) \<le> 8388607" using assms(1) by simp
  with True show ?thesis by simp
next
  case False
  then have "32768 \<le> y + 256 * z" by simp
  then have "8388608 \<le> x + 256 * (y + 256 * z)" by simp
  with False show ?thesis by linarith
qed

lemma sign_extended:
  assumes "- (2 ^ 23) \<le> v" and "v < 2 ^ 23" and n: "int n = v mod 2 ^ 64"
    and abc: "nat_le 3 n = [a, b, c]"
  shows "(from_le_bytes [a, b, c, if and c 0x80 = 0 then 0 else 0xFF] :: 32 word) = word_of_int v"
proof -
  define k where "k = unat a + 256 * (unat b + 256 * unat c)"
  have "k = n mod 2 ^ 24" using le_nat_nat_le [of 3 n] by (simp add: abc k_def)
  then have k: "int k = v mod 2 ^ 24"
    using n by (simp add: zmod_int mod_mod_cancel)
  have c: "unat c < 128 \<longleftrightarrow> k < 8388608"
    unfolding k_def by (rule top_byte [symmetric]) simp_all
  show ?thesis
  proof (cases "0 \<le> v")
    case True
    with assms(2) k have v: "int k = v" by simp
    with assms(2) have "unat c < 128" by (simp add: c)
    then have "(from_le_bytes [a, b, c, if and c 0x80 = 0 then 0 else 0xFF] :: 32 word) = of_nat k"
      by (simp add: sign_bit from_le_bytes_def k_def)
    with v show ?thesis by (metis of_int_of_nat_eq)
  next
    case False
    have "v mod 2 ^ 24 = (v + 2 ^ 24) mod 2 ^ 24" by simp
    also have "\<dots> = v + 2 ^ 24" by (rule mod_pos_pos_trivial) (use False assms(1) in simp_all)
    finally have "v mod 2 ^ 24 = v + 2 ^ 24" .
    with k have v: "int k = v + 2 ^ 24" by simp
    with assms(1) have "\<not> unat c < 128" by (simp add: c)
    then have "(from_le_bytes [a, b, c, if and c 0x80 = 0 then 0 else 0xFF] :: 32 word) = of_nat (k + 255 * 2 ^ 24)"
      by (simp add: sign_bit from_le_bytes_def k_def)
    also have "\<dots> = word_of_int (int (k + 255 * 2 ^ 24))" by simp
    also have "int (k + 255 * 2 ^ 24) = v + 2 ^ 32" using v by simp
    also have "(word_of_int (v + 2 ^ 32) :: 32 word) = word_of_int v" by simp
    finally show ?thesis .
  qed
qed

text \<open>A signed value, cut to its bytes and read again.\<close>

lemma list_of_length:
  "length xs = 2 \<Longrightarrow> \<exists>a b. xs = [a, b]"
  "length xs = 3 \<Longrightarrow> \<exists>a b c. xs = [a, b, c]"
  "length xs = 4 \<Longrightarrow> \<exists>a b c d. xs = [a, b, c, d]"
  by (auto simp: numeral_eq_Suc length_Suc_conv)

lemma decode_encoded:
  assumes bits: "bits = 16 \<or> bits = 24 \<or> bits = 32" and v: "- (2 ^ (bits - 1)) \<le> v" "v < 2 ^ (bits - 1)"
  shows "decode_sample bits (take (bits div 8) (to_le_bytes (word_of_int v :: u64))) = Inr v"
proof -
  define n where "n = unat (word_of_int v :: u64)"
  have n: "int n = v mod 2 ^ 64" by (simp add: n_def unsigned_of_int take_bit_eq_mod)
  have e: "take (bits div 8) (to_le_bytes (word_of_int v :: u64)) = nat_le (bits div 8) n"
    using bits by (auto simp: to_le_bytes_def take_nat_le n_def)
  consider "bits = 16" | "bits = 24" | "bits = 32" using bits by blast
  then show ?thesis
  proof cases
    case 1
    obtain a b where ab: "nat_le 2 n = [a, b]" using list_of_length(1) [of "nat_le 2 n"] by auto
    have "(from_le_bytes (nat_le 2 n) :: 16 word) = word_of_int v"
      by (rule from_le_bytes_low [OF _ _ n]) simp_all
    moreover have "sint (word_of_int v :: 16 word) = v"
      by (rule sint_word_of_int) (use v 1 in simp_all)
    ultimately show ?thesis
      unfolding decode_sample_def e by (simp only: 1) (simp add: ab)
  next
    case 2
    obtain a b c where abc: "nat_le 3 n = [a, b, c]" using list_of_length(2) [of "nat_le 3 n"] by auto
    have "(from_le_bytes [a, b, c, if and c 0x80 = 0 then 0 else 0xFF] :: 32 word) = word_of_int v"
      by (rule sign_extended [OF _ _ n abc]) (use v 2 in simp_all)
    moreover have "sint (word_of_int v :: 32 word) = v"
      by (rule sint_word_of_int) (use v 2 in simp_all)
    ultimately show ?thesis
      unfolding decode_sample_def e by (simp only: 2) (simp add: abc)
  next
    case 3
    obtain a b c d where abcd: "nat_le 4 n = [a, b, c, d]" using list_of_length(3) [of "nat_le 4 n"] by auto
    have "(from_le_bytes (nat_le 4 n) :: 32 word) = word_of_int v"
      by (rule from_le_bytes_low [OF _ _ n]) simp_all
    moreover have "sint (word_of_int v :: 32 word) = v"
      by (rule sint_word_of_int) (use v 3 in simp_all)
    ultimately show ?thesis
      unfolding decode_sample_def e by (simp only: 3) (simp add: abcd)
  qed
qed

text \<open>The bytes of the samples from \<open>start\<close> on, and their decoding.\<close>

definition encoded :: "nat \<Rightarrow> nat \<Rightarrow> (nat \<Rightarrow> int) \<Rightarrow> nat \<Rightarrow> nat \<Rightarrow> u8 list" where
  "encoded chans bits sample start n =
     concat (concat (map (\<lambda>i. replicate chans (take (bits div 8) (to_le_bytes (word_of_int (sample (start + i)) :: u64))))
       [0..<n]))"

definition on_channels :: "nat \<Rightarrow> (nat \<Rightarrow> int) \<Rightarrow> nat \<Rightarrow> int list" where
  "on_channels chans sample n = concat (map (\<lambda>i. replicate chans (sample i)) [0..<n])"

lemma encoded_add:
  "encoded chans bits sample start n @ encoded chans bits sample (start + n) m = encoded chans bits sample start (n + m)"
  by (induction m) (simp_all add: encoded_def add.assoc)

lemma length_encoded: "bits \<le> 64 \<Longrightarrow> length (encoded chans bits sample start n) = n * chans * (bits div 8)"
  by (induction n) (simp_all add: encoded_def length_concat sum_list_replicate algebra_simps)

lemma decode_encoded_tone:
  assumes bits: "bits = 16 \<or> bits = 24 \<or> bits = 32"
    and range: "\<And>i. - (2 ^ (bits - 1)) \<le> sample i \<and> sample i < 2 ^ (bits - 1)"
  shows "decode_samples (encoded chans bits sample 0 n) bits = map Inr (on_channels chans sample n)"
proof -
  let ?e = "\<lambda>i. take (bits div 8) (to_le_bytes (word_of_int (sample i) :: u64))"
  have "chunks_exact (bits div 8) (concat (concat (map (\<lambda>i. replicate chans (?e i)) [0..<n]))) =
      concat (map (\<lambda>i. replicate chans (?e i)) [0..<n])"
    by (rule chunks_exact_concat) (use bits in auto)
  then show ?thesis
    using decode_encoded [OF bits] range
    by (simp add: decode_samples_def encoded_def on_channels_def map_concat o_def)
qed

lemma tone_interval_encoded:
  assumes "bits \<le> 64" and "length buffer = frames * chans * (bits div 8)"
  shows "tone_interval chans bits (\<lambda>i. word_of_int (sample i)) start frames buffer =
    Some (encoded chans bits sample start frames)"
proof -
  have "concat (map (\<lambda>i. concat (replicate chans (f i))) xs) = concat (concat (map (\<lambda>i. replicate chans (f i)) xs))"
    for f :: "nat \<Rightarrow> u8 list" and xs by (induction xs) simp_all
  then show ?thesis
    using tone_interval_exact [OF refl _ assms(2)] assms(1) by (simp add: encoded_def)
qed

lemma tone_intervals_encoded:
  assumes bits: "unat (bits_per_sample pcm) \<le> 64"
    and "length buffer = frames * unat (channels pcm) * (unat (bits_per_sample pcm) div 8)"
  shows "\<exists>k r. tone_intervals pcm (\<lambda>i. word_of_int (sample i)) frames start buffer ws =
      (encoded (unat (channels pcm)) (unat (bits_per_sample pcm)) sample start (k * frames), r) \<and>
    (r = Inr () \<and> k = length ws \<or> (\<exists>e. r = Inl (ToneWriteFailed e) \<and> k < length ws \<and> ws ! k = Some e)) \<and>
    (\<forall>i<k. ws ! i = None)"
  using assms(2)
proof (induction ws arbitrary: start buffer)
  case Nil
  then show ?case by (intro exI [of _ 0]) (simp add: encoded_def)
next
  case (Cons w ws)
  note iv = tone_interval_encoded [OF bits Cons.prems, of sample start]
  show ?case
  proof (cases w)
    case None
    let ?b = "encoded (unat (channels pcm)) (unat (bits_per_sample pcm)) sample start frames"
    obtain k r where k: "tone_intervals pcm (\<lambda>i. word_of_int (sample i)) frames (start + frames) ?b ws =
        (encoded (unat (channels pcm)) (unat (bits_per_sample pcm)) sample (start + frames) (k * frames), r)"
      and r: "r = Inr () \<and> k = length ws \<or> (\<exists>e. r = Inl (ToneWriteFailed e) \<and> k < length ws \<and> ws ! k = Some e)"
      and before: "\<forall>i<k. ws ! i = None"
      using Cons.IH [of ?b "start + frames"] by (auto simp: length_encoded [OF bits])
    then show ?thesis
      by (intro exI [of _ "Suc k"] exI [of _ r]) (auto simp: iv None encoded_add nth_Cons' )
  next
    case (Some e)
    then show ?thesis by (intro exI [of _ 0]) (simp add: iv encoded_def)
  qed
qed

section \<open>Properties\<close>



section \<open>The capture through the ring\<close>

text \<open>What an interval reads, how it fails, and the samples of an interval.\<close>

definition read_bytes :: "le_interval \<Rightarrow> u8 list" where
  "read_bytes iv = (case peer_read iv of Inr bs \<Rightarrow> bs | Inl _ \<Rightarrow> [])"

definition interval_error :: "bool \<Rightarrow> le_interval \<Rightarrow> le_error option" where
  "interval_error has_file iv =
     (case peer_read iv of
        Inl e \<Rightarrow> Some (PeerPcmReadFailed e)
      | Inr _ \<Rightarrow>
          (case signal_eventfd (ring_signal iv) of
             Inl e \<Rightarrow> Some (CaptureRing e)
           | Inr _ \<Rightarrow> if has_file then map_option CaptureFileFailed (file_write iv) else None))"

definition samples_in :: "nat \<Rightarrow> u8 list \<Rightarrow> int list" where
  "samples_in bits bs = map (\<lambda>s. projr (decode_sample bits s)) (chunks_exact (bits div 8) bs)"

lemma account_decoded:
  assumes "bits = 16 \<or> bits = 24 \<or> bits = 32"
  shows "account_samples f (decode_samples bs bits) (d, n) =
    Inr (foldl f d (samples_in bits bs), n + of_nat (length (samples_in bits bs)))"
proof -
  have "account_samples f (map (decode_sample bits) ss) (d, n) =
      Inr (foldl f d (map (\<lambda>s. projr (decode_sample bits s)) ss), n + of_nat (length ss))" for ss d n
    using assms by (induction ss arbitrary: d n) (auto simp: decode_sample_def algebra_simps)
  from this [of _ d n] show ?thesis by (simp add: decode_samples_def samples_in_def)
qed

lemma capture_interval_exact:
  assumes bits: "unat (bits_per_sample pcm) = 16 \<or> unat (bits_per_sample pcm) = 24 \<or> unat (bits_per_sample pcm) = 32"
    and r: "ring_repr 8 c (le_ring st) []" and fit: "length (read_bytes iv) \<le> unat c"
  shows "case interval_error has_file iv of
      Some e \<Rightarrow> capture_interval pcm has_file f sequence iv st = Inl e
    | None \<Rightarrow> \<exists>m. ring_repr 8 c m [] \<and> capture_interval pcm has_file f sequence iv st =
        Inr \<lparr>le_ring = m, le_file = (if has_file then le_file st @ read_bytes iv else le_file st),
          le_stats = foldl f (le_stats st) (samples_in (unat (bits_per_sample pcm)) (read_bytes iv)),
          le_samples = le_samples st + of_nat (length (samples_in (unat (bits_per_sample pcm)) (read_bytes iv)))\<rparr>"
proof -
  obtain t where rel: "ring_rel (le_ring st) t []" and n: "unat (slot_count (decode_header (le_ring st))) = 8"
    and c: "unat (payload_capacity (decode_header (le_ring st))) = unat c"
    using r by (rule ring_reprD) simp
  let ?d = "pcm_descriptor pcm sequence (frame_time iv)"
  obtain l m1 m2 where res: "try_reserve (le_ring st) = Inr (Some l, le_ring st)"
    and fill: "fill_payload (le_ring st) l (read_bytes iv) = Inr m1"
    and com: "commit (ring_signal iv) m1 l ?d (length (read_bytes iv)) = (signal_eventfd (ring_signal iv), m2)"
    and rel2: "ring_rel m2 t [(stamp ?d (length (read_bytes iv)), read_bytes iv)]"
    and h2: "decode_header m2 = (decode_header (le_ring st))\<lparr>head := of_nat (t + 0 + 1)\<rparr>"
    by (rule reserve_fill_commit [OF rel, of "read_bytes iv" "ring_signal iv" ?d])
      (use n c fit ring_repr_fits [OF r] in simp_all)
  note first = acquire_first [OF rel2]
  let ?l = "\<lparr>fl_descriptor = fst (stamp ?d (length (read_bytes iv)), read_bytes iv),
    fl_payload = slot_off (decode_header m2) t + 64, fl_tail = of_nat t\<rparr>"
  have r': "ring_repr 8 c (drop_lease m2 ?l) []"
    using r first(3) first(4) h2 by (auto simp: ring_repr_def)
  show ?thesis
  proof (cases "peer_read iv")
    case (Inl e)
    then show ?thesis by (simp add: interval_error_def capture_interval_def res)
  next
    case (Inr bs)
    then have bs: "read_bytes iv = bs" by (simp add: read_bytes_def)
    show ?thesis
      using r' fill com first(1,2) unfolding bs
      by (auto simp: interval_error_def capture_interval_def res Inr account_decoded [OF bits]
          split: sum.splits option.splits)
  qed
qed

lemma capture_intervals_exact:
  assumes bits: "unat (bits_per_sample pcm) = 16 \<or> unat (bits_per_sample pcm) = 24 \<or> unat (bits_per_sample pcm) = 32"
    and "ring_repr 8 c (le_ring st) []" and "\<forall>iv \<in> set ivs. length (read_bytes iv) \<le> unat c"
  shows "(\<exists>st'. capture_intervals pcm has_file f sequence ivs st = Inr st' \<and> ring_repr 8 c (le_ring st') [] \<and>
       (\<forall>iv \<in> set ivs. interval_error has_file iv = None) \<and>
       le_file st' = (if has_file then le_file st @ concat (map read_bytes ivs) else le_file st) \<and>
       le_stats st' = foldl f (le_stats st) (concat (map (\<lambda>iv. samples_in (unat (bits_per_sample pcm)) (read_bytes iv)) ivs)) \<and>
       le_samples st' = le_samples st +
         of_nat (length (concat (map (\<lambda>iv. samples_in (unat (bits_per_sample pcm)) (read_bytes iv)) ivs)))) \<or>
     (\<exists>i e. i < length ivs \<and> (\<forall>j<i. interval_error has_file (ivs ! j) = None) \<and>
       interval_error has_file (ivs ! i) = Some e \<and> capture_intervals pcm has_file f sequence ivs st = Inl e)"
  using assms(2,3)
proof (induction ivs arbitrary: st sequence)
  case (Cons iv ivs)
  note step = capture_interval_exact [OF bits Cons.prems(1), of iv has_file f sequence]
  show ?case
  proof (cases "interval_error has_file iv")
    case (Some e)
    with step Cons.prems(2) show ?thesis by (intro disjI2 exI [of _ 0]) simp
  next
    case None
    with step Cons.prems(2) obtain st1 where st1: "capture_interval pcm has_file f sequence iv st = Inr st1"
      and r1: "ring_repr 8 c (le_ring st1) []"
      and f1: "le_file st1 = (if has_file then le_file st @ read_bytes iv else le_file st)"
      and s1: "le_stats st1 = foldl f (le_stats st) (samples_in (unat (bits_per_sample pcm)) (read_bytes iv))"
      and n1: "le_samples st1 = le_samples st + of_nat (length (samples_in (unat (bits_per_sample pcm)) (read_bytes iv)))"
      by fastforce
    from Cons.IH [OF r1, of "sequence + 1"] Cons.prems(2)
    consider (all_ok) st' where "capture_intervals pcm has_file f (sequence + 1) ivs st1 = Inr st'" "ring_repr 8 c (le_ring st') []"
        "\<forall>iv \<in> set ivs. interval_error has_file iv = None"
        "le_file st' = (if has_file then le_file st1 @ concat (map read_bytes ivs) else le_file st1)"
        "le_stats st' = foldl f (le_stats st1) (concat (map (\<lambda>iv. samples_in (unat (bits_per_sample pcm)) (read_bytes iv)) ivs))"
        "le_samples st' = le_samples st1 +
          of_nat (length (concat (map (\<lambda>iv. samples_in (unat (bits_per_sample pcm)) (read_bytes iv)) ivs)))"
      | (failed) i e where "i < length ivs" "\<forall>j<i. interval_error has_file (ivs ! j) = None"
        "interval_error has_file (ivs ! i) = Some e" "capture_intervals pcm has_file f (sequence + 1) ivs st1 = Inl e"
      by auto
    then show ?thesis
    proof cases
      case all_ok
      then show ?thesis by (intro disjI1 exI [of _ st']) (simp add: st1 None f1 s1 n1)
    next
      case failed
      then show ?thesis
        by (intro disjI2 exI [of _ "Suc i"] exI [of _ e]) (auto simp: st1 None nth_Cons' )
    qed
  qed
qed simp

text \<open>C37: Nothing is lost or altered on the way through the shared ring: for a valid format and reads of whole
  intervals, the capture either succeeds and the file holds exactly the bytes of the peer, the
  statistics run over exactly their samples, the number of samples is right and the ring is
  empty again, or it stops at the first interval that fails and reports its error. The ring never overruns and a
  published frame is always visible.\<close>

theorem capture_peer_exact:
  assumes "bytes_per_interval pcm = Inr bytes" and "unat bytes < 2 ^ 32"
    and "ring_create os a 8 (ucast bytes) = Inr m"
    and "\<And>i. is_ok (peer_read (events i)) \<Longrightarrow> length (read_bytes (events i)) = unat bytes"
    and "n = unat (secs * 1000000 div ucast (data_interval_us pcm) :: u64)" and "bits = unat (bits_per_sample pcm)"
  shows "(\<exists>st. capture_peer os a pcm secs has_file (Inr ()) zero f events =
         Inr (secs * 1000000 div ucast (data_interval_us pcm) * bytes, st) \<and>
       (\<forall>i<n. interval_error has_file (events i) = None) \<and> ring_repr 8 (ucast bytes) (le_ring st) [] \<and>
       le_file st = (if has_file then concat (map (\<lambda>i. read_bytes (events i)) [0..<n]) else []) \<and>
       le_stats st = foldl f zero (concat (map (\<lambda>i. samples_in bits (read_bytes (events i))) [0..<n])) \<and>
       le_samples st = of_nat (n * (unat bytes div (bits div 8)))) \<or>
     (\<exists>i<n. (\<forall>j<i. interval_error has_file (events j) = None) \<and>
       capture_peer os a pcm secs has_file (Inr ()) zero f events = Inl (the (interval_error has_file (events i))) \<and>
       interval_error has_file (events i) \<noteq> None)"
proof -
  let ?c = "ucast bytes :: u32" and ?st = "\<lparr>le_ring = m, le_file = [], le_stats = zero, le_samples = 0 :: u64\<rparr>"
  have valid: "pcm_validate pcm = Inr ()" using assms(1) by (simp add: bytes_per_interval_Inr_iff)
  then have bits: "bits = 16 \<or> bits = 24 \<or> bits = 32"
    unfolding assms(6) by (auto simp: pcm_validate_Inr_iff)
  have c: "unat ?c = unat bytes" using assms(2) by (simp add: unsigned_ucast_eq take_bit_eq_mod)
  have repr: "ring_repr 8 ?c (le_ring ?st) []"
    using assms(3) fresh_ring_empty [of 8 ?c]
    by (auto simp: ring_create_Inr_iff ring_repr_def decode_fresh_ring initial_header_def)
  have "length (read_bytes (events i)) \<le> unat ?c" for i
    using assms(4) [of i] unfolding c by (cases "peer_read (events i)") (simp_all add: read_bytes_def)
  then have fit: "\<forall>iv \<in> set (map events [0..<n]). length (read_bytes iv) \<le> unat ?c" by auto
  note ivs = capture_intervals_exact [OF bits [unfolded assms(6)] repr fit, of has_file f 0]
  have run: "capture_peer os a pcm secs has_file (Inr ()) zero f events =
      and_then (capture_intervals pcm has_file f 0 (map events [0..<n]) ?st)
        (\<lambda>st. Inr (secs * 1000000 div ucast (data_interval_us pcm) * bytes, st))"
    by (simp add: capture_peer_def assms(1,3,5) Let_def)
  have samples: "length (concat (map (\<lambda>i. samples_in bits (read_bytes (events i))) [0..<n])) = n * (unat bytes div (bits div 8))"
    if "\<forall>i<n. interval_error has_file (events i) = None"
    using that
  proof (induction n)
    case (Suc n)
    then have "interval_error has_file (events n) = None" by simp
    then have "is_ok (peer_read (events n))" by (auto simp: interval_error_def split: sum.splits)
    then have "length (samples_in bits (read_bytes (events n))) = unat bytes div (bits div 8)"
      using bits assms(4) by (subst samples_in_def) (auto simp: length_chunks_exact)
    with Suc show ?case by simp
  qed simp
  from ivs show ?thesis
  proof (elim disjE exE conjE, goal_cases)
    case (1 st)
    then have ok: "\<forall>i<n. interval_error has_file (events i) = None" by auto
    from 1 show ?case
      by (intro disjI1 exI [of _ st])
         (simp add: run ok samples [OF ok] o_def flip: assms(6))
  next
    case (2 i e)
    then show ?case by (intro disjI2 exI [of _ i]) (auto simp: run)
  qed
qed

definition steady_reads :: "nat \<Rightarrow> le_interval" where
  "steady_reads i =
     \<lparr>peer_read = Inr (replicate 1920 (of_nat i)), ring_signal = WroteAll, file_write = None, frame_time = of_nat i\<rparr>"

theorem capture_peer_exact_witness:
  "\<exists>st. capture_peer (\<lambda>_. None) 4096 stereo_48k 1 True (Inr ()) 0 (\<lambda>a v. a + v) steady_reads = Inr (192000, st) \<and>
   le_file st = concat (map (\<lambda>i. read_bytes (steady_reads i)) [0..<100]) \<and> le_samples st = 96000"
proof -
  have fields: "bits_per_sample stereo_48k = 16" "data_interval_us stereo_48k = 10000"
    by (simp_all add: stereo_48k_def)
  have "ring_create (\<lambda>_. None) 4096 8 (ucast (1920 :: usize)) = Inr (fresh_ring 8 1920)"
    by (simp add: ring_create_Inr_iff)
  moreover have "length (read_bytes (steady_reads i)) = unat (1920 :: usize)" for i
    by (simp add: read_bytes_def steady_reads_def)
  moreover have ok: "interval_error True (steady_reads i) = None" for i
    by (simp add: interval_error_def signal_eventfd_def steady_reads_def)
  moreover have "100 = unat (1 * 1000000 div ucast (data_interval_us stereo_48k) :: u64)" and "16 = unat (bits_per_sample stereo_48k)"
    by (simp_all add: fields)
  ultimately have "\<exists>st. capture_peer (\<lambda>_. None) 4096 stereo_48k 1 True (Inr ()) 0 (\<lambda>a v. a + v) steady_reads =
       Inr (1 * 1000000 div ucast (data_interval_us stereo_48k) * 1920, st) \<and>
     le_file st = concat (map (\<lambda>i. read_bytes (steady_reads i)) [0..<100]) \<and>
     le_samples st = of_nat (100 * (unat (1920 :: usize) div (16 div 8)))"
    using capture_peer_exact [OF stereo_48k_bytes, where os = "\<lambda>_. None" and a = 4096 and m = "fresh_ring 8 1920"
      and events = steady_reads and n = 100 and secs = 1 and bits = 16 and has_file = True and zero = 0 and f = "\<lambda>a v. a + v"]
    by fastforce
  then show ?thesis by (simp add: fields)
qed

text \<open>A failing capture in the duplex mode leaves the program with both directions of the stream running,
  because the error is returned before the data path is stopped; the same failure in the input
  mode stops the stream first.\<close>

lemma le_duplex_failure_leaves_stream:
  "(\<exists>io. le_main good_service (Inr ()) plain_floats (\<lambda>_ _. Inr n) (\<lambda>_ _. Inl e)
      [''--group'', decimal 3, ''--mode'', ''duplex''] idle_io = Some (Inl e, io) \<and> open_is True True io) \<and>
   (\<exists>io. le_main good_service (Inr ()) plain_floats (\<lambda>_ _. Inr n) (\<lambda>_ _. Inl e)
      [''--group'', decimal 3, ''--mode'', ''input''] idle_io = Some (Inl e, io) \<and> open_is False False io)"
    (is "?duplex \<and> ?input")
proof -
  let ?args = "\<lambda>mode. \<lparr>le_adapter = 0, le_group_id = 3, le_seconds = 10, le_frequency_hz = 440, le_mode = mode, le_capture = None\<rparr>"
  have "le_parse plain_floats [''--group'', decimal 3, ''--mode'', ''duplex''] = Inr (?args Duplex)"
    and input: "le_parse plain_floats [''--group'', decimal 3, ''--mode'', ''input''] = Inr (?args Input)"
    by (simp_all add: le_parse_def le_option_def parse_i32_nonneg plain_floats_def)
  then have ?duplex
    using good_config
    by (simp add: le_main_def floss_exec FULL_DUPLEX_def idle_io_def good_service_def take_stream_def
        open_is_def dir_open_def group_status_def)
  moreover from input have ?input
    using good_config
    by (simp add: le_main_def floss_exec INPUT_def idle_io_def good_service_def take_stream_def
        open_is_def dir_open_def group_status_def floss_stop_def)
  ultimately show ?thesis by blast
qed

end
