(* ===== verification/A2dp_Smoke.thy ===== *)
theory A2dp_Smoke
  imports Pcm_Buffer Command_Line Deadlines
begin

text \<open>
  The A2DP test of \<open>src/bin/floss_audio_smoke.rs\<close>: its options, the hand-shake that brings the stream of the
  Floss daemon into a known state before it is started, the tone and the PCM file, and the main program.

  The Floss daemon, the data socket, the file system and the clock are the record \<open>a2dp_service\<close>, with the
  state \<open>'w\<close> of the outside world; \<open>a2_log\<close> records the D-Bus requests with their answers (\<^const>\<open>None\<close> when the
  request failed) and \<open>a2_sent\<close> the bytes written to the socket. The \<open>f32\<close> arithmetic is an argument:
  \<open>tone\<close> is the sample at an index.
\<close>

section \<open>Options\<close>

definition CHANNELS :: nat where
  "CHANNELS = 2"

definition FRAMES_PER_TICK :: nat where
  "FRAMES_PER_TICK = 960"

definition A2DP_DATA_PATH :: string where
  "A2DP_DATA_PATH = ''/run/bluetooth/audio/.a2dp_data''"

record 'f a2dp_args =
  a2_address :: string
  a2_seconds :: u64
  a2_volume :: u8
  a2_frequency_hz :: 'f
  a2_pcm_path :: "string option"

definition a2dp_option :: "'f float_text \<Rightarrow> string \<Rightarrow> (string \<Rightarrow> 'f a2dp_args \<Rightarrow> 'f a2dp_args option) option" where
  "a2dp_option fl arg =
     (if arg = ''--address'' then Some (\<lambda>v p. Some (p\<lparr>a2_address := v\<rparr>))
      else if arg = ''--seconds'' then Some (\<lambda>v p. map_option (\<lambda>n. p\<lparr>a2_seconds := n\<rparr>) (parse_u64 v))
      else if arg = ''--volume'' then Some (\<lambda>v p. map_option (\<lambda>n. p\<lparr>a2_volume := n\<rparr>) (parse_u8 v))
      else if arg = ''--frequency'' then
        Some (\<lambda>v p. map_option (\<lambda>x. p\<lparr>a2_frequency_hz := x\<rparr>) (parse_float fl v))
      else if arg = ''--pcm'' then Some (\<lambda>v p. Some (p\<lparr>a2_pcm_path := Some v\<rparr>))
      else None)"

fun a2dp_options :: "'f float_text \<Rightarrow> 'f a2dp_args \<Rightarrow> string list \<Rightarrow> cli_error + 'f a2dp_args" where
  "a2dp_options fl p [] = Inr p"
| "a2dp_options fl p (arg # rest) =
     (if arg = ''-h'' \<or> arg = ''--help'' then Inl Help
      else case a2dp_option fl arg of
        None \<Rightarrow> Inl (UnknownArgument arg)
      | Some apply_value \<Rightarrow>
          (case rest of
             [] \<Rightarrow> Inl (RequiresValue arg)
           | v # rest' \<Rightarrow>
               (case apply_value v p of
                  None \<Rightarrow> Inl (BadValue arg)
                | Some p' \<Rightarrow> a2dp_options fl p' rest')))"

definition a2dp_parse :: "'f float_text \<Rightarrow> string list \<Rightarrow> cli_error + 'f a2dp_args" where
  "a2dp_parse fl argv =
     and_then (a2dp_options fl \<lparr>a2_address = '''', a2_seconds = 3, a2_volume = 40, a2_frequency_hz = tone_440 fl,
                 a2_pcm_path = None\<rparr> argv) (\<lambda>p.
     ensure (a2_address p \<noteq> []) (Refused ''--address is required'') (
     ensure (\<not> a2_volume p > 127) (Refused ''--volume must be in 0..=127'') (
     ensure (\<not> (a2_seconds p = 0 \<or> \<not> is_finite fl (a2_frequency_hz p) \<or> le_zero fl (a2_frequency_hz p)))
       (Refused ''duration and frequency must be positive'') (Inr p))))"

section \<open>The outside world\<close>

record 'w a2dp_service =
  a2_connect_bus :: "'w \<Rightarrow> (nat + unit) \<times> 'w"
  set_active_device :: "string \<Rightarrow> 'w \<Rightarrow> (nat + unit) \<times> 'w"
  set_audio_config :: "string \<Rightarrow> u32 \<Rightarrow> i32 \<Rightarrow> i32 \<Rightarrow> i32 \<Rightarrow> 'w \<Rightarrow> (nat + bool) \<times> 'w"
  set_volume :: "u8 \<Rightarrow> 'w \<Rightarrow> (nat + unit) \<times> 'w"
  start_audio_request :: "'w \<Rightarrow> (nat + bool) \<times> 'w"
  stop_audio_request :: "'w \<Rightarrow> (nat + unit) \<times> 'w"
  get_a2dp_audio_started :: "string \<Rightarrow> 'w \<Rightarrow> (nat + bool) \<times> 'w"
  a2_new_listener :: "'w \<Rightarrow> (nat + unit) \<times> 'w"
  a2_listener_status :: "'w \<Rightarrow> (nat + u8) option \<times> 'w"
  connect_a2dp :: "string \<Rightarrow> 'w \<Rightarrow> (nat + unit) \<times> 'w"
  a2_clock :: "'w \<Rightarrow> nat"
  a2_sleep :: "nat \<Rightarrow> 'w \<Rightarrow> 'w"
  a2_write :: "u8 list \<Rightarrow> 'w \<Rightarrow> (nat + unit) \<times> 'w"
  a2_shutdown :: "'w \<Rightarrow> (nat + unit) \<times> 'w"
  read_file :: "string \<Rightarrow> 'w \<Rightarrow> (nat + u8 list) \<times> 'w"

datatype a2dp_call =
  SetActiveDevice | SetAudioConfig | SetVolume | StartAudioRequest | StopAudioRequest | GetA2dpAudioStarted

datatype a2dp_error =
    A2Options cli_error
  | A2BusFailed nat
  | A2RequestFailed a2dp_call nat
  | A2ListenerPairFailed nat
  | A2ListenerTimedOut
  | A2ListenerFailed nat
  | AudioStateTimedOut bool
  | UnexpectedPreTestStop u8
  | ConfigRejected
  | A2StartRejected
  | StartFailed u8
  | A2dpSocketFailed nat
  | FeedFailed nat
  | CloseFailed nat
  | PcmFileFailed nat
  | BadPcmFile
  | BufferPanic

record 'w a2dp_io =
  a2_world :: 'w
  a2_log :: "(a2dp_call \<times> bool option) list"
  a2_sent :: "u8 list"

definition a2_outside ::
  "(nat \<Rightarrow> a2dp_error) \<Rightarrow> ('w \<Rightarrow> (nat + 'a) \<times> 'w) \<Rightarrow> ('w a2dp_io, a2dp_error, 'a) act"
where
  "a2_outside err f = perform (\<lambda>io. let (r, w) = f (a2_world io) in (map_err err r, io\<lparr>a2_world := w\<rparr>))"

definition a2_request ::
  "a2dp_call \<Rightarrow> ('w \<Rightarrow> (nat + 'a) \<times> 'w) \<Rightarrow> ('a \<Rightarrow> bool) \<Rightarrow> ('w a2dp_io, a2dp_error, 'a) act"
where
  "a2_request c f answer = perform (\<lambda>io.
     let (r, w) = f (a2_world io) in
     (map_err (A2RequestFailed c) r,
      io\<lparr>a2_world := w, a2_log := a2_log io @ [(c, case r of Inl _ \<Rightarrow> None | Inr x \<Rightarrow> Some (answer x))]\<rparr>))"

definition feed :: "'w a2dp_service \<Rightarrow> u8 list \<Rightarrow> ('w a2dp_io, a2dp_error, unit) act" where
  "feed svc bs = perform (\<lambda>io.
     let (r, w) = a2_write svc bs (a2_world io) in
     (map_err FeedFailed r,
      io\<lparr>a2_world := w, a2_sent := (if is_ok r then a2_sent io @ bs else a2_sent io)\<rparr>))"

definition a2_now :: "'w a2dp_service \<Rightarrow> 'w a2dp_io \<Rightarrow> nat" where
  "a2_now svc io = a2_clock svc (a2_world io)"

definition a2_pause :: "'w a2dp_service \<Rightarrow> 'w a2dp_io \<Rightarrow> 'w a2dp_io" where
  "a2_pause svc io = io\<lparr>a2_world := a2_sleep svc 20000000 (a2_world io)\<rparr>"

section \<open>The hand-shake\<close>

text \<open>A listener status of \<^const>\<open>None\<close> is the time-out after eight seconds. Times are in nanoseconds.\<close>

definition a2dp_listener_pair :: "'w a2dp_service \<Rightarrow> ('w a2dp_io, a2dp_error, unit) act" where
  "a2dp_listener_pair svc = a2_outside A2ListenerPairFailed (a2_new_listener svc)"

definition a2dp_wait_for_listener :: "'w a2dp_service \<Rightarrow> ('w a2dp_io, a2dp_error, u8) act" where
  "a2dp_wait_for_listener svc =
     seq (perform (\<lambda>io. let (x, w) = a2_listener_status svc (a2_world io) in (Inr x, io\<lparr>a2_world := w\<rparr>))) (\<lambda>status.
     case status of
       None \<Rightarrow> throw A2ListenerTimedOut
     | Some r \<Rightarrow> from_result (map_err A2ListenerFailed r))"

definition audio_started :: "'w a2dp_service \<Rightarrow> string \<Rightarrow> ('w a2dp_io, a2dp_error, bool) act" where
  "audio_started svc addr = a2_request GetA2dpAudioStarted (get_a2dp_audio_started svc addr) (\<lambda>b. b)"

definition wait_for_audio_state ::
  "'w a2dp_service \<Rightarrow> string \<Rightarrow> bool \<Rightarrow> ('w a2dp_io, a2dp_error, unit) act"
where
  "wait_for_audio_state svc addr expected =
     seq (inspect (a2_now svc)) (\<lambda>t.
     poll_until (a2_now svc) (a2_pause svc) (t + 3000000000) (AudioStateTimedOut expected)
       (seq (audio_started svc addr) (\<lambda>b. pure (b = expected))))"

definition stop_existing_stream :: "'w a2dp_service \<Rightarrow> string \<Rightarrow> ('w a2dp_io, a2dp_error, unit) act" where
  "stop_existing_stream svc addr =
     seq (audio_started svc addr) (\<lambda>started.
     if \<not> started then pure ()
     else
       seq (a2dp_listener_pair svc) (\<lambda>_.
       seq (a2_request StopAudioRequest (stop_audio_request svc) (\<lambda>_. True)) (\<lambda>_.
       seq (a2dp_wait_for_listener svc) (\<lambda>status.
       seq (require (status = 0) (UnexpectedPreTestStop status)) (\<lambda>_.
       wait_for_audio_state svc addr False)))))"

definition connect_uipc :: "'w a2dp_service \<Rightarrow> ('w a2dp_io, a2dp_error, unit) act" where
  "connect_uipc svc =
     seq (inspect (a2_now svc)) (\<lambda>t.
     retry_until (a2_now svc) (a2_pause svc) (t + 3000000000)
       (a2_outside A2dpSocketFailed (connect_a2dp svc A2DP_DATA_PATH)))"

section \<open>Feeding PCM\<close>

text \<open>The buffer is reused from one tick to the next.\<close>

fun feed_tone ::
  "'w a2dp_service \<Rightarrow> (nat \<Rightarrow> i16) \<Rightarrow> nat \<Rightarrow> u8 list \<Rightarrow> nat \<Rightarrow> ('w a2dp_io, a2dp_error, u8 list) act"
where
  "feed_tone svc tone sample_index pcm 0 = pure pcm"
| "feed_tone svc tone sample_index pcm (Suc ticks) =
     (case fill_frames CHANNELS 2 (\<lambda>i. to_le_bytes (tone i)) sample_index FRAMES_PER_TICK pcm of
        None \<Rightarrow> throw BufferPanic
      | Some pcm' \<Rightarrow> seq (feed svc pcm') (\<lambda>_. feed_tone svc tone (sample_index + FRAMES_PER_TICK) pcm' ticks))"

fun feed_silence :: "'w a2dp_service \<Rightarrow> u8 list \<Rightarrow> nat \<Rightarrow> ('w a2dp_io, a2dp_error, unit) act" where
  "feed_silence svc pcm 0 = pure ()"
| "feed_silence svc pcm (Suc n) = seq (feed svc pcm) (\<lambda>_. feed_silence svc pcm n)"

definition write_test_tone ::
  "'w a2dp_service \<Rightarrow> (nat \<Rightarrow> i16) \<Rightarrow> u64 \<Rightarrow> ('w a2dp_io, a2dp_error, u64) act"
where
  "write_test_tone svc tone secs =
     (let tick_count = secs * 1000 div 20 in
      seq (feed_tone svc tone 0 (replicate (FRAMES_PER_TICK * CHANNELS * 2) 0) (unat tick_count)) (\<lambda>pcm.
      seq (feed_silence svc (replicate (length pcm) 0) 5) (\<lambda>_.
      seq (a2_outside CloseFailed (a2_shutdown svc)) (\<lambda>_.
      pure ((tick_count + 5) * of_nat (length pcm))))))"

fun feed_chunks :: "'w a2dp_service \<Rightarrow> u64 \<Rightarrow> u8 list list \<Rightarrow> ('w a2dp_io, a2dp_error, u64) act" where
  "feed_chunks svc bytes [] = pure bytes"
| "feed_chunks svc bytes (c # cs) =
     seq (feed svc c) (\<lambda>_. feed_chunks svc (bytes + of_nat (length c)) cs)"

definition write_pcm_file :: "'w a2dp_service \<Rightarrow> string \<Rightarrow> ('w a2dp_io, a2dp_error, u64) act" where
  "write_pcm_file svc path =
     seq (a2_outside PcmFileFailed (read_file svc path)) (\<lambda>pcm.
     seq (require (\<not> (pcm = [] \<or> length pcm mod (CHANNELS * 2) \<noteq> 0)) BadPcmFile) (\<lambda>_.
     seq (feed_chunks svc 0 (chunks (FRAMES_PER_TICK * CHANNELS * 2) pcm)) (\<lambda>bytes.
     seq (a2_outside CloseFailed (a2_shutdown svc)) (\<lambda>_.
     pure bytes))))"

section \<open>The main program\<close>

definition a2dp_main ::
  "'w a2dp_service \<Rightarrow> 'f float_text \<Rightarrow> ('f \<Rightarrow> nat \<Rightarrow> i16) \<Rightarrow> string list \<Rightarrow> ('w a2dp_io, a2dp_error, unit) act"
where
  "a2dp_main svc fl tone argv =
     seq (from_result (map_err A2Options (a2dp_parse fl argv))) (\<lambda>args.
     seq (a2_outside A2BusFailed (a2_connect_bus svc)) (\<lambda>_.
     seq (a2_request SetActiveDevice (set_active_device svc (a2_address args)) (\<lambda>_. True)) (\<lambda>_.
     seq (stop_existing_stream svc (a2_address args)) (\<lambda>_.
     seq (a2_request SetAudioConfig (set_audio_config svc (a2_address args) 0 2 1 2) (\<lambda>ok. ok)) (\<lambda>ok.
     seq (require ok ConfigRejected) (\<lambda>_.
     seq (wait_for_audio_state svc (a2_address args) False) (\<lambda>_.
     seq (a2_request SetVolume (set_volume svc (a2_volume args)) (\<lambda>_. True)) (\<lambda>_.
     seq (a2dp_listener_pair svc) (\<lambda>_.
     seq (a2_request StartAudioRequest (start_audio_request svc) (\<lambda>ok. ok)) (\<lambda>accepted.
     seq (require accepted A2StartRejected) (\<lambda>_.
     seq (a2dp_wait_for_listener svc) (\<lambda>status.
     seq (if status \<noteq> 1 then throw (StartFailed status)
          else seq (audio_started svc (a2_address args)) (\<lambda>started. require started (StartFailed status))) (\<lambda>_.
     seq (connect_uipc svc) (\<lambda>_.
     seq (case a2_pcm_path args of
            Some path \<Rightarrow> write_pcm_file svc path
          | None \<Rightarrow> write_test_tone svc (tone (a2_frequency_hz args)) (a2_seconds args)) (\<lambda>bytes.
     seq (a2dp_listener_pair svc) (\<lambda>_.
     seq (a2_request StopAudioRequest (stop_audio_request svc) (\<lambda>_. True)) (\<lambda>_.
     seq (a2dp_wait_for_listener svc) (\<lambda>status.
     pure ()))))))))))))))))))"

section \<open>What is fed\<close>

lemma seq_pure [simp]: "seq (pure x) k s = k x s"
  by (simp add: seq_def pure_def)

lemma feed_cases:
  obtains io' where "feed svc bs io = Some (Inr (), io')" "a2_sent io' = a2_sent io @ bs" "a2_log io' = a2_log io"
  | e io' where "feed svc bs io = Some (Inl (FeedFailed e), io')" "a2_sent io' = a2_sent io" "a2_log io' = a2_log io"
proof -
  obtain r w where "a2_write svc bs (a2_world io) = (r, w)" by fastforce
  then show ?thesis
    using that by (cases r) (auto simp: feed_def perform_def)
qed

lemma feed_chunks_run:
  "\<exists>r io'. feed_chunks svc n cs io = Some (r, io') \<and> a2_log io' = a2_log io \<and>
     (case r of
        Inr n' \<Rightarrow> a2_sent io' = a2_sent io @ concat cs \<and> n' = n + of_nat (length (concat cs))
      | Inl _ \<Rightarrow> \<exists>k<length cs. a2_sent io' = a2_sent io @ concat (take k cs))"
proof (induction cs arbitrary: n io)
  case (Cons c cs)
  show ?case
  proof (cases rule: feed_cases [of svc c io])
    case (1 io1)
    obtain r io' where run: "feed_chunks svc (n + of_nat (length c)) cs io1 = Some (r, io')" "a2_log io' = a2_log io1"
      and r: "case r of
        Inr n' \<Rightarrow> a2_sent io' = a2_sent io1 @ concat cs \<and> n' = n + of_nat (length c) + of_nat (length (concat cs))
      | Inl _ \<Rightarrow> \<exists>k<length cs. a2_sent io' = a2_sent io1 @ concat (take k cs)"
      using Cons.IH [of "n + of_nat (length c)" io1] by blast
    show ?thesis
    proof (cases r)
      case (Inl e)
      with r obtain k where "k < length cs" "a2_sent io' = a2_sent io1 @ concat (take k cs)" by auto
      with 1 run Inl show ?thesis
        by (auto simp: seq_def intro!: exI [of _ "Suc k"])
    next
      case (Inr n')
      with 1 run r show ?thesis by (auto simp: seq_def add.assoc)
    qed
  next
    case (2 e io')
    then show ?thesis by (auto simp: seq_def intro!: exI [of _ 0])
  qed
qed (simp add: pure_def)

text \<open>The bytes of the tone: each sample in both channels.\<close>

definition stereo :: "(nat \<Rightarrow> i16) \<Rightarrow> nat \<Rightarrow> nat \<Rightarrow> u8 list" where
  "stereo tone start n = concat (map (\<lambda>i. to_le_bytes (tone (start + i)) @ to_le_bytes (tone (start + i))) [0..<n])"

lemma stereo_add: "stereo tone start n @ stereo tone (start + n) m = stereo tone start (n + m)"
  by (induction m) (simp_all add: stereo_def add.assoc)

lemma length_stereo: "length (stereo tone start n) = n * 4"
  by (induction n) (simp_all add: stereo_def)

lemma tick_exact:
  assumes "length pcm = 3840"
  shows "fill_frames CHANNELS 2 (\<lambda>i. to_le_bytes (tone i)) start FRAMES_PER_TICK pcm = Some (stereo tone start 960)"
proof -
  have two: "concat (replicate 2 x) = x @ x" for x :: "u8 list" by (simp add: numeral_2_eq_2)
  have "fill_frames CHANNELS 2 (\<lambda>i. to_le_bytes (tone i)) start FRAMES_PER_TICK pcm =
      Some (concat (map (\<lambda>i. concat (replicate CHANNELS (to_le_bytes (tone (start + i))))) [0..<FRAMES_PER_TICK]))"
    by (rule fill_frames_exact) (use assms in \<open>simp_all add: CHANNELS_def FRAMES_PER_TICK_def\<close>)
  then show ?thesis by (simp only: stereo_def CHANNELS_def FRAMES_PER_TICK_def two)
qed

lemma feed_tone_run:
  "length pcm = 3840 \<Longrightarrow>
   \<exists>r io'. feed_tone svc tone start pcm ticks io = Some (r, io') \<and> a2_log io' = a2_log io \<and>
     (case r of
        Inr pcm' \<Rightarrow> length pcm' = 3840 \<and> a2_sent io' = a2_sent io @ stereo tone start (ticks * 960)
      | Inl _ \<Rightarrow> \<exists>k<ticks. a2_sent io' = a2_sent io @ stereo tone start (k * 960))"
proof (induction ticks arbitrary: start pcm io)
  case 0
  then show ?case by (simp add: pure_def stereo_def)
next
  case (Suc ticks)
  let ?b = "stereo tone start 960"
  have step: "feed_tone svc tone start pcm (Suc ticks) io =
      seq (feed svc ?b) (\<lambda>_. feed_tone svc tone (start + 960) ?b ticks) io"
    by (simp add: tick_exact [OF Suc.prems]) (simp add: FRAMES_PER_TICK_def)
  show ?case
  proof (cases rule: feed_cases [of svc ?b io])
    case (1 io1)
    obtain r io' where run: "feed_tone svc tone (start + 960) ?b ticks io1 = Some (r, io')" "a2_log io' = a2_log io1"
      and r: "case r of
        Inr pcm' \<Rightarrow> length pcm' = 3840 \<and> a2_sent io' = a2_sent io1 @ stereo tone (start + 960) (ticks * 960)
      | Inl _ \<Rightarrow> \<exists>k<ticks. a2_sent io' = a2_sent io1 @ stereo tone (start + 960) (k * 960)"
      using Suc.IH [of ?b "start + 960" io1] by (auto simp: length_stereo)
    show ?thesis
    proof (cases r)
      case (Inl e)
      with r obtain k where "k < ticks" "a2_sent io' = a2_sent io1 @ stereo tone (start + 960) (k * 960)" by auto
      with 1 run Inl show ?thesis
        unfolding step by (auto simp: seq_def stereo_add intro!: exI [of _ "Suc k"])
    next
      case (Inr b)
      with 1 run r show ?thesis unfolding step by (auto simp: seq_def stereo_add)
    qed
  next
    case (2 e io')
    then show ?thesis unfolding step by (auto simp: seq_def stereo_def intro!: exI [of _ 0])
  qed
qed

lemma feed_silence_run:
  "\<exists>r io' k. feed_silence svc pcm n io = Some (r, io') \<and> a2_log io' = a2_log io \<and> k \<le> n \<and>
     a2_sent io' = a2_sent io @ concat (replicate k pcm) \<and> (is_ok r \<longrightarrow> k = n)"
proof (induction n arbitrary: io)
  case (Suc n)
  show ?case
  proof (cases rule: feed_cases [of svc pcm io])
    case (1 io1)
    then show ?thesis using Suc.IH [of io1] by (auto simp: seq_def intro!: exI [of _ "Suc _"])
  next
    case (2 e io')
    then show ?thesis by (auto simp: seq_def intro!: exI [of _ 0])
  qed
qed (simp add: pure_def)

lemma a2_outside_cases:
  obtains x w where "a2_outside err f io = Some (Inr x, io\<lparr>a2_world := w\<rparr>)" "f (a2_world io) = (Inr x, w)"
  | e w where "a2_outside err f io = Some (Inl (err e), io\<lparr>a2_world := w\<rparr>)" "f (a2_world io) = (Inl e, w)"
proof -
  obtain r w where "f (a2_world io) = (r, w)" by fastforce
  then show ?thesis using that by (cases r) (auto simp: a2_outside_def perform_def)
qed

lemma write_pcm_file_run:
  "\<exists>r io'. write_pcm_file svc path io = Some (r, io') \<and> a2_log io' = a2_log io \<and>
     (case fst (read_file svc path (a2_world io)) of
        Inl e \<Rightarrow> r = Inl (PcmFileFailed e) \<and> a2_sent io' = a2_sent io
      | Inr pcm \<Rightarrow>
          if pcm = [] \<or> length pcm mod 4 \<noteq> 0 then r = Inl BadPcmFile \<and> a2_sent io' = a2_sent io
          else case r of
              Inr n \<Rightarrow> a2_sent io' = a2_sent io @ pcm \<and> n = of_nat (length pcm)
            | Inl _ \<Rightarrow> \<exists>k. a2_sent io' = a2_sent io @ take (k * 3840) pcm)"
proof (cases rule: a2_outside_cases [of PcmFileFailed "read_file svc path" io])
  case (1 pcm w)
  let ?io = "io\<lparr>a2_world := w\<rparr>" and ?size = "FRAMES_PER_TICK * CHANNELS * 2"
  have size: "?size = 3840" by (simp add: FRAMES_PER_TICK_def CHANNELS_def)
  show ?thesis
  proof (cases "pcm = [] \<or> length pcm mod 4 \<noteq> 0")
    case True
    with 1 show ?thesis by (auto simp: write_pcm_file_def seq_def require_def throw_def CHANNELS_def)
  next
    case False
    then have start: "write_pcm_file svc path io =
        seq (feed_chunks svc 0 (chunks ?size pcm)) (\<lambda>bytes.
        seq (a2_outside CloseFailed (a2_shutdown svc)) (\<lambda>_. pure bytes)) ?io"
      using 1 by (simp add: write_pcm_file_def seq_def [of _ _ io] require_def CHANNELS_def)
    obtain r io1 where run: "feed_chunks svc 0 (chunks 3840 pcm) ?io = Some (r, io1)" "a2_log io1 = a2_log ?io"
      and r: "case r of
        Inr n' \<Rightarrow> a2_sent io1 = a2_sent ?io @ concat (chunks 3840 pcm) \<and> n' = 0 + of_nat (length (concat (chunks 3840 pcm)))
      | Inl _ \<Rightarrow> \<exists>k<length (chunks 3840 pcm). a2_sent io1 = a2_sent ?io @ concat (take k (chunks 3840 pcm))"
      using feed_chunks_run [of svc 0 "chunks 3840 pcm" ?io] by blast
    show ?thesis
    proof (cases r)
      case (Inl e)
      with run r False 1 show ?thesis unfolding start size by (auto simp: seq_def take_chunks)
    next
      case (Inr n)
      then have fed: "a2_sent io1 = a2_sent io @ pcm" "n = of_nat (length pcm)" using r by (simp_all add: concat_chunks)
      have whole: "\<exists>k. pcm = take (k * 3840) pcm" by (intro exI [of _ "length pcm"]) simp
      show ?thesis
        by (cases rule: a2_outside_cases [of CloseFailed "a2_shutdown svc" io1])
          (use run Inr fed whole False 1 in \<open>auto simp: start size seq_def pure_def\<close>)
    qed
  qed
next
  case (2 e w)
  then show ?thesis by (simp add: write_pcm_file_def seq_def)
qed

lemma write_test_tone_run:
  fixes secs :: u64 and tone :: "nat \<Rightarrow> i16"
  defines "ticks \<equiv> secs * 1000 div 20"
  defines "T \<equiv> stereo tone 0 (unat ticks * 960) @ replicate (5 * 3840) 0"
  shows "\<exists>r io'. write_test_tone svc tone secs io = Some (r, io') \<and> a2_log io' = a2_log io \<and>
     (case r of
        Inr n \<Rightarrow> a2_sent io' = a2_sent io @ T \<and> n = (ticks + 5) * 3840
      | Inl _ \<Rightarrow> \<exists>k. a2_sent io' = a2_sent io @ take (k * 3840) T)"
proof -
  have size: "FRAMES_PER_TICK * CHANNELS * 2 = 3840" by (simp add: FRAMES_PER_TICK_def CHANNELS_def)
  have part: "stereo tone 0 (k * 960) = take (k * 3840) T" if "k \<le> unat ticks" for k
  proof -
    have "stereo tone 0 (unat ticks * 960) = stereo tone 0 (k * 960) @ stereo tone (k * 960) ((unat ticks - k) * 960)"
      using that stereo_add [of tone 0 "k * 960" "(unat ticks - k) * 960"] by (simp flip: distrib_right)
    then show ?thesis using that by (simp add: T_def length_stereo)
  qed
  have quiet: "concat (replicate k (replicate 3840 (0 :: u8))) = replicate (k * 3840) 0" for k
    by (induction k) (simp_all add: replicate_add)
  have tail: "stereo tone 0 (unat ticks * 960) @ replicate (k * 3840) 0 = take ((unat ticks + k) * 3840) T" if "k \<le> 5" for k
    using that by (simp add: T_def length_stereo distrib_right)
  have T: "T = take ((unat ticks + 5) * 3840) T" using tail [of 5] by (simp add: T_def)
  then have whole: "\<exists>k. T = take (k * 3840) T" by blast
  have def: "write_test_tone svc tone secs = seq (feed_tone svc tone 0 (replicate 3840 0) (unat ticks)) (\<lambda>pcm.
      seq (feed_silence svc (replicate (length pcm) 0) 5) (\<lambda>_.
      seq (a2_outside CloseFailed (a2_shutdown svc)) (\<lambda>_. pure ((ticks + 5) * of_nat (length pcm)))))"
    by (simp add: write_test_tone_def size ticks_def Let_def)
  obtain r io1 where run: "feed_tone svc tone 0 (replicate 3840 0) (unat ticks) io = Some (r, io1)" "a2_log io1 = a2_log io"
    and r: "case r of
        Inr pcm' \<Rightarrow> length pcm' = 3840 \<and> a2_sent io1 = a2_sent io @ stereo tone 0 (unat ticks * 960)
      | Inl _ \<Rightarrow> \<exists>k<unat ticks. a2_sent io1 = a2_sent io @ stereo tone 0 (k * 960)"
    using feed_tone_run [of "replicate 3840 0" svc tone 0 "unat ticks" io] by auto
  show ?thesis
  proof (cases r)
    case (Inl e)
    with run r show ?thesis unfolding def by (auto simp: seq_def part)
  next
    case (Inr pcm)
    with r have pcm: "length pcm = 3840" "a2_sent io1 = a2_sent io @ stereo tone 0 (unat ticks * 960)" by simp_all
    obtain r2 io2 k where silence: "feed_silence svc (replicate 3840 0) 5 io1 = Some (r2, io2)" "a2_log io2 = a2_log io1"
        "k \<le> 5" "a2_sent io2 = a2_sent io1 @ concat (replicate k (replicate 3840 0))" "is_ok r2 \<longrightarrow> k = 5"
      using feed_silence_run [of svc "replicate 3840 0" 5 io1] by blast
    have sent2: "a2_sent io2 = a2_sent io @ take ((unat ticks + k) * 3840) T"
      using silence(3,4) pcm(2) tail [of k] by (simp add: quiet)
    show ?thesis
    proof (cases r2)
      case (Inl e)
      obtain j where "a2_sent io2 = a2_sent io @ take (j * 3840) T" using sent2 by blast
      then show ?thesis using run Inr silence(1,2) Inl pcm unfolding def by (auto simp: seq_def)
    next
      case ok: (Inr u)
      with silence(5) have "a2_sent io2 = a2_sent io @ T" using sent2 T by simp
      then show ?thesis
        by (cases rule: a2_outside_cases [of CloseFailed "a2_shutdown svc" io2])
          (use run Inr ok silence(1,2) pcm whole in \<open>auto simp: def seq_def pure_def\<close>)
    qed
  qed
qed

section \<open>The order of the requests\<close>

text \<open>
  The requests up to the volume, just before the start: the configuration was accepted, the daemon was
  asked whether a stream is running until it said no, and no start was sent.
\<close>

definition ready :: "(a2dp_call \<times> bool option) list \<Rightarrow> bool" where
  "ready l \<longleftrightarrow>
     (\<exists>pre k. l = pre @ (SetAudioConfig, Some True) # replicate k (GetA2dpAudioStarted, Some True) @
        [(GetA2dpAudioStarted, Some False), (SetVolume, Some True)] \<and> StartAudioRequest \<notin> fst ` set pre)"

definition a2_outcome :: "a2dp_error + unit \<Rightarrow> (a2dp_call \<times> bool option) list \<Rightarrow> u8 list \<Rightarrow> bool" where
  "a2_outcome r l sent \<longleftrightarrow>
     \<not> is_ok r \<and> StartAudioRequest \<notin> fst ` set l \<and> sent = [] \<or>
     (\<exists>pre x post. ready pre \<and> l = pre @ (StartAudioRequest, x) # post \<and>
       (\<not> is_ok r \<and> sent = [] \<and> (post = [] \<or> x = Some True \<and> (\<exists>y. post = [(GetA2dpAudioStarted, y)] \<and> y \<noteq> Some True)) \<or>
        \<not> is_ok r \<and> x = Some True \<and> post = [(GetA2dpAudioStarted, Some True)] \<or>
        x = Some True \<and> (\<exists>y. post = [(GetA2dpAudioStarted, Some True), (StopAudioRequest, y)] \<and> (is_ok r \<longrightarrow> y = Some True))))"

abbreviation after :: "((a2dp_call \<times> bool option) list \<Rightarrow> u8 list \<Rightarrow> bool) \<Rightarrow> 'w a2dp_io \<Rightarrow> bool" where
  "after P io \<equiv> P (a2_log io) (a2_sent io)"

definition a2_fails :: "a2dp_error \<Rightarrow> 'w a2dp_io \<Rightarrow> bool" where
  "a2_fails e io \<longleftrightarrow> a2_outcome (Inl e) (a2_log io) (a2_sent io)"

text \<open>An assertion on requests and bytes survives everything that does neither, if failing there is acceptable.\<close>

definition harmless :: "((a2dp_call \<times> bool option) list \<Rightarrow> u8 list \<Rightarrow> bool) \<Rightarrow> bool" where
  "harmless P \<longleftrightarrow> (\<forall>l sent e. P l sent \<longrightarrow> a2_outcome (Inl e) l sent)"

lemma a2_request_triple:
  assumes "\<And>l s x. P l s \<Longrightarrow> Q x (l @ [(c, Some (answer x))]) s"
    and "\<And>l s e. P l s \<Longrightarrow> a2_outcome (Inl (A2RequestFailed c e)) (l @ [(c, None)]) s"
  shows "triple (after P) (a2_request c f answer) (\<lambda>x. after (Q x)) a2_fails"
  unfolding a2_request_def
  by (rule triple_perform)
    (use assms in \<open>auto simp: a2_fails_def Let_def split: prod.splits sum.splits\<close>)

lemma a2_quiet_triples:
  assumes "harmless P"
  shows "triple (after P) (a2_outside err f) (\<lambda>_. after P) a2_fails"
    and "triple (after P) (a2dp_listener_pair svc) (\<lambda>_. after P) a2_fails"
    and "triple (after P) (a2dp_wait_for_listener svc) (\<lambda>_. after P) a2_fails"
    and "triple (after P) (require b e) (\<lambda>_ io. after P io \<and> b) a2_fails"
    and "triple (after P) (from_result r) (\<lambda>_. after P) a2_fails"
    and "triple (after P) (inspect g) (\<lambda>_. after P) a2_fails"
proof -
  show out: "triple (after P) (a2_outside err f) (\<lambda>_. after P) a2_fails" for err and f :: "'x \<Rightarrow> (nat + 'y) \<times> 'x"
    unfolding a2_outside_def
    by (rule triple_perform)
      (use assms in \<open>auto simp: a2_fails_def harmless_def Let_def split: prod.splits sum.splits\<close>)
  show "triple (after P) (a2dp_listener_pair svc) (\<lambda>_. after P) a2_fails"
    unfolding a2dp_listener_pair_def by (rule out)
  show "triple (after P) (a2dp_wait_for_listener svc) (\<lambda>_. after P) a2_fails"
    unfolding a2dp_wait_for_listener_def
    by (rule triple_seq [OF triple_perform [where Q = "\<lambda>_. after P"]])
      (use assms in \<open>auto simp: a2_fails_def harmless_def Let_def intro!: triple_case_option triple_throw triple_from_result
        split: prod.splits\<close>)
qed (use assms in \<open>auto simp: a2_fails_def harmless_def intro!: triple_require triple_from_result triple_inspect\<close>)

lemma wait_for_audio_state_triple:
  assumes "harmless P" and "\<And>l s. P l s \<Longrightarrow> P (l @ [(GetA2dpAudioStarted, Some (\<not> expected))]) s"
    and "\<And>l s. P l s \<Longrightarrow> Q (l @ [(GetA2dpAudioStarted, Some expected)]) s"
    and "\<And>l s e. P l s \<Longrightarrow> a2_outcome (Inl e) (l @ [(GetA2dpAudioStarted, None)]) s"
  shows "triple (after P) (wait_for_audio_state svc addr expected) (\<lambda>_. after Q) a2_fails"
proof -
  have "triple (after P) (audio_started svc addr)
      (\<lambda>b. after (if b = expected then Q else P)) a2_fails"
    unfolding audio_started_def
    by (rule a2_request_triple) (use assms in \<open>auto split: if_splits\<close>)
  then have query: "triple (after P) (seq (audio_started svc addr) (\<lambda>b. pure (b = expected)))
      (\<lambda>ok io. if ok then after Q io else after P io) a2_fails"
    by (rule triple_seq) (auto intro!: triple_pure)
  show ?thesis
    unfolding wait_for_audio_state_def
    by (rule triple_seq [OF a2_quiet_triples(6) [OF assms(1)]], rule triple_poll_until [OF query])
      (use assms(1) in \<open>auto simp: a2_pause_def a2_fails_def harmless_def\<close>)
qed

text \<open>The stages of the program, each an assertion on the requests so far and the bytes sent.\<close>

definition unstarted :: "(a2dp_call \<times> bool option) list \<Rightarrow> u8 list \<Rightarrow> bool" where
  "unstarted l sent \<longleftrightarrow> StartAudioRequest \<notin> fst ` set l \<and> sent = []"

definition configured :: "(a2dp_call \<times> bool option) list \<Rightarrow> u8 list \<Rightarrow> bool" where
  "configured l sent \<longleftrightarrow> sent = [] \<and>
     (\<exists>pre k. l = pre @ (SetAudioConfig, Some True) # replicate k (GetA2dpAudioStarted, Some True) \<and>
        StartAudioRequest \<notin> fst ` set pre)"

definition at_rest :: "(a2dp_call \<times> bool option) list \<Rightarrow> u8 list \<Rightarrow> bool" where
  "at_rest l sent \<longleftrightarrow> (\<exists>l'. configured l' sent \<and> l = l' @ [(GetA2dpAudioStarted, Some False)])"

definition begun :: "(a2dp_call \<times> bool option) list \<Rightarrow> (a2dp_call \<times> bool option) list \<Rightarrow> u8 list \<Rightarrow> bool" where
  "begun post l sent \<longleftrightarrow> (\<exists>pre. ready pre \<and> l = pre @ post)"

lemma ready_unstarted: "ready l \<Longrightarrow> StartAudioRequest \<notin> fst ` set l"
  by (auto simp: ready_def)

lemma harmless_stages:
  "harmless unstarted" "harmless configured" "harmless at_rest" "harmless (\<lambda>l s. begun [] l s \<and> s = [])"
  "harmless (\<lambda>l s. begun [(StartAudioRequest, x)] l s \<and> s = [])"
  "harmless (begun [(StartAudioRequest, Some True), (GetA2dpAudioStarted, Some True)])"
  "harmless (begun [(StartAudioRequest, Some True), (GetA2dpAudioStarted, Some True), (StopAudioRequest, y)])"
  by (fastforce simp: harmless_def a2_outcome_def unstarted_def configured_def at_rest_def begun_def dest: ready_unstarted)+

lemma stop_existing_triple:
  "triple (after unstarted) (stop_existing_stream svc addr) (\<lambda>_. after unstarted) a2_fails"
proof -
  note quiet = a2_quiet_triples [OF harmless_stages(1)]
  have ask: "triple (after unstarted) (a2_request c f ans) (\<lambda>_. after unstarted) a2_fails" if "c \<noteq> StartAudioRequest" for c f ans
    by (rule a2_request_triple) (use that in \<open>auto simp: unstarted_def a2_outcome_def\<close>)
  have wait: "triple (after unstarted) (wait_for_audio_state svc addr False) (\<lambda>_. after unstarted) a2_fails"
    by (rule wait_for_audio_state_triple [OF harmless_stages(1)]) (auto simp: unstarted_def a2_outcome_def)
  show ?thesis
    unfolding stop_existing_stream_def audio_started_def
    by (rule triple_seq [OF ask], simp, rule triple_if, rule triple_pure, assumption,
        rule triple_seq [OF quiet(2)], rule triple_seq [OF ask], simp, rule triple_seq [OF quiet(3)],
        rule triple_seq [OF quiet(4)], rule triple_assume, rule wait)
qed

lemma hand_shake_triple:
  "triple (after unstarted) (a2_request SetAudioConfig f (\<lambda>ok. ok))
     (\<lambda>ok. after (\<lambda>l s. unstarted l s \<and> (ok \<longrightarrow> configured l s))) a2_fails"
  "triple (after configured) (wait_for_audio_state svc addr False) (\<lambda>_. after at_rest) a2_fails"
  "triple (after at_rest) (a2_request SetVolume g (\<lambda>_. True)) (\<lambda>_. after (\<lambda>l s. begun [] l s \<and> s = [])) a2_fails"
  "triple (after (\<lambda>l s. begun [] l s \<and> s = [])) (a2_request StartAudioRequest h (\<lambda>ok. ok))
     (\<lambda>ok. after (\<lambda>l s. begun [(StartAudioRequest, Some ok)] l s \<and> s = [])) a2_fails"
  "triple (after (\<lambda>l s. begun [(StartAudioRequest, Some True)] l s \<and> s = [])) (audio_started svc addr)
     (\<lambda>b. after (\<lambda>l s. begun [(StartAudioRequest, Some True), (GetA2dpAudioStarted, Some b)] l s \<and> s = [])) a2_fails"
  "triple (after (begun [(StartAudioRequest, Some True), (GetA2dpAudioStarted, Some True)]))
     (a2_request StopAudioRequest k (\<lambda>_. True))
     (\<lambda>_. after (begun [(StartAudioRequest, Some True), (GetA2dpAudioStarted, Some True), (StopAudioRequest, Some True)])) a2_fails"
proof -
  show "triple (after unstarted) (a2_request SetAudioConfig f (\<lambda>ok. ok))
     (\<lambda>ok. after (\<lambda>l s. unstarted l s \<and> (ok \<longrightarrow> configured l s))) a2_fails"
    by (rule a2_request_triple) (auto simp: unstarted_def configured_def a2_outcome_def intro!: exI [of _ 0])
  have more: "configured (l @ [(GetA2dpAudioStarted, Some True)]) s" if c: "configured l s" for l s
  proof -
    obtain pre k where "l = pre @ (SetAudioConfig, Some True) # replicate k (GetA2dpAudioStarted, Some True)"
      "StartAudioRequest \<notin> fst ` set pre" "s = []" using c by (auto simp: configured_def)
    then show ?thesis
      unfolding configured_def by (auto intro!: exI [of _ pre] exI [of _ "Suc k"] simp: replicate_append_same)
  qed
  have "a2_outcome (Inl e) (l @ [(GetA2dpAudioStarted, None)]) s" if "configured l s" for l s e
    using that by (auto simp: configured_def a2_outcome_def)
  moreover have "at_rest (l @ [(GetA2dpAudioStarted, Some False)]) s" if "configured l s" for l s
    using that by (auto simp: at_rest_def)
  ultimately show "triple (after configured) (wait_for_audio_state svc addr False) (\<lambda>_. after at_rest) a2_fails"
    using more by (intro wait_for_audio_state_triple [OF harmless_stages(2)]) simp_all
  show "triple (after at_rest) (a2_request SetVolume g (\<lambda>_. True)) (\<lambda>_. after (\<lambda>l s. begun [] l s \<and> s = [])) a2_fails"
  proof (rule a2_request_triple)
    fix l s assume "at_rest l s"
    then obtain pre k where "l = pre @ (SetAudioConfig, Some True) # replicate k (GetA2dpAudioStarted, Some True) @
        [(GetA2dpAudioStarted, Some False)]" "StartAudioRequest \<notin> fst ` set pre" "s = []"
      by (auto simp: at_rest_def configured_def)
    then have "ready (l @ [(SetVolume, Some True)])" unfolding ready_def by (intro exI [of _ pre] exI [of _ k]) simp
    with \<open>s = []\<close> show "begun [] (l @ [(SetVolume, Some True)]) s \<and> s = []" by (simp add: begun_def)
  qed (auto simp: at_rest_def configured_def a2_outcome_def)
  show "triple (after (\<lambda>l s. begun [] l s \<and> s = [])) (a2_request StartAudioRequest h (\<lambda>ok. ok))
     (\<lambda>ok. after (\<lambda>l s. begun [(StartAudioRequest, Some ok)] l s \<and> s = [])) a2_fails"
    by (rule a2_request_triple [where P = "\<lambda>l s. begun [] l s \<and> s = []" and
          Q = "\<lambda>ok l s. begun [(StartAudioRequest, Some ok)] l s \<and> s = []"])
      (auto simp: begun_def a2_outcome_def)
  show "triple (after (\<lambda>l s. begun [(StartAudioRequest, Some True)] l s \<and> s = [])) (audio_started svc addr)
     (\<lambda>b. after (\<lambda>l s. begun [(StartAudioRequest, Some True), (GetA2dpAudioStarted, Some b)] l s \<and> s = [])) a2_fails"
    unfolding audio_started_def
    by (rule a2_request_triple [where P = "\<lambda>l s. begun [(StartAudioRequest, Some True)] l s \<and> s = []" and
          Q = "\<lambda>b l s. begun [(StartAudioRequest, Some True), (GetA2dpAudioStarted, Some b)] l s \<and> s = []"])
      (auto simp: begun_def a2_outcome_def)
  show "triple (after (begun [(StartAudioRequest, Some True), (GetA2dpAudioStarted, Some True)]))
     (a2_request StopAudioRequest k (\<lambda>_. True))
     (\<lambda>_. after (begun [(StartAudioRequest, Some True), (GetA2dpAudioStarted, Some True), (StopAudioRequest, Some True)])) a2_fails"
    by (rule a2_request_triple) (auto simp: begun_def a2_outcome_def)
qed

lemma connect_uipc_triple:
  assumes "harmless P"
  shows "triple (after P) (connect_uipc svc) (\<lambda>_. after P) a2_fails"
proof -
  have "triple (after P) (a2_outside A2dpSocketFailed (connect_a2dp svc A2DP_DATA_PATH)) (\<lambda>_. after P)
      (\<lambda>e io. after P io \<and> a2_fails e io)"
    unfolding a2_outside_def
    by (rule triple_perform)
      (use assms in \<open>auto simp: a2_fails_def harmless_def Let_def split: prod.splits sum.splits\<close>)
  then show ?thesis
    unfolding connect_uipc_def
    by (intro triple_seq [OF a2_quiet_triples(6) [OF assms]] triple_retry_until) (simp_all add: a2_pause_def)
qed

lemma feeding_triple:
  assumes run: "\<And>io. \<exists>r io'. m io = Some (r, io') \<and> a2_log io' = a2_log io"
    and P: "\<And>l s s'. P l s \<Longrightarrow> P l s'" and "harmless P"
  shows "triple (after P) m (\<lambda>_. after P) a2_fails"
  unfolding triple_def
proof (intro allI impI)
  fix io r io'
  assume "after P io" and "m io = Some (r, io')"
  with run [of io] have "after P io'" by (auto intro: P)
  with assms(3) show "case r of Inl e \<Rightarrow> a2_fails e io' | Inr x \<Rightarrow> after P io'"
    by (auto simp: a2_fails_def harmless_def split: sum.splits)
qed

lemma a2dp_main_triple:
  "triple (\<lambda>io. a2_log io = [] \<and> a2_sent io = []) (a2dp_main svc fl tone argv)
     (\<lambda>x. after (a2_outcome (Inr x))) a2_fails"
proof -
  let ?S = "\<lambda>l s. begun [(StartAudioRequest, Some True)] l s \<and> s = []"
  let ?G = "begun [(StartAudioRequest, Some True), (GetA2dpAudioStarted, Some True)]"
  let ?F = "begun [(StartAudioRequest, Some True), (GetA2dpAudioStarted, Some True), (StopAudioRequest, Some True)]"
  note quiet = a2_quiet_triples [OF harmless_stages(1)]
  have device: "triple (after unstarted) (a2_request SetActiveDevice f ans) (\<lambda>_. after unstarted) a2_fails" for f :: "'a \<Rightarrow> (nat + unit) \<times> 'a" and ans
    by (rule a2_request_triple) (auto simp: unstarted_def a2_outcome_def)
  have config: "triple (after (\<lambda>l s. unstarted l s \<and> (ok \<longrightarrow> configured l s))) (require ok ConfigRejected)
      (\<lambda>_. after configured) a2_fails" for ok
    by (rule triple_require) (use harmless_stages(1) in \<open>auto simp: a2_fails_def harmless_def\<close>)
  have accepted: "triple (after (\<lambda>l s. begun [(StartAudioRequest, Some ok)] l s \<and> s = [])) (require ok A2StartRejected)
      (\<lambda>_. after ?S) a2_fails" for ok
    by (rule triple_require) (use harmless_stages(5) in \<open>auto simp: a2_fails_def harmless_def\<close>)
  have confirmed: "triple (after ?S) (if status \<noteq> 1 then throw (StartFailed status)
      else seq (audio_started svc addr) (\<lambda>started. require started (StartFailed status))) (\<lambda>_. after ?G) a2_fails" for status addr
  proof (rule triple_if)
    show "triple (after ?S) (throw (StartFailed status)) (\<lambda>_. after ?G) a2_fails"
      by (rule triple_throw) (use harmless_stages(5) in \<open>auto simp: a2_fails_def harmless_def\<close>)
    show "triple (after ?S) (seq (audio_started svc addr) (\<lambda>started. require started (StartFailed status))) (\<lambda>_. after ?G) a2_fails"
      by (rule triple_seq [OF hand_shake_triple(5)], rule triple_require) (auto simp: a2_fails_def a2_outcome_def begun_def)
  qed
  have pcm: "triple (after ?G) (case path of Some p \<Rightarrow> write_pcm_file svc p
      | None \<Rightarrow> write_test_tone svc t secs) (\<lambda>_. after ?G) a2_fails" for path t secs
    using write_pcm_file_run write_test_tone_run
    by (intro triple_case_option feeding_triple [OF _ _ harmless_stages(6)]) (fastforce simp: begun_def)+
  show ?thesis
    unfolding a2dp_main_def
    by (rule triple_conseq [where P' = "after unstarted" and E' = a2_fails],
        rule triple_seq [OF quiet(5)], rule triple_seq [OF quiet(1)], rule triple_seq [OF device],
        rule triple_seq [OF stop_existing_triple], rule triple_seq [OF hand_shake_triple(1)], rule triple_seq [OF config],
        rule triple_seq [OF hand_shake_triple(2)], rule triple_seq [OF hand_shake_triple(3)],
        rule triple_seq [OF a2_quiet_triples(2) [OF harmless_stages(4)]], rule triple_seq [OF hand_shake_triple(4)],
        rule triple_seq [OF accepted], rule triple_seq [OF a2_quiet_triples(3) [OF harmless_stages(5)]],
        rule triple_seq [OF confirmed], rule triple_seq [OF connect_uipc_triple [OF harmless_stages(6)]],
        rule triple_seq [OF pcm], rule triple_seq [OF a2_quiet_triples(2) [OF harmless_stages(6)]],
        rule triple_seq [OF hand_shake_triple(6)], rule triple_seq [OF a2_quiet_triples(3) [OF harmless_stages(7)]],
        rule triple_pure [where Q = "\<lambda>_. after ?F"])
      (auto simp: unstarted_def begun_def a2_outcome_def)
qed

section \<open>The program returns\<close>

text \<open>What the waiting loops rely on: a pause moves the clock forward and no call turns it back.\<close>

definition a2_clock_ok :: "'w a2dp_service \<Rightarrow> bool" where
  "a2_clock_ok svc \<longleftrightarrow>
     (\<forall>w. a2_clock svc w < a2_clock svc (a2_sleep svc 20000000 w)) \<and>
     (\<forall>addr w. a2_clock svc w \<le> a2_clock svc (snd (get_a2dp_audio_started svc addr w))) \<and>
     (\<forall>path w. a2_clock svc w \<le> a2_clock svc (snd (connect_a2dp svc path w)))"

lemma a2_returns [simp]:
  "returns P (a2_outside err f)" "returns P (a2_request c g ans)" "returns P (audio_started svc addr)"
  "returns P (a2dp_listener_pair svc)"
  by (simp_all add: a2_outside_def a2_request_def audio_started_def a2dp_listener_pair_def)

lemma a2_listener_returns: "returns (\<lambda>_. True) (a2dp_wait_for_listener svc)"
  unfolding a2dp_wait_for_listener_def by (intro returns_seq_any returns_case_option) simp_all

lemma a2_wait_returns:
  assumes "a2_clock_ok svc"
  shows "returns (\<lambda>_. True) (wait_for_audio_state svc addr expected)" and "returns (\<lambda>_. True) (connect_uipc svc)"
proof -
  have "advances (a2_now svc) (a2_pause svc) (seq (audio_started svc addr) (\<lambda>b. pure (b = expected)))"
    using assms unfolding advances_def a2_clock_ok_def
    by (auto simp: seq_def pure_def audio_started_def a2_request_def perform_def a2_now_def a2_pause_def Let_def
        split: prod.splits sum.splits) (metis snd_conv)+
  then show "returns (\<lambda>_. True) (wait_for_audio_state svc addr expected)"
    unfolding wait_for_audio_state_def
    by (intro returns_seq_any poll_until_returns) simp_all
  have "advances (a2_now svc) (a2_pause svc) (a2_outside A2dpSocketFailed (connect_a2dp svc A2DP_DATA_PATH))"
    using assms unfolding advances_def a2_clock_ok_def
    by (auto simp: a2_outside_def perform_def a2_now_def a2_pause_def Let_def split: prod.splits) (metis snd_conv)+
  then show "returns (\<lambda>_. True) (connect_uipc svc)"
    unfolding connect_uipc_def by (intro returns_seq_any retry_until_returns) simp_all
qed

lemma a2dp_main_returns:
  assumes "a2_clock_ok svc"
  shows "returns (\<lambda>_. True) (a2dp_main svc fl tone argv)"
proof -
  note waits = a2_wait_returns [OF assms] a2_listener_returns
  have "write_pcm_file svc path io \<noteq> None" "write_test_tone svc t secs io \<noteq> None" for path t secs io
    using write_pcm_file_run [of svc path io] write_test_tone_run [of svc t secs io] by force+
  then have "returns (\<lambda>_. True) (write_pcm_file svc path)" "returns (\<lambda>_. True) (write_test_tone svc t secs)" for path t secs
    by (simp_all add: returns_def)
  then show ?thesis
    unfolding a2dp_main_def stop_existing_stream_def
    by (intro returns_seq_any returns_if returns_case_option waits) simp_all
qed

section \<open>Properties\<close>

text \<open>C38: The stream is started from a known state only: the program always returns when the clock advances, and it
  sends the start request at most once, after the daemon has accepted the configuration and has then answered
  that no stream is running. PCM is sent only after the start was accepted and confirmed, and success means
  that the stop request was accepted as well.\<close>

theorem a2dp_starts_from_rest:
  assumes "a2_clock_ok svc" and "a2_log io = []" and "a2_sent io = []"
  shows "\<exists>r io'. a2dp_main svc fl tone argv io = Some (r, io') \<and>
    (\<not> is_ok r \<and> StartAudioRequest \<notin> fst ` set (a2_log io') \<and> a2_sent io' = [] \<or>
     (\<exists>pre k x post. a2_log io' = pre @ (SetAudioConfig, Some True) # replicate k (GetA2dpAudioStarted, Some True) @
          [(GetA2dpAudioStarted, Some False), (SetVolume, Some True), (StartAudioRequest, x)] @ post \<and>
        StartAudioRequest \<notin> fst ` set pre \<and>
        (\<not> is_ok r \<and> a2_sent io' = [] \<and> (post = [] \<or> (\<exists>y. post = [(GetA2dpAudioStarted, y)] \<and> y \<noteq> Some True)) \<or>
         \<not> is_ok r \<and> x = Some True \<and> post = [(GetA2dpAudioStarted, Some True)] \<or>
         x = Some True \<and> (\<exists>y. post = [(GetA2dpAudioStarted, Some True), (StopAudioRequest, y)] \<and> (is_ok r \<longrightarrow> y = Some True)))))"
proof -
  obtain r io' where run: "a2dp_main svc fl tone argv io = Some (r, io')"
    using returnsD [OF a2dp_main_returns [OF assms(1)]] by blast
  have "a2_outcome r (a2_log io') (a2_sent io')"
    using tripleD [OF a2dp_main_triple _ run] assms(2,3) by (cases r) (auto simp: a2_fails_def)
  then consider "\<not> is_ok r \<and> StartAudioRequest \<notin> fst ` set (a2_log io') \<and> a2_sent io' = []"
    | pre x post where "ready pre" "a2_log io' = pre @ (StartAudioRequest, x) # post"
      "\<not> is_ok r \<and> a2_sent io' = [] \<and> (post = [] \<or> (\<exists>y. post = [(GetA2dpAudioStarted, y)] \<and> y \<noteq> Some True)) \<or>
       \<not> is_ok r \<and> x = Some True \<and> post = [(GetA2dpAudioStarted, Some True)] \<or>
       x = Some True \<and> (\<exists>y. post = [(GetA2dpAudioStarted, Some True), (StopAudioRequest, y)] \<and> (is_ok r \<longrightarrow> y = Some True))"
    unfolding a2_outcome_def by blast
  then show ?thesis
  proof cases
    case 1
    with run show ?thesis by blast
  next
    case (2 pre x post)
    then obtain p k where "pre = p @ (SetAudioConfig, Some True) # replicate k (GetA2dpAudioStarted, Some True) @
        [(GetA2dpAudioStarted, Some False), (SetVolume, Some True)]" "StartAudioRequest \<notin> fst ` set p"
      unfolding ready_def by blast
    with 2 run show ?thesis
      by (intro exI [of _ r] exI [of _ io'] conjI [OF run] disjI2) (rule exI [of _ p], rule exI [of _ k],
          rule exI [of _ x], rule exI [of _ post], simp)
  qed
qed

text \<open>A daemon that plays, stops when asked and then needs one pause to come to rest.\<close>

definition playing_daemon :: "(bool \<times> nat) a2dp_service" where
  "playing_daemon =
     \<lparr>a2_connect_bus = (\<lambda>w. (Inr (), w)), set_active_device = (\<lambda>_ w. (Inr (), w)),
      set_audio_config = (\<lambda>_ _ _ _ _ w. (Inr True, w)), set_volume = (\<lambda>_ w. (Inr (), w)),
      start_audio_request = (\<lambda>(_, t). (Inr True, (True, t))), stop_audio_request = (\<lambda>w. (Inr (), w)),
      get_a2dp_audio_started = (\<lambda>_ w. (Inr (fst w), w)), a2_new_listener = (\<lambda>w. (Inr (), w)),
      a2_listener_status = (\<lambda>w. (Some (Inr (if snd w = 0 then 0 else 1)), w)), connect_a2dp = (\<lambda>_ w. (Inr (), w)),
      a2_clock = snd, a2_sleep = (\<lambda>n (_, t). (False, t + n)), a2_write = (\<lambda>_ w. (Inr (), w)),
      a2_shutdown = (\<lambda>w. (Inr (), w)), read_file = (\<lambda>_ w. (Inr [1, 2, 3, 4], w))\<rparr>"

definition busy_io :: "(bool \<times> nat) a2dp_io" where
  "busy_io = \<lparr>a2_world = (True, 0), a2_log = [], a2_sent = []\<rparr>"

lemma playing_run:
  "\<exists>io'. a2dp_main playing_daemon plain_floats (\<lambda>_ _. 0) [''--address'', ''x'', ''--pcm'', ''y''] busy_io = Some (Inr (), io')"
proof -
  have args: "a2dp_parse plain_floats [''--address'', ''x'', ''--pcm'', ''y''] =
      Inr \<lparr>a2_address = ''x'', a2_seconds = 3, a2_volume = 40, a2_frequency_hz = 440, a2_pcm_path = Some ''y''\<rparr>"
    by (simp add: a2dp_parse_def a2dp_option_def plain_floats_def)
  have cut: "chunks 3840 [1 :: u8, 2, 3, 4] = [[1, 2, 3, 4]]"
    by (subst chunks.simps, simp, subst chunks.simps, simp)
  show ?thesis
    by (simp add: a2dp_main_def args stop_existing_stream_def wait_for_audio_state_def connect_uipc_def
        a2dp_wait_for_listener_def a2dp_listener_pair_def audio_started_def a2_outside_def a2_request_def
        write_pcm_file_def feed_def act_defs poll_until.simps retry_until.simps a2_now_def a2_pause_def
        playing_daemon_def busy_io_def cut FRAMES_PER_TICK_def CHANNELS_def)
qed

theorem a2dp_starts_from_rest_witness:
  "\<exists>io' pre k. a2dp_main playing_daemon plain_floats (\<lambda>_ _. 0) [''--address'', ''x'', ''--pcm'', ''y''] busy_io =
      Some (Inr (), io') \<and>
    a2_log io' = pre @ (SetAudioConfig, Some True) # replicate k (GetA2dpAudioStarted, Some True) @
      [(GetA2dpAudioStarted, Some False), (SetVolume, Some True), (StartAudioRequest, Some True),
       (GetA2dpAudioStarted, Some True), (StopAudioRequest, Some True)] \<and>
    StartAudioRequest \<notin> fst ` set pre"
proof -
  have "a2_clock_ok playing_daemon" by (auto simp: a2_clock_ok_def playing_daemon_def)
  from a2dp_starts_from_rest [OF this, of busy_io plain_floats "\<lambda>_ _. 0" "[''--address'', ''x'', ''--pcm'', ''y'']"]
  obtain io' pre k where "a2dp_main playing_daemon plain_floats (\<lambda>_ _. 0) [''--address'', ''x'', ''--pcm'', ''y''] busy_io =
      Some (Inr (), io')"
    "a2_log io' = pre @ (SetAudioConfig, Some True) # replicate k (GetA2dpAudioStarted, Some True) @
      [(GetA2dpAudioStarted, Some False), (SetVolume, Some True), (StartAudioRequest, Some True),
       (GetA2dpAudioStarted, Some True), (StopAudioRequest, Some True)]"
    "StartAudioRequest \<notin> fst ` set pre"
    using playing_run by (auto simp: busy_io_def)
  then show ?thesis by blast
qed


end
