(* ===== verification/Pipewire_Session.thy ===== *)
theory Pipewire_Session
  imports Pipewire_Adapter
begin

text \<open>
  How the adapter of \<open>src/wireless/pipewire.rs\<close> brings up a PipeWire stream: \<open>probe_server\<close>, \<open>run_source\<close> and
  \<open>run_sink\<close> up to the main loop. The PipeWire library is an argument, the outcome of each of its calls
  (\<^const>\<open>None\<close> is success); the state is the list of the calls made so far. What happens inside the main
  loop are the process callbacks of the theory \<open>Pipewire_Adapter\<close>.
\<close>

section \<open>The library\<close>

datatype spa_direction = SpaOutput | SpaInput

datatype pw_flag = MAP_BUFFERS | RT_PROCESS

datatype pw_call =
    PwInit
  | NewMainLoop
  | NewContext
  | ConnectCore
  | NewStream string "(string \<times> string) list"
  | RegisterListener
  | SerializeFormat AudioFormat u32 u32
  | DecodePod
  | ConnectStream spa_direction "pw_flag list"
  | RunMainLoop

datatype session_failure =
    InvalidPcm types_error
  | PwCallFailed pw_call nat
  | StrideRefused
  | FormatUnreachable

definition pw_do :: "(pw_call \<Rightarrow> nat option) \<Rightarrow> pw_call \<Rightarrow> (pw_call list, session_failure, unit) act" where
  "pw_do lib c = perform (\<lambda>calls. (case lib c of None \<Rightarrow> Inr () | Some e \<Rightarrow> Inl (PwCallFailed c e), calls @ [c]))"

text \<open>\<open>pw::init\<close> and \<open>mainloop.run\<close> give no result.\<close>

definition pw_note :: "pw_call \<Rightarrow> (pw_call list, session_failure, unit) act" where
  "pw_note c = modify (\<lambda>calls. calls @ [c])"

section \<open>The three entry points\<close>

definition connect_core :: "(pw_call \<Rightarrow> nat option) \<Rightarrow> PcmConfiguration \<Rightarrow> (pw_call list, session_failure, unit) act" where
  "connect_core lib pcm =
     seq (from_result (map_err InvalidPcm (pcm_validate pcm))) (\<lambda>_.
     seq (pw_note PwInit) (\<lambda>_.
     seq (pw_do lib NewMainLoop) (\<lambda>_.
     seq (pw_do lib NewContext) (\<lambda>_.
     pw_do lib ConnectCore))))"

definition format_pod :: "(pw_call \<Rightarrow> nat option) \<Rightarrow> PcmConfiguration \<Rightarrow> (pw_call list, session_failure, unit) act" where
  "format_pod lib pcm =
     seq (from_result (ok_or (pw_format pcm) FormatUnreachable)) (\<lambda>(f, rate, chans).
     pw_do lib (SerializeFormat f rate chans))"

definition connect_stream ::
  "(pw_call \<Rightarrow> nat option) \<Rightarrow> PcmConfiguration \<Rightarrow> spa_direction \<Rightarrow> pw_flag list \<Rightarrow> (pw_call list, session_failure, unit) act"
where
  "connect_stream lib pcm direction flags =
     seq (format_pod lib pcm) (\<lambda>_.
     seq (pw_do lib DecodePod) (\<lambda>_.
     seq (pw_do lib (ConnectStream direction flags)) (\<lambda>_.
     pw_note RunMainLoop)))"

definition probe_properties :: "(string \<times> string) list" where
  "probe_properties =
     [(''APP_NAME'', ''Dorsche''), (''NODE_NAME'', ''dorsche.pipewire.probe''), (''NODE_VIRTUAL'', ''true''),
      (''MEDIA_TYPE'', ''Audio''), (''MEDIA_CLASS'', ''Audio/Source'')]"

definition node_properties :: "string \<Rightarrow> string \<Rightarrow> string \<Rightarrow> (string \<times> string) list" where
  "node_properties node_name category media_class =
     [(''APP_NAME'', ''Dorsche''), (''NODE_NAME'', node_name), (''NODE_VIRTUAL'', ''true''), (''MEDIA_TYPE'', ''Audio''),
      (''MEDIA_CATEGORY'', category), (''MEDIA_ROLE'', ''Communication''), (''MEDIA_CLASS'', media_class)]"

definition probe_server :: "(pw_call \<Rightarrow> nat option) \<Rightarrow> PcmConfiguration \<Rightarrow> (pw_call list, session_failure, unit) act" where
  "probe_server lib pcm =
     seq (connect_core lib pcm) (\<lambda>_.
     seq (pw_do lib (NewStream ''dorsche-pipewire-probe'' probe_properties)) (\<lambda>_.
     seq (pw_do lib RegisterListener) (\<lambda>_.
     connect_stream lib pcm SpaOutput [MAP_BUFFERS])))"

text \<open>The listener of the probe ends the main loop in these states of the stream.\<close>

datatype stream_state = Unconnected | Connecting | Paused | Streaming | StreamError

definition probe_quits :: "stream_state \<Rightarrow> bool" where
  "probe_quits state \<longleftrightarrow> state = Paused \<or> state = Streaming"

text \<open>The stride that the callback of the source writes is the result of its set-up.\<close>

definition pw_run_source ::
  "(pw_call \<Rightarrow> nat option) \<Rightarrow> string \<Rightarrow> PcmConfiguration \<Rightarrow> (pw_call list, session_failure, usize) act"
where
  "pw_run_source lib node_name pcm =
     seq (connect_core lib pcm) (\<lambda>_.
     seq (from_result (ok_or (pw_bytes_per_frame pcm) StrideRefused)) (\<lambda>stride.
     seq (pw_do lib (NewStream node_name (node_properties node_name ''Capture'' ''Audio/Source''))) (\<lambda>_.
     seq (pw_do lib RegisterListener) (\<lambda>_.
     seq (connect_stream lib pcm SpaOutput [MAP_BUFFERS, RT_PROCESS]) (\<lambda>_.
     pure stride)))))"

definition pw_run_sink ::
  "(pw_call \<Rightarrow> nat option) \<Rightarrow> string \<Rightarrow> PcmConfiguration \<Rightarrow> (pw_call list, session_failure, unit) act"
where
  "pw_run_sink lib node_name pcm =
     seq (connect_core lib pcm) (\<lambda>_.
     seq (pw_do lib (NewStream node_name (node_properties node_name ''Playback'' ''Audio/Sink''))) (\<lambda>_.
     seq (pw_do lib RegisterListener) (\<lambda>_.
     connect_stream lib pcm SpaInput [MAP_BUFFERS, RT_PROCESS])))"

section \<open>The order of the calls\<close>

text \<open>
  A list of calls that is made in order until one fails: \<open>attempted\<close> is what is called of it, and
  \<open>first_failure\<close> the error.
\<close>

fun attempted :: "(pw_call \<Rightarrow> nat option) \<Rightarrow> pw_call list \<Rightarrow> pw_call list" where
  "attempted lib [] = []"
| "attempted lib (c # cs) =
     c # (if c = PwInit \<or> c = RunMainLoop \<or> lib c = None then attempted lib cs else [])"

fun first_failure :: "(pw_call \<Rightarrow> nat option) \<Rightarrow> pw_call list \<Rightarrow> session_failure option" where
  "first_failure lib [] = None"
| "first_failure lib (c # cs) =
     (if c = PwInit \<or> c = RunMainLoop then first_failure lib cs
      else case lib c of None \<Rightarrow> first_failure lib cs | Some e \<Rightarrow> Some (PwCallFailed c e))"

definition does :: "(pw_call \<Rightarrow> nat option) \<Rightarrow> pw_call list \<Rightarrow> 'a \<Rightarrow> (pw_call list, session_failure, 'a) act \<Rightarrow> bool" where
  "does lib cs x m \<longleftrightarrow>
     (\<forall>calls. m calls =
        Some (case first_failure lib cs of None \<Rightarrow> Inr x | Some e \<Rightarrow> Inl e, calls @ attempted lib cs))"

lemma seq_assoc: "seq (seq m k) l = seq m (\<lambda>x. seq (k x) l)"
  by (rule ext) (auto simp: seq_def bind_split split: option.splits sum.splits)

lemma first_failure_append:
  "first_failure lib (cs @ ds) = (case first_failure lib cs of None \<Rightarrow> first_failure lib ds | Some e \<Rightarrow> Some e)"
  by (induction cs) (auto split: option.splits)

lemma attempted_append:
  "attempted lib (cs @ ds) = attempted lib cs @ (if first_failure lib cs = None then attempted lib ds else [])"
  by (induction cs) (auto split: option.splits)

lemma does_basic:
  "does lib [] x (pure x)" "does lib [] x (from_result (Inr x))"
  "c \<noteq> PwInit \<Longrightarrow> c \<noteq> RunMainLoop \<Longrightarrow> does lib [c] () (pw_do lib c)"
  "c = PwInit \<or> c = RunMainLoop \<Longrightarrow> does lib [c] () (pw_note c)"
  by (auto simp: does_def pw_do_def pw_note_def act_defs split: option.splits)

lemma does_seq:
  assumes "does lib cs x m" and "does lib ds y (k x)"
  shows "does lib (cs @ ds) y (seq m k)"
  using assms by (auto simp: does_def seq_def first_failure_append attempted_append split: option.splits)

text \<open>The calls of each entry point, for a format that passes the validation.\<close>

definition core_calls :: "pw_call list" where
  "core_calls = [PwInit, NewMainLoop, NewContext, ConnectCore]"

definition stream_calls :: "PcmConfiguration \<Rightarrow> spa_direction \<Rightarrow> pw_flag list \<Rightarrow> pw_call list" where
  "stream_calls pcm direction flags =
     [RegisterListener,
      SerializeFormat (if bits_per_sample pcm = 16 then S16LE else if bits_per_sample pcm = 24 then S24LE else S32LE)
        (sample_rate_hz pcm) (ucast (channels pcm)),
      DecodePod, ConnectStream direction flags, RunMainLoop]"

lemma valid_format:
  assumes "pcm_validate pcm = Inr ()"
  shows "pw_format pcm = Some (if bits_per_sample pcm = 16 then S16LE else if bits_per_sample pcm = 24 then S24LE else S32LE,
      sample_rate_hz pcm, ucast (channels pcm))"
    and "\<exists>stride. pw_bytes_per_frame pcm = Some stride \<and>
      unat stride = unat (channels pcm) * (unat (bits_per_sample pcm) div 8)"
proof -
  show "pw_format pcm = Some (if bits_per_sample pcm = 16 then S16LE else if bits_per_sample pcm = 24 then S24LE else S32LE,
      sample_rate_hz pcm, ucast (channels pcm))"
    using assms by (auto simp: pcm_validate_Inr_iff pw_format_def)
  let ?a = "ucast (bits_per_sample pcm div 8) :: usize" and ?b = "ucast (channels pcm) :: usize"
  note bounds = pcm_valid_bounds [OF assms]
  have size: "unat ?a * unat ?b = unat (channels pcm) * (unat (bits_per_sample pcm) div 8)"
    by (simp add: unat_div mult.commute)
  have "unat (channels pcm) * (unat (bits_per_sample pcm) div 8) \<le> 8 * 4"
    using bounds by (intro mult_mono) simp_all
  then have mul: "checked_mul ?a ?b = Some (?a * ?b)" and n: "unat (?a * ?b) = unat ?a * unat ?b"
    unfolding checked_mul_def size [symmetric] by (simp_all add: unat_mult_no_wrap del: unat_ucast_simps)
  moreover have "0 < ?a * ?b"
    using n bounds unfolding size by (simp add: word_less_nat_alt)
  ultimately show "\<exists>stride. pw_bytes_per_frame pcm = Some stride \<and>
      unat stride = unat (channels pcm) * (unat (bits_per_sample pcm) div 8)"
    using size by (auto simp: pw_bytes_per_frame_def)
qed

lemma does_rules:
  "c \<noteq> PwInit \<Longrightarrow> c \<noteq> RunMainLoop \<Longrightarrow> does lib cs y (k ()) \<Longrightarrow> does lib (c # cs) y (seq (pw_do lib c) k)"
  "c = PwInit \<or> c = RunMainLoop \<Longrightarrow> does lib cs y (k ()) \<Longrightarrow> does lib (c # cs) y (seq (pw_note c) k)"
  "does lib cs y (l x) \<Longrightarrow> does lib cs y (seq (from_result (Inr x)) l)"
  using does_seq [OF does_basic(3), of c lib cs y k] does_seq [OF does_basic(4), of c lib cs y k]
    does_seq [OF does_basic(2), of lib cs y l x] by simp_all

lemma does_connect_core: "pcm_validate pcm = Inr () \<Longrightarrow> does lib core_calls () (connect_core lib pcm)"
  by (simp add: connect_core_def core_calls_def does_rules does_basic)

lemma does_connect_stream:
  assumes "pcm_validate pcm = Inr ()"
  shows "does lib (stream_calls pcm direction flags) ()
    (seq (pw_do lib RegisterListener) (\<lambda>_. connect_stream lib pcm direction flags))"
proof -
  let ?f = "if bits_per_sample pcm = 16 then S16LE else if bits_per_sample pcm = 24 then S24LE else S32LE"
  have "does lib [SerializeFormat ?f (sample_rate_hz pcm) (ucast (channels pcm))] () (format_pod lib pcm)"
    unfolding format_pod_def valid_format(1) [OF assms] ok_or_Some
    by (rule does_rules(3)) (simp add: does_basic)
  from does_seq [OF this, of "[DecodePod, ConnectStream direction flags, RunMainLoop]" "()"]
  show ?thesis
    unfolding connect_stream_def stream_calls_def
    by (intro does_rules(1)) (simp_all add: does_rules does_basic)
qed

lemma pw_setup_exact:
  "case pcm_validate pcm of
     Inl e \<Rightarrow>
       pw_run_source lib node pcm calls = Some (Inl (InvalidPcm e), calls) \<and>
       pw_run_sink lib node pcm calls = Some (Inl (InvalidPcm e), calls) \<and>
       probe_server lib pcm calls = Some (Inl (InvalidPcm e), calls)
   | Inr _ \<Rightarrow>
       (\<exists>stride. unat stride = unat (channels pcm) * (unat (bits_per_sample pcm) div 8) \<and>
          does lib (core_calls @ NewStream node (node_properties node ''Capture'' ''Audio/Source'') #
            stream_calls pcm SpaOutput [MAP_BUFFERS, RT_PROCESS]) stride (pw_run_source lib node pcm)) \<and>
       does lib (core_calls @ NewStream node (node_properties node ''Playback'' ''Audio/Sink'') #
         stream_calls pcm SpaInput [MAP_BUFFERS, RT_PROCESS]) () (pw_run_sink lib node pcm) \<and>
       does lib (core_calls @ NewStream ''dorsche-pipewire-probe'' probe_properties #
         stream_calls pcm SpaOutput [MAP_BUFFERS]) () (probe_server lib pcm)"
proof (cases "pcm_validate pcm")
  case (Inl e)
  then show ?thesis
    by (simp add: pw_run_source_def pw_run_sink_def probe_server_def connect_core_def seq_def from_result_def)
next
  case (Inr u)
  then have valid: "pcm_validate pcm = Inr ()" by simp
  note core = does_seq [OF does_connect_core [OF valid]] and stream = does_connect_stream [OF valid]
  obtain stride where stride: "pw_bytes_per_frame pcm = Some stride"
      "unat stride = unat (channels pcm) * (unat (bits_per_sample pcm) div 8)"
    using valid_format(2) [OF valid] by blast
  have tail: "does lib (stream_calls pcm SpaOutput flags) stride
      (seq (pw_do lib RegisterListener) (\<lambda>_. seq (connect_stream lib pcm SpaOutput flags) (\<lambda>_. pure stride)))" for flags
    using does_seq [OF stream [where direction = SpaOutput and flags = flags] does_basic(1) [of lib stride]]
    by (simp add: seq_assoc)
  have "does lib (core_calls @ NewStream node (node_properties node ''Capture'' ''Audio/Source'') #
      stream_calls pcm SpaOutput [MAP_BUFFERS, RT_PROCESS]) stride (pw_run_source lib node pcm)"
    unfolding pw_run_source_def stride(1) ok_or_Some
    by (intro core does_rules(3) does_rules(1) tail) simp_all
  moreover have "does lib (core_calls @ NewStream node (node_properties node ''Playback'' ''Audio/Sink'') #
      stream_calls pcm SpaInput [MAP_BUFFERS, RT_PROCESS]) () (pw_run_sink lib node pcm)"
    unfolding pw_run_sink_def by (intro core does_rules(1) stream) simp_all
  moreover have "does lib (core_calls @ NewStream ''dorsche-pipewire-probe'' probe_properties #
      stream_calls pcm SpaOutput [MAP_BUFFERS]) () (probe_server lib pcm)"
    unfolding probe_server_def by (intro core does_rules(1) stream) simp_all
  ultimately show ?thesis using stride(2) Inr by auto
qed

end
