(* ===== verification/Demo_Program.thy ===== *)
theory Demo_Program
  imports Topshim_Actors Command_Line
begin

text \<open>
  The demo program of \<open>src/main.rs\<close> around the actors: how long it runs, and what it makes of the results of its
  four tasks. Also the synthetic microphone of \<open>src/dorsche_core.cc\<close> that the demo listens to. The
  arithmetic on samples is an argument: \<open>sample\<close> gives the value of the tone at an index, for the
  loud and for the quiet amplitude.
\<close>

section \<open>The synthetic microphone\<close>

definition speech_burst :: "u64 \<Rightarrow> bool" where
  "speech_burst seq \<longleftrightarrow> (seq div 80) mod 2 = 1"

definition synthetic_input :: "(bool \<Rightarrow> u64 \<Rightarrow> u32 \<Rightarrow> 'f) \<Rightarrow> usize \<Rightarrow> u32 \<Rightarrow> u64 \<Rightarrow> 'f list" where
  "synthetic_input sample count rate seq =
     map (\<lambda>i. sample (speech_burst seq) (seq * count + of_nat i) rate) [0..<unat count]"

lemma speech_burst_iff: "speech_burst seq \<longleftrightarrow> odd (unat seq div 80)"
  by (simp add: speech_burst_def word_unat_eq_iff unat_div unat_mod odd_iff_mod_2_eq_one)

text \<open>
  The bursts take turns with silence every 80 frames, the first one beginning with frame 80, 800 ms
  after the start; within a turn the frames of the microphone join to one tone without a gap.
\<close>

lemma first_burst: "unat seq < 160 \<Longrightarrow> speech_burst seq \<longleftrightarrow> 80 \<le> unat seq"
proof -
  assume "unat seq < 160"
  then have "unat seq div 80 = (if 80 \<le> unat seq then 1 else 0)" by (simp add: div_nat_eqI)
  then show ?thesis by (simp add: speech_burst_iff)
qed

lemma synthetic_input_contiguous:
  assumes "\<And>j. j < n \<Longrightarrow> speech_burst (seq + of_nat j) = loud"
  shows "concat (map (\<lambda>j. synthetic_input sample 160 rate (seq + of_nat j)) [0..<n]) =
    map (\<lambda>i. sample loud (seq * 160 + of_nat i) rate) [0..<n * 160]"
proof -
  have n: "unat (160 :: usize) = 160" by simp
  have "concat (map (\<lambda>j. synthetic_input sample 160 rate (seq + of_nat j)) [0..<n]) =
      concat (map (\<lambda>j. map (\<lambda>i. sample loud (seq * 160 + of_nat (j * 160 + i)) rate) [0..<160]) [0..<n])"
    using assms n by (intro arg_cong [of _ _ concat] map_cong) (simp_all add: synthetic_input_def algebra_simps)
  also have "\<dots> = map (\<lambda>i. sample loud (seq * 160 + of_nat i) rate) [0..<160 * n]"
    by (rule concat_frames)
  finally show ?thesis by (simp only: mult.commute [of n])
qed

section \<open>The end of the program\<close>

datatype demo_error =
    StartUtteranceFailed
  | BadDemoMs
  | CtrlCFailed nat
  | ActorPanicked
  | ActorFailed actor_error

text \<open>The tasks are awaited in the order proxy, capture, detector, sink; \<^const>\<open>None\<close> is a panic.\<close>

fun join_tasks :: "(actor_error + unit) option list \<Rightarrow> demo_error + unit" where
  "join_tasks [] = Inr ()"
| "join_tasks (None # ts) = Inl ActorPanicked"
| "join_tasks (Some r # ts) = and_then (map_err ActorFailed r) (\<lambda>_. join_tasks ts)"

definition demo_duration :: "string option \<Rightarrow> nat + unit \<Rightarrow> demo_error + u64 option" where
  "demo_duration demo_ms ctrl_c =
     (case demo_ms of
        Some text \<Rightarrow> and_then (ok_or (parse_u64 text) BadDemoMs) (\<lambda>ms. Inr (Some ms))
      | None \<Rightarrow> and_then (map_err CtrlCFailed ctrl_c) (\<lambda>_. Inr None))"

definition demo_main ::
  "bool \<Rightarrow> string option \<Rightarrow> nat + unit \<Rightarrow> (actor_error + unit) option list \<Rightarrow> demo_error + unit"
where
  "demo_main start_sent demo_ms ctrl_c tasks =
     ensure start_sent StartUtteranceFailed (
     and_then (demo_duration demo_ms ctrl_c) (\<lambda>_. join_tasks tasks))"

lemma join_tasks_Inr_iff: "join_tasks ts = Inr () \<longleftrightarrow> (\<forall>t \<in> set ts. t = Some (Inr ()))"
  by (induction ts rule: join_tasks.induct) (auto simp: result_simps split: sum.splits)

lemma demo_main_Inr_iff:
  "demo_main start_sent demo_ms ctrl_c tasks = Inr () \<longleftrightarrow>
     start_sent \<and> (case demo_ms of Some text \<Rightarrow> parse_u64 text \<noteq> None | None \<Rightarrow> ctrl_c = Inr ()) \<and>
     (\<forall>t \<in> set tasks. t = Some (Inr ()))"
  by (auto simp: demo_main_def demo_duration_def result_simps join_tasks_Inr_iff split: option.splits)

end
